(* ===== verification/Prelude.thy ===== *)
theory Prelude
  imports Main "HOL-Library.Word"
begin

text \<open>
  Shared vocabulary of the development: the machine types of the C++ code, the way an
  operation can fail to return, byte-level memory access with its bounds check, and the
  generic facts on lists and words that several components use.
  \<^item> \<open>size_t\<close> and \<open>ssize_t\<close> are 64 bit words; a signed reading is \<open>sint\<close>, so
    \<open>ret > 0\<close> on a \<open>ssize_t\<close> is \<open>0 < sint ret\<close>.
  \<^item> \<open>failure\<close> lists the ways in which a call does not return a value: an exception
    leaves it, it is still waiting when the environment script it was given ends, or it
    performs an access that C++ leaves undefined.
  \<^item> \<open>mem_read\<close> and \<open>mem_write\<close> are \<open>memcpy\<close>-like accesses to a byte array; outside
    the array they are undefined behaviour, never a silent success.
\<close>

named_theorems exec_simps "evaluation rules of the result type"

type_synonym size_t = "64 word"
type_synonym ssize_t = "64 word"
type_synonym bytes = "char list"

section \<open>Calls that do not return\<close>

datatype failure =
    Throws string
  | Blocked
  | Undefined string

type_synonym 'a exec = "failure + 'a"

definition ebind :: "'a exec \<Rightarrow> ('a \<Rightarrow> 'b exec) \<Rightarrow> 'b exec" where
  "ebind m f = (case m of Inl e \<Rightarrow> Inl e | Inr a \<Rightarrow> f a)"

lemma ebind_Inl [simp, exec_simps]: "ebind (Inl e) f = Inl e"
  by (simp add: ebind_def)

lemma ebind_Inr [simp, exec_simps]: "ebind (Inr a) f = f a"
  by (simp add: ebind_def)

lemma ebind_eq_Inr: "ebind m f = Inr y \<longleftrightarrow> (\<exists>x. m = Inr x \<and> f x = Inr y)"
  by (cases m) auto

lemma ebind_eq_Inl: "ebind m f = Inl e \<longleftrightarrow> m = Inl e \<or> (\<exists>x. m = Inr x \<and> f x = Inl e)"
  by (cases m) auto

lemma ebind_assoc: "ebind (ebind m f) g = ebind m (\<lambda>x. ebind (f x) g)"
  by (cases m) auto

lemma ebind_cong [fundef_cong]:
  "m = m' \<Longrightarrow> (\<And>x. m' = Inr x \<Longrightarrow> f x = f' x) \<Longrightarrow> ebind m f = ebind m' f'"
  by (cases m') auto

section \<open>Byte arrays\<close>

definition mem_read :: "bytes \<Rightarrow> nat \<Rightarrow> nat \<Rightarrow> bytes exec" where
  "mem_read m off n =
     (if off + n \<le> length m then Inr (take n (drop off m)) else Inl (Undefined ''read''))"

definition mem_write :: "bytes \<Rightarrow> nat \<Rightarrow> bytes \<Rightarrow> bytes exec" where
  "mem_write m off bs =
     (if off + length bs \<le> length m
      then Inr (take off m @ bs @ drop (off + length bs) m)
      else Inl (Undefined ''write''))"

lemma mem_write_length: "mem_write m off bs = Inr m' \<Longrightarrow> length m' = length m"
  by (auto simp: mem_write_def split: if_splits)

lemma mem_write_ok: "off + length bs \<le> length m \<Longrightarrow> \<exists>m'. mem_write m off bs = Inr m'"
  by (simp add: mem_write_def)

lemma mem_read_ok: "off + n \<le> length m \<Longrightarrow> \<exists>bs. mem_read m off n = Inr bs \<and> length bs = n"
  by (simp add: mem_read_def)

lemma mem_read_write_same:
  "mem_write m off bs = Inr m' \<Longrightarrow> mem_read m' off (length bs) = Inr bs"
  by (auto simp: mem_write_def mem_read_def split: if_splits)

lemma mem_write_nth:
  assumes "mem_write m off bs = Inr m'" "k < length m" "k < off \<or> off + length bs \<le> k"
  shows "m' ! k = m ! k"
  using assms by (auto simp: mem_write_def nth_append split: if_splits)

lemma mem_read_cong:
  assumes "length m' = length m" "\<And>k. off \<le> k \<Longrightarrow> k < off + n \<Longrightarrow> m' ! k = m ! k"
  shows "mem_read m' off n = mem_read m off n"
proof -
  have "take n (drop off m') = take n (drop off m)"
    by (rule nth_equalityI) (use assms in auto)
  with assms(1) show ?thesis by (simp add: mem_read_def)
qed

lemma mem_read_write_other:
  assumes w: "mem_write m off bs = Inr m'" and d: "off' + n \<le> off \<or> off + length bs \<le> off'"
    and b: "off' + n \<le> length m"
  shows "mem_read m' off' n = mem_read m off' n"
proof (rule mem_read_cong)
  show "length m' = length m" using w by (rule mem_write_length)
  show "m' ! k = m ! k" if "off' \<le> k" "k < off' + n" for k
    using mem_write_nth [OF w, of k] that d b by linarith
qed

section \<open>Words\<close>

lemma unat_mult_small:
  fixes a b :: "'a::len word"
  shows "unat a * unat b < 2 ^ LENGTH('a) \<Longrightarrow> unat (a * b) = unat a * unat b"
  by (simp add: unat_word_ariths)

lemma unat_add_small:
  fixes a b :: "'a::len word"
  shows "unat a + unat b < 2 ^ LENGTH('a) \<Longrightarrow> unat (a + b) = unat a + unat b"
  by (simp add: unat_word_ariths)

lemma sint_eq_unat_small:
  fixes w :: "64 word"
  assumes "unat w < 2 ^ 63"
  shows "sint w = int (unat w)"
proof -
  have "uint w < 2 ^ 63"
    using assms by (metis of_nat_less_iff of_nat_numeral of_nat_power uint_nat)
  moreover have "- (2 ^ 63) \<le> uint w"
    by (rule order_trans [OF _ uint_ge_0]) simp
  ultimately have "signed_take_bit 63 (uint w) = uint w"
    using signed_take_bit_int_eq_self by blast
  then show ?thesis by (simp add: sint_uint)
qed

text \<open>The server keeps its options in \<open>unsigned short\<close>, which are widened to \<open>size_t\<close>.\<close>

lemma unat_ucast16 [simp]: "unat (ucast (x :: 16 word) :: size_t) = unat x"
proof -
  have "unat x < 2 ^ 64" using unsigned_less [of x, where 'a = nat] by simp
  then show ?thesis by (simp add: unsigned_ucast_eq take_bit_nat_eq_self)
qed

lemma unat16_less: "unat (x :: 16 word) < 65536"
  using unsigned_less [of x, where 'a = nat] by simp

section \<open>Lists\<close>

lemma nth_update_if: "xs[i := x] ! j = (if i = j \<and> i < length xs then x else xs ! j)"
  by (cases "i < length xs") (auto simp: nth_list_update list_update_beyond)

lemma list_update_map_upt:
  "i < n \<Longrightarrow> (map f [0..<n])[i := x] = map (f(i := x)) [0..<n]"
  by (rule nth_equalityI) (auto simp: nth_list_update)

end
