(* ===== verification/Packet_Buffer.thy ===== *)
theory Packet_Buffer
  imports Prelude
begin

text \<open>
  \<open>packet.hpp\<close> and \<open>packet_buffer.hpp\<close>: a fixed pool of packet descriptors over one
  byte array. A \<open>Packet *\<close> is the index of its descriptor in the array \<open>packets\<close>
  (the code keeps \<open>idx\<close> equal to it), the null pointer is \<open>None\<close>, and the \<open>buf\<close>
  pointer of a descriptor is its offset into the byte array \<open>buffer\<close>.
\<close>

section \<open>Data\<close>

record Packet =
  used :: bool
  idx :: size_t
  psize :: size_t
  maxSize :: size_t
  buf :: size_t

definition Packet_free :: "Packet \<Rightarrow> Packet" where
  "Packet_free p = p\<lparr>used := False\<rparr>"

record PacketBuffer =
  pb_size :: size_t
  pb_mtu :: size_t
  pb_packetSize :: size_t
  packets :: "Packet list"
  buffer :: bytes

section \<open>Operations\<close>

text \<open>\<open>((mtu/sizeof(size_t))+1)*sizeof(size_t)\<close>, with \<open>sizeof(size_t) = 8\<close>.\<close>

definition packetSize_of :: "size_t \<Rightarrow> size_t" where
  "packetSize_of mtu = ((mtu div 8) + 1) * 8"

text \<open>
  The constructor. \<open>new char[n]\<close> leaves the bytes indeterminate: \<open>raw\<close> is whatever
  the memory holds.
\<close>

definition PacketBuffer_new :: "(nat \<Rightarrow> char) \<Rightarrow> size_t \<Rightarrow> size_t \<Rightarrow> PacketBuffer" where
  "PacketBuffer_new raw mtu n =
     (let psz = packetSize_of mtu in
      \<lparr>pb_size = n, pb_mtu = mtu, pb_packetSize = psz,
       packets = map (\<lambda>i. \<lparr>used = False, idx = of_nat i, psize = 0, maxSize = mtu,
                           buf = of_nat i * psz\<rparr>) [0..<unat n],
       buffer = map raw [0..<unat (psz * n)]\<rparr>)"

definition getPacketSize :: "PacketBuffer \<Rightarrow> size_t" where
  "getPacketSize b = pb_packetSize b"

definition pb_getMtu :: "PacketBuffer \<Rightarrow> size_t" where
  "pb_getMtu b = pb_mtu b"

definition pb_getSize :: "PacketBuffer \<Rightarrow> size_t" where
  "pb_getSize b = pb_size b"

text \<open>The loop of \<open>alloc\<close>, from descriptor \<open>i\<close> on.\<close>

function alloc_loop :: "PacketBuffer \<Rightarrow> nat \<Rightarrow> nat option \<times> PacketBuffer" where
  "alloc_loop b i =
     (if i < unat (pb_size b) then
        if used (packets b ! i) then alloc_loop b (Suc i)
        else (Some i, b\<lparr>packets := (packets b)[i := (packets b ! i)\<lparr>used := True\<rparr>]\<rparr>)
      else (None, b))"
  by pat_completeness auto
termination
  by (relation "measure (\<lambda>(b, i). unat (pb_size b) - i)") auto

declare alloc_loop.simps [simp del]

definition alloc :: "PacketBuffer \<Rightarrow> nat option \<times> PacketBuffer" where
  "alloc b = alloc_loop b 0"

text \<open>\<open>pkt->free()\<close> through the pointer of descriptor \<open>i\<close>.\<close>

definition pb_free :: "nat \<Rightarrow> PacketBuffer \<Rightarrow> PacketBuffer" where
  "pb_free i b = b\<lparr>packets := (packets b)[i := Packet_free (packets b ! i)]\<rparr>"

text \<open>\<open>packet->size = ret\<close>.\<close>

definition pb_setSize :: "nat \<Rightarrow> size_t \<Rightarrow> PacketBuffer \<Rightarrow> PacketBuffer" where
  "pb_setSize i n b = b\<lparr>packets := (packets b)[i := (packets b ! i)\<lparr>psize := n\<rparr>]\<rparr>"

section \<open>Invariant\<close>

text \<open>
  What the constructor establishes and every operation keeps: one descriptor per slot,
  each with its own index and its own part of the byte array.
\<close>

definition slot_ok :: "PacketBuffer \<Rightarrow> nat \<Rightarrow> bool" where
  "slot_ok b i \<longleftrightarrow>
     (let p = packets b ! i in
      idx p = of_nat i \<and> maxSize p = pb_mtu b \<and>
      unat (buf p) = i * unat (pb_packetSize b))"

definition wf_pb :: "PacketBuffer \<Rightarrow> bool" where
  "wf_pb b \<longleftrightarrow>
     length (packets b) = unat (pb_size b) \<and>
     length (buffer b) = unat (pb_packetSize b) * unat (pb_size b) \<and>
     unat (pb_mtu b) < unat (pb_packetSize b) \<and>
     (\<forall>i < unat (pb_size b). slot_ok b i)"

definition used_at :: "PacketBuffer \<Rightarrow> nat \<Rightarrow> bool" where
  "used_at b i \<longleftrightarrow> i < unat (pb_size b) \<and> used (packets b ! i)"

definition capacity :: "PacketBuffer \<Rightarrow> nat" where
  "capacity b = unat (pb_size b)"


section \<open>Packet size and layout\<close>

lemma packetSize_of_unat:
  assumes "unat mtu + 8 < 2 ^ 64"
  shows "unat (packetSize_of mtu) = (unat mtu div 8 + 1) * 8"
proof -
  have d: "unat (mtu div 8) = unat mtu div 8" by (simp add: unat_div)
  have a: "unat (mtu div 8 + 1) = unat mtu div 8 + 1"
    using assms d by (subst unat_add_small) auto
  show ?thesis
    unfolding packetSize_of_def
    using assms a by (subst unat_mult_small) auto
qed

lemma packetSize_of_bounds:
  assumes "unat mtu + 8 < 2 ^ 64"
  shows "unat mtu < unat (packetSize_of mtu)" "unat (packetSize_of mtu) \<le> unat mtu + 8"
    "8 dvd unat (packetSize_of mtu)"
  using packetSize_of_unat [OF assms] by auto

lemma wf_pb_new:
  assumes m: "unat mtu + 8 < 2 ^ 64"
    and n: "unat (packetSize_of mtu) * unat n < 2 ^ 64"
  shows "wf_pb (PacketBuffer_new raw mtu n)"
proof -
  have b: "unat (of_nat i * packetSize_of mtu) = i * unat (packetSize_of mtu)"
    if i: "i < unat n" for i
  proof -
    have "i < 2 ^ 64" using i unsigned_less [of n, where 'a = nat] by simp
    then have u: "unat (of_nat i :: size_t) = i" by (simp add: unat_of_nat)
    have "i * unat (packetSize_of mtu) \<le> unat n * unat (packetSize_of mtu)"
      by (rule mult_le_mono1) (use i in simp)
    then have "i * unat (packetSize_of mtu) < 2 ^ 64"
      using n by (simp only: mult.commute [of "unat n"])
    then show ?thesis using u by (subst unat_mult_small) auto
  qed
  have l: "unat (packetSize_of mtu * n) = unat (packetSize_of mtu) * unat n"
    using n by (subst unat_mult_small) auto
  show ?thesis
    using packetSize_of_bounds(1) [OF m] b l
    by (auto simp: wf_pb_def slot_ok_def PacketBuffer_new_def Let_def)
qed

lemma wf_pb_slot:
  assumes "wf_pb b" "i < capacity b"
  shows "unat (buf (packets b ! i)) + unat (maxSize (packets b ! i)) \<le> length (buffer b)"
    "unat (buf (packets b ! i)) = i * unat (pb_packetSize b)"
    "maxSize (packets b ! i) = pb_mtu b"
proof -
  have s: "slot_ok b i" and l: "length (buffer b) = unat (pb_packetSize b) * unat (pb_size b)"
    and m: "unat (pb_mtu b) < unat (pb_packetSize b)"
    using assms by (auto simp: wf_pb_def capacity_def)
  from s show "unat (buf (packets b ! i)) = i * unat (pb_packetSize b)"
    and "maxSize (packets b ! i) = pb_mtu b"
    by (auto simp: slot_ok_def Let_def)
  then have "unat (buf (packets b ! i)) + unat (maxSize (packets b ! i))
      \<le> (i + 1) * unat (pb_packetSize b)"
    using m by simp
  also have "\<dots> \<le> unat (pb_size b) * unat (pb_packetSize b)"
    using assms(2) by (intro mult_le_mono1) (auto simp: capacity_def)
  finally show "unat (buf (packets b ! i)) + unat (maxSize (packets b ! i)) \<le> length (buffer b)"
    using l by (simp add: mult.commute)
qed

lemma wf_pb_disjoint:
  assumes "wf_pb b" "i < j" "j < capacity b"
  shows "unat (buf (packets b ! i)) + unat (maxSize (packets b ! i)) < unat (buf (packets b ! j))"
proof -
  have "unat (buf (packets b ! i)) + unat (maxSize (packets b ! i))
      < (i + 1) * unat (pb_packetSize b)"
    using assms wf_pb_slot(2,3) [of b i] by (auto simp: wf_pb_def)
  also have "\<dots> \<le> j * unat (pb_packetSize b)"
    using assms(2) by (intro mult_le_mono1) auto
  finally show ?thesis using assms wf_pb_slot(2) [of b j] by simp
qed

section \<open>Allocation\<close>

lemma alloc_loop_Some:
  "alloc_loop b i = (Some k, b') \<Longrightarrow>
     i \<le> k \<and> k < unat (pb_size b) \<and> \<not> used (packets b ! k) \<and>
     (\<forall>j. i \<le> j \<and> j < k \<longrightarrow> used (packets b ! j)) \<and>
     b' = b\<lparr>packets := (packets b)[k := (packets b ! k)\<lparr>used := True\<rparr>]\<rparr>"
proof (induction b i rule: alloc_loop.induct)
  case (1 b i)
  show ?case
  proof (cases "i < unat (pb_size b) \<and> used (packets b ! i)")
    case True
    with 1 have "alloc_loop b (Suc i) = (Some k, b')"
      by (simp add: alloc_loop.simps [of b i])
    from "1.IH" [OF _ _ this] True have IH: "Suc i \<le> k" "k < unat (pb_size b)"
        "\<not> used (packets b ! k)" "\<forall>j. Suc i \<le> j \<and> j < k \<longrightarrow> used (packets b ! j)"
        "b' = b\<lparr>packets := (packets b)[k := (packets b ! k)\<lparr>used := True\<rparr>]\<rparr>"
      by auto
    have "used (packets b ! j)" if "i \<le> j" "j < k" for j
      using that IH(4) True by (cases "j = i") auto
    with IH show ?thesis by auto
  next
    case False
    with "1.prems" show ?thesis
      by (auto simp: alloc_loop.simps [of b i] split: if_splits)
  qed
qed

lemma alloc_loop_None:
  "alloc_loop b i = (None, b') \<Longrightarrow>
     b' = b \<and> (\<forall>j. i \<le> j \<and> j < unat (pb_size b) \<longrightarrow> used (packets b ! j))"
proof (induction b i rule: alloc_loop.induct)
  case (1 b i)
  show ?case
  proof (cases "i < unat (pb_size b)")
    case True
    with "1.prems" have u: "used (packets b ! i)" and n: "alloc_loop b (Suc i) = (None, b')"
      by (auto simp: alloc_loop.simps [of b i] split: if_splits)
    have "used (packets b ! j)" if "i \<le> j" "j < unat (pb_size b)" for j
      using that "1.IH" [OF True u n] u by (cases "j = i") auto
    with "1.IH" [OF True u n] show ?thesis by auto
  next
    case False
    with "1.prems" show ?thesis by (auto simp: alloc_loop.simps [of b i])
  qed
qed

lemma alloc_SomeD:
  assumes "alloc b = (Some k, b')"
  shows "k < capacity b" "\<not> used_at b k" "\<forall>j < k. used_at b j"
    "b' = b\<lparr>packets := (packets b)[k := (packets b ! k)\<lparr>used := True\<rparr>]\<rparr>"
  using alloc_loop_Some [of b 0 k b'] assms
  by (auto simp: alloc_def capacity_def used_at_def)

lemma alloc_NoneD:
  assumes "alloc b = (None, b')"
  shows "b' = b" "\<forall>j < capacity b. used_at b j"
  using alloc_loop_None [of b 0 b'] assms
  by (auto simp: alloc_def capacity_def used_at_def)


lemma wf_pb_upd:
  assumes "wf_pb b" "\<And>p. idx (f p) = idx p \<and> maxSize (f p) = maxSize p \<and> buf (f p) = buf p"
  shows "wf_pb (b\<lparr>packets := (packets b)[k := f (packets b ! k)]\<rparr>)"
  using assms by (auto simp: wf_pb_def slot_ok_def Let_def nth_update_if)

lemma wf_pb_alloc:
  assumes "wf_pb b" "alloc b = (r, b')"
  shows "wf_pb b'" "capacity b' = capacity b"
proof -
  show "wf_pb b'"
  proof (cases r)
    case None
    with assms alloc_NoneD(1) [of b b'] show ?thesis by simp
  next
    case (Some k)
    with assms alloc_SomeD(4) [of b k b'] show ?thesis
      by (simp add: wf_pb_upd [where f = "\<lambda>p. p\<lparr>used := True\<rparr>"])
  qed
  show "capacity b' = capacity b"
    using assms alloc_SomeD(4) alloc_NoneD(1) by (cases r) (fastforce simp: capacity_def)+
qed

lemma wf_pb_free [simp]: "wf_pb b \<Longrightarrow> wf_pb (pb_free i b)"
  unfolding pb_free_def by (rule wf_pb_upd) (auto simp: Packet_free_def)

lemma wf_pb_setSize [simp]: "wf_pb b \<Longrightarrow> wf_pb (pb_setSize i n b)"
  unfolding pb_setSize_def by (rule wf_pb_upd [where f = "\<lambda>p. p\<lparr>psize := n\<rparr>"]) auto

lemma wf_pb_buffer:
  "wf_pb b \<Longrightarrow> length m = length (buffer b) \<Longrightarrow> wf_pb (b\<lparr>buffer := m\<rparr>)"
  by (auto simp: wf_pb_def slot_ok_def Let_def)

lemma capacity_upd [simp]:
  "capacity (pb_free i b) = capacity b" "capacity (pb_setSize i n b) = capacity b"
  "capacity (b\<lparr>buffer := m\<rparr>) = capacity b"
  by (simp_all add: capacity_def pb_free_def pb_setSize_def)

lemma used_at_alloc:
  assumes "wf_pb b" "alloc b = (Some k, b')"
  shows "used_at b' = (used_at b)(k := True)"
  using assms(1) alloc_SomeD(1,4) [OF assms(2)]
  by (auto simp: used_at_def wf_pb_def capacity_def nth_update_if fun_eq_iff)

lemma used_at_free:
  assumes "wf_pb b"
  shows "used_at (pb_free k b) = (used_at b)(k := False)"
  using assms
  by (auto simp: used_at_def wf_pb_def pb_free_def Packet_free_def nth_update_if fun_eq_iff)

lemma used_at_setSize [simp]: "used_at (pb_setSize k n b) = used_at b"
  by (auto simp: used_at_def pb_setSize_def nth_update_if fun_eq_iff)

lemma used_at_buffer [simp]: "used_at (b\<lparr>buffer := m\<rparr>) = used_at b"
  by (auto simp: used_at_def fun_eq_iff)

lemma used_at_new [simp]: "used_at (PacketBuffer_new raw mtu n) = (\<lambda>_. False)"
  by (auto simp: used_at_def PacketBuffer_new_def Let_def fun_eq_iff)

lemma capacity_new [simp]: "capacity (PacketBuffer_new raw mtu n) = unat n"
  by (simp add: capacity_def PacketBuffer_new_def Let_def)


section \<open>The contract of the pool\<close>

text \<open>
  What \<open>PacketQueue\<close> relies on: taking hands out a slot that nobody holds and
  changes nothing else, it fails only when every slot is held, and giving a slot back
  makes exactly that slot free.
\<close>

definition held :: "('b \<Rightarrow> nat \<Rightarrow> bool) \<Rightarrow> 'b \<Rightarrow> nat set" where
  "held taken b = {i. taken b i}"

fun take_many :: "('b \<Rightarrow> nat option \<times> 'b) \<Rightarrow> nat \<Rightarrow> 'b \<Rightarrow> nat option list \<times> 'b" where
  "take_many al 0 b = ([], b)"
| "take_many al (Suc n) b =
     (let (r, b1) = al b; (rs, b2) = take_many al n b1 in (r # rs, b2))"

locale packet_pool =
  fixes get :: "'b \<Rightarrow> nat option \<times> 'b"
    and give_back :: "nat \<Rightarrow> 'b \<Rightarrow> 'b"
    and taken :: "'b \<Rightarrow> nat \<Rightarrow> bool"
    and cap :: "'b \<Rightarrow> nat"
    and inv :: "'b \<Rightarrow> bool"
  assumes taken_cap: "taken b i \<Longrightarrow> i < cap b"
    and get_Some: "inv b \<Longrightarrow> get b = (Some i, b') \<Longrightarrow>
      i < cap b \<and> \<not> taken b i \<and> taken b' = (taken b)(i := True) \<and> cap b' = cap b \<and> inv b'"
    and get_None: "inv b \<Longrightarrow> get b = (None, b') \<Longrightarrow> b' = b \<and> (\<forall>i < cap b. taken b i)"
    and give_back: "inv b \<Longrightarrow> i < cap b \<Longrightarrow>
      taken (give_back i b) = (taken b)(i := False) \<and> cap (give_back i b) = cap b \<and>
      inv (give_back i b)"
begin

lemma held_subset: "held taken b \<subseteq> {..<cap b}"
  by (auto simp: held_def dest: taken_cap)

lemma finite_held: "finite (held taken b)"
  by (rule finite_subset [OF held_subset]) simp

lemma held_le: "card (held taken b) \<le> cap b"
  using card_mono [OF _ held_subset, of b] by simp

lemma get_cases:
  assumes "inv b"
  obtains (full) "get b = (None, b)" "held taken b = {..<cap b}"
    | (got) i b' where "get b = (Some i, b')" "i < cap b" "i \<notin> held taken b"
      "held taken b' = insert i (held taken b)" "cap b' = cap b" "inv b'"
proof (cases "get b")
  case (Pair r b')
  show ?thesis
  proof (cases r)
    case None
    with Pair get_None [OF assms] held_subset [of b] show ?thesis
      by (intro full) (auto simp: held_def)
  next
    case (Some i)
    with Pair get_Some [OF assms, of i b'] show ?thesis
      by (intro got [of i b']) (auto simp: held_def)
  qed
qed

lemma get_fails_iff:
  assumes "inv b"
  shows "fst (get b) = None \<longleftrightarrow> card (held taken b) = cap b"
  using assms
proof (cases rule: get_cases)
  case full
  then show ?thesis by simp
next
  case (got i b')
  then have "held taken b \<subseteq> {..<cap b} - {i}" using held_subset [of b] by auto
  then have "card (held taken b) \<le> cap b - 1"
    using card_mono [of "{..<cap b} - {i}" "held taken b"] got(2) by simp
  then show ?thesis using got(1,2) by simp
qed

lemma get_after_give_back:
  assumes "inv b" "held taken b = {..<cap b}" "i < cap b"
  shows "\<exists>b'. get (give_back i b) = (Some i, b') \<and> held taken b' = {..<cap b} \<and> inv b'"
proof -
  note g = give_back [OF assms(1,3)]
  then have h: "held taken (give_back i b) = {..<cap b} - {i}"
    using assms(2) by (auto simp: held_def)
  from g have "inv (give_back i b)" by simp
  then show ?thesis
  proof (cases rule: get_cases)
    case full
    then show ?thesis using g h assms(3) by auto
  next
    case (got k b')
    then show ?thesis using g h by auto
  qed
qed

lemma take_many_all:
  assumes "inv b" "card (held taken b) + n \<le> cap b"
  shows "\<exists>ks b'. take_many get n b = (map Some ks, b') \<and> length ks = n \<and> distinct ks \<and>
    held taken b' = held taken b \<union> set ks \<and> held taken b \<inter> set ks = {} \<and>
    cap b' = cap b \<and> inv b'"
  using assms
proof (induction n arbitrary: b)
  case 0
  then show ?case by (intro exI [of _ "[]"]) simp
next
  case (Suc n)
  from Suc.prems(1) show ?case
  proof (cases rule: get_cases)
    case full
    with Suc.prems(2) show ?thesis by simp
  next
    case (got i b1)
    have "card (held taken b1) + n \<le> cap b1"
      using got Suc.prems(2) finite_held [of b] by simp
    from Suc.IH [OF got(6) this] obtain ks b' where ks: "take_many get n b1 = (map Some ks, b')"
      "length ks = n" "distinct ks" "held taken b' = held taken b1 \<union> set ks"
      "held taken b1 \<inter> set ks = {}" "cap b' = cap b1" "inv b'"
      by auto
    with got show ?thesis by (intro exI [of _ "i # ks"]) auto
  qed
qed

lemma take_many_none:
  assumes "inv b" "held taken b = {..<cap b}"
  shows "take_many get n b = (replicate n None, b)"
proof (induction n)
  case (Suc n)
  from assms(1) have "get b = (None, b)"
    by (cases rule: get_cases) (use assms(2) in auto)
  with Suc show ?case by simp
qed simp

lemma take_many_fill_overflow:
  assumes "inv b" "held taken b = {}"
  shows "\<exists>ks. fst (take_many get (cap b) b) = map Some ks \<and> length ks = cap b \<and>
    distinct ks \<and> set ks = {..<cap b} \<and>
    fst (take_many get n (snd (take_many get (cap b) b))) = replicate n None"
proof -
  have "card (held taken b) + cap b \<le> cap b" using assms(2) by simp
  from take_many_all [OF assms(1) this] obtain ks b' where
    ks: "take_many get (cap b) b = (map Some ks, b')" "length ks = cap b" "distinct ks"
      "held taken b' = set ks" "cap b' = cap b" "inv b'"
    using assms(2) by auto
  have "set ks = {..<cap b}"
    using ks(2-5) held_subset [of b'] by (intro card_subset_eq) (auto simp: distinct_card)
  then show ?thesis
    using ks take_many_none [OF ks(6), of n] by (intro exI [of _ ks]) auto
qed

end

interpretation pb_pool: packet_pool alloc pb_free used_at capacity wf_pb
proof unfold_locales
  show "i < capacity b" if "used_at b i" for b i
    using that by (simp add: used_at_def capacity_def)
  show "i < capacity b \<and> \<not> used_at b i \<and> used_at b' = (used_at b)(i := True) \<and>
      capacity b' = capacity b \<and> wf_pb b'"
    if "wf_pb b" "alloc b = (Some i, b')" for b i b'
    using alloc_SomeD(1,2) [OF that(2)] used_at_alloc [OF that] wf_pb_alloc [OF that] by simp
  show "b' = b \<and> (\<forall>i < capacity b. used_at b i)" if "alloc b = (None, b')" for b b'
    using alloc_NoneD [OF that] by simp
  show "used_at (pb_free i b) = (used_at b)(i := False) \<and> capacity (pb_free i b) = capacity b \<and>
      wf_pb (pb_free i b)" if "wf_pb b" for b i
    using that by (simp add: used_at_free)
qed

section \<open>Properties\<close>

lemma wf_pb_new16:
  fixes mtu n :: "16 word"
  shows "wf_pb (PacketBuffer_new raw (ucast mtu) (ucast n))"
proof (rule wf_pb_new)
  have m: "unat (ucast mtu :: size_t) < 2 ^ 16" and n: "unat (ucast n :: size_t) < 2 ^ 16"
    using unsigned_less [of mtu, where 'a = nat] unsigned_less [of n, where 'a = nat]
    by (simp_all add: unat16_less)
  from m show s: "unat (ucast mtu :: size_t) + 8 < 2 ^ 64" by simp
  have "unat (packetSize_of (ucast mtu)) \<le> 2 ^ 17"
    using packetSize_of_bounds(2) [OF s] m by simp
  then have "unat (packetSize_of (ucast mtu)) * unat (ucast n :: size_t) \<le> 2 ^ 17 * 2 ^ 16"
    using n by (intro mult_le_mono) auto
  then show "unat (packetSize_of (ucast mtu)) * unat (ucast n :: size_t) < 2 ^ 64" by simp
qed

text \<open>C25: the constructor lays the packets out safely. For every mtu and queue size that the
  server's 16 bit options can hold, each packet can take \<open>mtu\<close> bytes, lies inside the
  byte array, ends before the next one begins, starts at a multiple of eight, and is free;
  no product or offset wraps around.\<close>
theorem pool_layout:
  fixes mtu n :: "16 word" and raw :: "nat \<Rightarrow> char"
  defines "b \<equiv> PacketBuffer_new raw (ucast mtu) (ucast n)"
  assumes "i < j" "j < unat n"
  shows "unat (maxSize (packets b ! i)) = unat mtu \<and>
    unat (buf (packets b ! i)) + unat mtu < unat (buf (packets b ! j)) \<and>
    unat (buf (packets b ! j)) + unat mtu \<le> length (buffer b) \<and>
    8 dvd unat (buf (packets b ! i)) \<and>
    \<not> used (packets b ! i)"
proof -
  have wf: "wf_pb b" unfolding b_def by (rule wf_pb_new16)
  have c: "capacity b = unat n" and m: "unat (pb_mtu b) = unat mtu"
    by (simp_all add: b_def PacketBuffer_new_def Let_def capacity_def unat16_less)
  have ij: "i < capacity b" "j < capacity b" using assms(2,3) c by auto
  have c1: "unat (maxSize (packets b ! i)) = unat mtu"
    using wf_pb_slot(3) [OF wf ij(1)] m by simp
  then have c2: "unat (buf (packets b ! i)) + unat mtu < unat (buf (packets b ! j))"
    using wf_pb_disjoint [OF wf assms(2) ij(2)] by simp
  have c3: "unat (buf (packets b ! j)) + unat mtu \<le> length (buffer b)"
    using wf_pb_slot(1,3) [OF wf ij(2)] m by simp
  have "unat (ucast mtu :: size_t) + 8 < 2 ^ 64"
    using unat16_less [of mtu] by simp
  then have "8 dvd unat (pb_packetSize b)"
    using packetSize_of_bounds(3) by (simp add: b_def PacketBuffer_new_def Let_def)
  then have c4: "8 dvd unat (buf (packets b ! i))" using wf_pb_slot(2) [OF wf ij(1)] by simp
  have "\<not> used_at b i" by (simp add: b_def)
  then have c5: "\<not> used (packets b ! i)" using ij(1) by (simp add: used_at_def capacity_def)
  show ?thesis using c1 c2 c3 c4 c5 by blast
qed

theorem pool_layout_witness:
  "unat (buf (packets (PacketBuffer_new (\<lambda>_. CHR 0x00) (ucast (1500 :: 16 word))
     (ucast (64 :: 16 word))) ! 62)) + 1500
   < unat (buf (packets (PacketBuffer_new (\<lambda>_. CHR 0x00) (ucast (1500 :: 16 word))
     (ucast (64 :: 16 word))) ! 63))"
  using pool_layout [of 62 63 64 "\<lambda>_. CHR 0x00" 1500] by simp

text \<open>The scanning loop of \<open>alloc\<close> is a search for the first free descriptor: it
  marks that one and returns it, and when there is none it returns the null pointer and
  changes nothing.\<close>
theorem alloc_is_find:
  "alloc b =
     (case find (\<lambda>i. \<not> used (packets b ! i)) [0..<unat (pb_size b)] of
        None \<Rightarrow> (None, b)
      | Some i \<Rightarrow> (Some i, b\<lparr>packets := (packets b)[i := (packets b ! i)\<lparr>used := True\<rparr>]\<rparr>))"
proof (cases "alloc b")
  case (Pair r b')
  show ?thesis
  proof (cases r)
    case None
    have "find (\<lambda>i. \<not> used (packets b ! i)) [0..<unat (pb_size b)] = None"
      using alloc_NoneD(2) [of b b'] Pair None
      by (auto simp: find_None_iff used_at_def capacity_def)
    then show ?thesis using alloc_NoneD(1) [of b b'] Pair None by simp
  next
    case (Some k)
    note d = alloc_SomeD [of b k b', unfolded used_at_def capacity_def]
    have "find (\<lambda>i. \<not> used (packets b ! i)) [0..<unat (pb_size b)] = Some k"
      using d(1-3) Pair Some by (auto simp: find_Some_iff)
    then show ?thesis using d(4) Pair Some by simp
  qed
qed

text \<open>A fresh pool hands out each of its packets exactly once and then only null
  pointers; after one packet is freed, exactly that packet is handed out again.\<close>
theorem pool_fill_free_refill:
  fixes mtu n :: "16 word" and raw :: "nat \<Rightarrow> char"
  defines "b \<equiv> PacketBuffer_new raw (ucast mtu) (ucast n)"
  assumes "i < unat n"
  shows "\<exists>ks b1. take_many alloc (unat n) b = (map Some ks, b1) \<and> distinct ks \<and>
     set ks = {..<unat n} \<and> fst (take_many alloc k b1) = replicate k None \<and>
     fst (alloc (pb_free i b1)) = Some i"
proof -
  have wf: "wf_pb b" unfolding b_def by (rule wf_pb_new16)
  have c: "capacity b = unat n" and h: "held used_at b = {}"
    by (simp_all add: b_def unat16_less held_def)
  have "card (held used_at b) + unat n \<le> capacity b" using h c by simp
  from pb_pool.take_many_all [OF wf this] obtain ks b1 where
    ks: "take_many alloc (unat n) b = (map Some ks, b1)" "length ks = unat n" "distinct ks"
      "held used_at b1 = held used_at b \<union> set ks" "capacity b1 = capacity b" "wf_pb b1"
    by (elim exE conjE) (rule that)
  have used: "held used_at b1 = set ks" using ks(4) h by simp
  then have all: "set ks = {..<unat n}"
    using pb_pool.held_subset [of b1] ks(2,3,5) c
    by (intro card_subset_eq) (simp_all add: distinct_card)
  then have full: "held used_at b1 = {..<capacity b1}" using used ks(5) c by simp
  have "i < capacity b1" using ks(5) c assms(2) by simp
  from pb_pool.get_after_give_back [OF ks(6) full this]
  have "fst (alloc (pb_free i b1)) = Some i" by (elim exE conjE) simp
  moreover have "fst (take_many alloc k b1) = replicate k None"
    by (simp add: pb_pool.take_many_none [OF ks(6) full])
  ultimately show ?thesis using ks(1,3) all by blast
qed

theorem pool_fill_free_refill_witness:
  "\<exists>ks b1. take_many alloc (unat (5 :: 16 word))
       (PacketBuffer_new (\<lambda>_. CHR 0x00) (ucast (100 :: 16 word)) (ucast (5 :: 16 word))) =
         (map Some ks, b1) \<and> distinct ks \<and> set ks = {..<unat (5 :: 16 word)} \<and>
     fst (take_many alloc 2 b1) = replicate 2 None \<and> fst (alloc (pb_free 3 b1)) = Some 3"
  by (rule pool_fill_free_refill) simp

end
