(* ===== verification/Cpp_Std.thy ===== *)
theory Cpp_Std
  imports Prelude
begin

text \<open>
  The parts of the C++ standard library whose results the program computes with:
  \<open>std::to_string\<close> and stream output of unsigned numbers, \<open>std::stoi\<close> with its two
  exceptions, the \<open>std::string\<close> that is built from a C string, and the conversions
  between the integer types.
\<close>

section \<open>Decimal numbers\<close>

definition digit_char :: "nat \<Rightarrow> char" where
  "digit_char d = char_of (48 + d)"

definition digit_val :: "char \<Rightarrow> nat" where
  "digit_val c = of_char c - 48"

definition is_digit :: "char \<Rightarrow> bool" where
  "is_digit c \<longleftrightarrow> 48 \<le> (of_char c :: nat) \<and> (of_char c :: nat) \<le> 57"

definition is_space :: "char \<Rightarrow> bool" where
  "is_space c \<longleftrightarrow> (of_char c :: nat) = 32 \<or> (9 \<le> (of_char c :: nat) \<and> (of_char c :: nat) \<le> 13)"

fun show_nat :: "nat \<Rightarrow> string" where
  "show_nat n = (if n < 10 then [digit_char n] else show_nat (n div 10) @ [digit_char (n mod 10)])"

declare show_nat.simps [simp del]

definition digits_val :: "string \<Rightarrow> nat" where
  "digits_val = foldl (\<lambda>v c. 10 * v + digit_val c) 0"

text \<open>\<open>std::to_string\<close> and \<open>operator<<\<close> on a \<open>size_t\<close>.\<close>

definition to_string :: "size_t \<Rightarrow> string" where
  "to_string n = show_nat (unat n)"

text \<open>
  \<open>std::stoi(s, 0, 10)\<close>: leading white space, an optional sign, at least one digit
  (\<open>std::invalid_argument\<close> otherwise), and a value that fits an \<open>int\<close>
  (\<open>std::out_of_range\<close> otherwise). What follows the digits is ignored.
\<close>

definition stoi :: "string \<Rightarrow> int exec" where
  "stoi s =
     (let t = dropWhile is_space s;
          neg = (t \<noteq> [] \<and> hd t = CHR ''-'');
          u = (if t \<noteq> [] \<and> (hd t = CHR ''-'' \<or> hd t = CHR ''+'') then tl t else t);
          ds = takeWhile is_digit u;
          v = (if neg then - int (digits_val ds) else int (digits_val ds))
      in if ds = [] then Inl (Throws ''invalid_argument'')
         else if - (2 ^ 31) \<le> v \<and> v < 2 ^ 31 then Inr v
         else Inl (Throws ''out_of_range''))"

text \<open>A \<open>std::string\<close> made from a \<open>char *\<close> ends at the first NUL.\<close>

definition c_string :: "bytes \<Rightarrow> string" where
  "c_string bs = takeWhile (\<lambda>c. c \<noteq> CHR 0x00) bs"

section \<open>Facts\<close>

lemma of_char_digit [simp]: "d < 10 \<Longrightarrow> (of_char (digit_char d) :: nat) = 48 + d"
  by (simp add: digit_char_def)

lemma is_digit_digit_char [simp]: "d < 10 \<Longrightarrow> is_digit (digit_char d)"
  by (simp add: is_digit_def)

lemma digit_val_digit_char [simp]: "d < 10 \<Longrightarrow> digit_val (digit_char d) = d"
  by (simp add: digit_val_def)

lemma show_nat_nonempty [simp]: "show_nat n \<noteq> []"
  by (subst show_nat.simps) simp

lemma show_nat_digits: "\<forall>c \<in> set (show_nat n). is_digit c"
proof (induction n rule: show_nat.induct)
  case (1 n)
  then show ?case by (subst show_nat.simps) auto
qed

lemma digits_val_snoc: "digits_val (ds @ [c]) = 10 * digits_val ds + digit_val c"
  by (simp add: digits_val_def)

lemma digits_val_show_nat [simp]: "digits_val (show_nat n) = n"
proof (induction n rule: show_nat.induct)
  case (1 n)
  show ?case
  proof (cases "n < 10")
    case True
    then show ?thesis by (simp add: show_nat.simps [of n] digits_val_def)
  next
    case False
    with 1 show ?thesis
      by (simp add: show_nat.simps [of n] digits_val_snoc)
  qed
qed

lemma show_nat_inj: "show_nat m = show_nat n \<longleftrightarrow> m = n"
  by (metis digits_val_show_nat)

lemma is_digit_facts:
  "is_digit c \<Longrightarrow> \<not> is_space c \<and> c \<noteq> CHR ''-'' \<and> c \<noteq> CHR ''+'' \<and> c \<noteq> CHR ''.'' \<and> c \<noteq> CHR ''/''"
  by (auto simp: is_digit_def is_space_def)

lemma takeWhile_digits_append:
  assumes "\<forall>c \<in> set ds. is_digit c" "rest = [] \<or> \<not> is_digit (hd rest)"
  shows "takeWhile is_digit (ds @ rest) = ds"
  using assms by (cases rest) (auto simp: takeWhile_append)

lemma stoi_digits:
  assumes "ds \<noteq> []" "\<forall>c \<in> set ds. is_digit c"
  shows "stoi ds =
    (if digits_val ds < 2 ^ 31 then Inr (int (digits_val ds)) else Inl (Throws ''out_of_range''))"
proof -
  have h: "is_digit (hd ds)" using assms by simp
  have d: "dropWhile is_space ds = ds"
    using assms(1) h is_digit_facts [of "hd ds"] by (cases ds) auto
  have t: "takeWhile is_digit ds = ds"
    using assms(2) by simp
  show ?thesis
    using assms(1) is_digit_facts [OF h] by (auto simp: stoi_def Let_def d t)
qed

lemma stoi_show_nat:
  "stoi (show_nat n) = (if n < 2 ^ 31 then Inr (int n) else Inl (Throws ''out_of_range''))"
  by (simp add: stoi_digits show_nat_digits)

lemma to_string_nonempty [simp]: "to_string n \<noteq> []"
  by (simp add: to_string_def)

lemma to_string_digits: "c \<in> set (to_string n) \<Longrightarrow> is_digit c"
  using show_nat_digits by (auto simp: to_string_def)

lemma to_string_inj: "to_string m = to_string n \<longleftrightarrow> m = n"
  by (simp add: to_string_def show_nat_inj word_unat_eq_iff)

lemma c_string_no_nul: "CHR 0x00 \<notin> set bs \<Longrightarrow> c_string bs = bs"
  by (auto simp: c_string_def)

lemma c_string_length: "length (c_string bs) \<le> length bs"
  by (simp add: c_string_def length_takeWhile_le)

end
