(* ===== verification/Ext_Api.thy ===== *)
theory Ext_Api
  imports Cpp_Std "HOL-Library.AList"
begin

text \<open>
  The third-party code the program calls, as parameters of the model: records of the
  operations that are called, and one predicate per library that states the documented
  behaviour the program relies on. No definition of a component depends on what such a
  parameter computes; the theorems that need a law take the predicate as a hypothesis.
  \<^item> \<open>json_api\<close>: \<open>Json::Value\<close>, \<open>Json::Reader\<close> and \<open>Json::StyledWriter\<close> of jsoncpp;
  \<^item> \<open>ip_api\<close>: \<open>ipaddress::IPAddress\<close>;
  \<^item> \<open>ring_api\<close>: the single-producer single-consumer ring buffer of Boost.Lockfree;
  \<^item> \<open>char_separator_laws\<close>: \<open>boost::tokenizer\<close> with a \<open>char_separator\<close>.
  Each library comes with a small instance that satisfies its laws, which the closed
  examples of the development evaluate.
\<close>

section \<open>jsoncpp\<close>

text \<open>
  \<open>operator[]\<close>, \<open>get\<close> and the \<open>as...\<close> conversions throw when the value has the wrong
  type, so they return in the \<open>exec\<close> type. \<open>j_put J v k x\<close> is \<open>v[k] = x\<close>,
  \<open>j_at J v k\<close> reads \<open>v[k]\<close> (the null value when the member is missing),
  \<open>j_elems\<close> lists what a range-based \<open>for\<close> visits.
  \<open>j_obj\<close> (null or object), \<open>j_arr\<close> (array) and \<open>j_has\<close> (has the member) occur in
  the laws only.
\<close>

record 'j json_api =
  j_null :: 'j
  j_uint :: "64 word \<Rightarrow> 'j"
  j_bool :: "bool \<Rightarrow> 'j"
  j_str :: "string \<Rightarrow> 'j"
  j_array :: 'j
  j_append :: "'j \<Rightarrow> 'j \<Rightarrow> 'j"
  j_put :: "'j \<Rightarrow> string \<Rightarrow> 'j \<Rightarrow> 'j exec"
  j_at :: "'j \<Rightarrow> string \<Rightarrow> 'j exec"
  j_get :: "'j \<Rightarrow> string \<Rightarrow> 'j \<Rightarrow> 'j exec"
  j_elems :: "'j \<Rightarrow> 'j list"
  j_asString :: "'j \<Rightarrow> string exec"
  j_asInt :: "'j \<Rightarrow> int exec"
  j_asUInt64 :: "'j \<Rightarrow> 64 word exec"
  j_asBool :: "'j \<Rightarrow> bool exec"
  j_parse :: "string \<Rightarrow> 'j option"
  j_write :: "'j \<Rightarrow> string"
  j_obj :: "'j \<Rightarrow> bool"
  j_arr :: "'j \<Rightarrow> bool"
  j_has :: "'j \<Rightarrow> string \<Rightarrow> bool"

definition json_object_laws :: "'j json_api \<Rightarrow> bool" where
  "json_object_laws J \<longleftrightarrow>
     j_obj J (j_null J) \<and> (\<forall>k. \<not> j_has J (j_null J) k) \<and>
     (\<forall>v k x. j_obj J v \<longrightarrow>
        (\<exists>v'. j_put J v k x = Inr v' \<and> j_obj J v' \<and>
              (\<forall>k'. j_has J v' k' = (k' = k \<or> j_has J v k')) \<and>
              (\<forall>k'. j_at J v' k' = (if k' = k then Inr x else j_at J v k')))) \<and>
     (\<forall>v k d. j_obj J v \<longrightarrow>
        (\<exists>x. j_at J v k = Inr x) \<and>
        (\<not> j_has J v k \<longrightarrow> j_at J v k = Inr (j_null J)) \<and>
        j_get J v k d = (if j_has J v k then j_at J v k else Inr d)) \<and>
     (\<forall>v k d. \<not> j_obj J v \<longrightarrow>
        (\<exists>e. j_at J v k = Inl (Throws e)) \<and> (\<exists>e. j_get J v k d = Inl (Throws e)))"

definition json_value_laws :: "'j json_api \<Rightarrow> bool" where
  "json_value_laws J \<longleftrightarrow>
     j_elems J (j_array J) = [] \<and> j_elems J (j_null J) = [] \<and> j_arr J (j_array J) \<and>
     (\<forall>a. j_arr J a \<longrightarrow> \<not> j_obj J a) \<and>
     (\<forall>a x. j_arr J a \<longrightarrow>
        j_arr J (j_append J a x) \<and> j_elems J (j_append J a x) = j_elems J a @ [x]) \<and>
     (\<forall>s. j_asString J (j_str J s) = Inr s) \<and>
     j_asString J (j_null J) = Inr '''' \<and>
     (\<forall>n. j_asUInt64 J (j_uint J n) = Inr n) \<and>
     (\<forall>n. unat n < 2 ^ 31 \<longrightarrow> j_asInt J (j_uint J n) = Inr (int (unat n))) \<and>
     (\<forall>n. 2 ^ 31 \<le> unat n \<longrightarrow> (\<exists>e. j_asInt J (j_uint J n) = Inl (Throws e))) \<and>
     (\<forall>b. j_asBool J (j_bool J b) = Inr b)"

definition json_laws :: "'j json_api \<Rightarrow> bool" where
  "json_laws J \<longleftrightarrow> json_object_laws J \<and> json_value_laws J"

text \<open>A sequence of assignments \<open>v[k1] = x1; v[k2] = x2; ...\<close>.\<close>

fun j_puts :: "'j json_api \<Rightarrow> 'j \<Rightarrow> (string \<times> 'j) list \<Rightarrow> 'j exec" where
  "j_puts J v [] = Inr v"
| "j_puts J v ((k, x) # kxs) = ebind (j_put J v k x) (\<lambda>v'. j_puts J v' kxs)"

lemma j_put_obj:
  assumes "json_laws J" "j_obj J v"
  obtains v' where "j_put J v k x = Inr v'" "j_obj J v'"
    "\<And>k'. j_has J v' k' \<longleftrightarrow> k' = k \<or> j_has J v k'"
    "\<And>k'. j_at J v' k' = (if k' = k then Inr x else j_at J v k')"
proof -
  from assms have "\<exists>v'. j_put J v k x = Inr v' \<and> j_obj J v' \<and>
      (\<forall>k'. j_has J v' k' = (k' = k \<or> j_has J v k')) \<and>
      (\<forall>k'. j_at J v' k' = (if k' = k then Inr x else j_at J v k'))"
    unfolding json_laws_def json_object_laws_def by blast
  then show ?thesis using that by auto
qed

lemma j_null_obj [simp]:
  assumes "json_laws J"
  shows "j_obj J (j_null J)" "\<not> j_has J (j_null J) k"
  using assms by (auto simp: json_laws_def json_object_laws_def)

lemma j_get_obj:
  assumes "json_laws J" "j_obj J v"
  shows "j_get J v k d = (if j_has J v k then j_at J v k else Inr d)"
  using assms unfolding json_laws_def json_object_laws_def by blast

lemma j_at_missing:
  assumes "json_laws J" "j_obj J v" "\<not> j_has J v k"
  shows "j_at J v k = Inr (j_null J)"
  using assms unfolding json_laws_def json_object_laws_def by blast

lemma j_not_obj_throws:
  assumes "json_laws J" "\<not> j_obj J v"
  shows "\<exists>e. j_at J v k = Inl (Throws e)" "\<exists>e. j_get J v k d = Inl (Throws e)"
  using assms unfolding json_laws_def json_object_laws_def by blast+

lemma j_value_laws:
  assumes "json_laws J"
  shows "j_elems J (j_array J) = []" "j_elems J (j_null J) = []" "j_arr J (j_array J)"
    "j_arr J a \<Longrightarrow> \<not> j_obj J a" "j_arr J a \<Longrightarrow> j_arr J (j_append J a x)"
    "j_arr J a \<Longrightarrow> j_elems J (j_append J a x) = j_elems J a @ [x]"
    "j_asString J (j_str J s) = Inr s" "j_asString J (j_null J) = Inr ''''"
    "j_asUInt64 J (j_uint J n) = Inr n"
    "unat n < 2 ^ 31 \<Longrightarrow> j_asInt J (j_uint J n) = Inr (int (unat n))"
    "2 ^ 31 \<le> unat n \<Longrightarrow> \<exists>e. j_asInt J (j_uint J n) = Inl (Throws e)"
    "j_asBool J (j_bool J b) = Inr b"
  using assms unfolding json_laws_def json_value_laws_def by blast+

lemma j_puts_obj:
  assumes "json_laws J" "j_obj J v"
  shows "\<exists>v'. j_puts J v kxs = Inr v' \<and> j_obj J v' \<and>
    (\<forall>k. j_has J v' k \<longleftrightarrow> k \<in> fst ` set kxs \<or> j_has J v k) \<and>
    (\<forall>k. j_at J v' k = (case map_of (rev kxs) k of Some x \<Rightarrow> Inr x | None \<Rightarrow> j_at J v k))"
  using assms(2)
proof (induction kxs arbitrary: v)
  case Nil
  then show ?case by simp
next
  case (Cons kx kxs)
  obtain k x where kx: "kx = (k, x)" by (cases kx)
  from j_put_obj [OF assms(1) Cons.prems, of k x] obtain v1 where v1:
    "j_put J v k x = Inr v1" "j_obj J v1" "\<And>k'. j_has J v1 k' \<longleftrightarrow> k' = k \<or> j_has J v k'"
    "\<And>k'. j_at J v1 k' = (if k' = k then Inr x else j_at J v k')"
    by blast
  from Cons.IH [OF v1(2)] obtain v' where v': "j_puts J v1 kxs = Inr v'" "j_obj J v'"
    "\<And>k'. j_has J v' k' \<longleftrightarrow> k' \<in> fst ` set kxs \<or> j_has J v1 k'"
    "\<And>k'. j_at J v' k' = (case map_of (rev kxs) k' of Some x \<Rightarrow> Inr x | None \<Rightarrow> j_at J v1 k')"
    by blast
  show ?case
    by (intro exI [of _ v']) (auto simp: kx v1 v' map_add_def split: option.splits)
qed

section \<open>jsoncpp: an instance\<close>

datatype jval = JNull | JBool bool | JUInt "64 word" | JStr string | JArr "jval list"
  | JObj "(string \<times> jval) list"

fun jv_members :: "jval \<Rightarrow> (string \<times> jval) list option" where
  "jv_members JNull = Some []"
| "jv_members (JObj ms) = Some ms"
| "jv_members _ = None"

fun jv_append :: "jval \<Rightarrow> jval \<Rightarrow> jval" where
  "jv_append (JArr xs) x = JArr (xs @ [x])"
| "jv_append v x = JArr [x]"

definition jv_at :: "jval \<Rightarrow> string \<Rightarrow> jval exec" where
  "jv_at v k = (case jv_members v of None \<Rightarrow> Inl (Throws ''not an object'')
     | Some ms \<Rightarrow> Inr (case map_of ms k of None \<Rightarrow> JNull | Some x \<Rightarrow> x))"

definition jv_get :: "jval \<Rightarrow> string \<Rightarrow> jval \<Rightarrow> jval exec" where
  "jv_get v k d = (case jv_members v of None \<Rightarrow> Inl (Throws ''not an object'')
     | Some ms \<Rightarrow> Inr (case map_of ms k of None \<Rightarrow> d | Some x \<Rightarrow> x))"

definition jv_put :: "jval \<Rightarrow> string \<Rightarrow> jval \<Rightarrow> jval exec" where
  "jv_put v k x = (case jv_members v of None \<Rightarrow> Inl (Throws ''not an object'')
     | Some ms \<Rightarrow> Inr (JObj (AList.update k x ms)))"

fun jv_elems :: "jval \<Rightarrow> jval list" where
  "jv_elems (JArr xs) = xs"
| "jv_elems (JObj ms) = map snd ms"
| "jv_elems _ = []"

fun jv_asString :: "jval \<Rightarrow> string exec" where
  "jv_asString (JStr s) = Inr s"
| "jv_asString JNull = Inr ''''"
| "jv_asString _ = Inl (Throws ''not a string'')"

fun jv_asInt :: "jval \<Rightarrow> int exec" where
  "jv_asInt (JUInt n) = (if unat n < 2 ^ 31 then Inr (int (unat n)) else Inl (Throws ''range''))"
| "jv_asInt JNull = Inr 0"
| "jv_asInt _ = Inl (Throws ''not an int'')"

fun jv_asUInt64 :: "jval \<Rightarrow> 64 word exec" where
  "jv_asUInt64 (JUInt n) = Inr n"
| "jv_asUInt64 JNull = Inr 0"
| "jv_asUInt64 _ = Inl (Throws ''not an int'')"

fun jv_asBool :: "jval \<Rightarrow> bool exec" where
  "jv_asBool (JBool b) = Inr b"
| "jv_asBool JNull = Inr False"
| "jv_asBool _ = Inl (Throws ''not a bool'')"

text \<open>
  The instance is over values; its reader is left as an argument, since the examples
  supply the value a text parses to.
\<close>

definition jv_api :: "(string \<Rightarrow> jval option) \<Rightarrow> jval json_api" where
  "jv_api parse = \<lparr>j_null = JNull, j_uint = JUInt, j_bool = JBool, j_str = JStr,
     j_array = JArr [], j_append = jv_append, j_put = jv_put, j_at = jv_at, j_get = jv_get,
     j_elems = jv_elems, j_asString = jv_asString, j_asInt = jv_asInt,
     j_asUInt64 = jv_asUInt64, j_asBool = jv_asBool, j_parse = parse,
     j_write = (\<lambda>_. ''{}''), j_obj = (\<lambda>v. jv_members v \<noteq> None),
     j_arr = (\<lambda>v. case v of JArr _ \<Rightarrow> True | _ \<Rightarrow> False),
     j_has = (\<lambda>v k. \<exists>ms. jv_members v = Some ms \<and> map_of ms k \<noteq> None)\<rparr>"

lemma jv_api_laws: "json_laws (jv_api parse)"
proof -
  have "json_object_laws (jv_api parse)"
    unfolding json_object_laws_def
    by (auto simp: jv_api_def jv_put_def jv_at_def jv_get_def update_conv' split: option.splits)
  moreover have "json_value_laws (jv_api parse)"
    unfolding json_value_laws_def
    by (auto simp: jv_api_def split: jval.splits)
  ultimately show ?thesis by (simp add: json_laws_def)
qed

section \<open>Boost.Lockfree\<close>

text \<open>
  \<open>runtime_sized_ringbuffer<Packet *>\<close>: \<open>rb_push\<close> returns false when the buffer is
  full, \<open>rb_pop\<close> is \<open>pop(&pkt, 1)\<close>, with \<open>None\<close> for the return value 0.
  \<open>rb_content\<close> (oldest first) and \<open>rb_cap\<close> occur in the laws and in statements only.
\<close>

record 'q ring_api =
  rb_new :: "size_t \<Rightarrow> 'q"
  rb_push :: "nat \<Rightarrow> 'q \<Rightarrow> bool \<times> 'q"
  rb_pop :: "'q \<Rightarrow> nat option \<times> 'q"
  rb_content :: "'q \<Rightarrow> nat list"
  rb_cap :: "'q \<Rightarrow> nat"

definition ring_laws :: "'q ring_api \<Rightarrow> bool" where
  "ring_laws R \<longleftrightarrow>
     (\<forall>n. rb_content R (rb_new R n) = [] \<and> rb_cap R (rb_new R n) = unat n) \<and>
     (\<forall>p q. rb_cap R (snd (rb_push R p q)) = rb_cap R q \<and>
        (if length (rb_content R q) < rb_cap R q
         then fst (rb_push R p q) \<and> rb_content R (snd (rb_push R p q)) = rb_content R q @ [p]
         else \<not> fst (rb_push R p q) \<and> rb_content R (snd (rb_push R p q)) = rb_content R q)) \<and>
     (\<forall>q. rb_cap R (snd (rb_pop R q)) = rb_cap R q \<and>
        (case rb_content R q of
           [] \<Rightarrow> fst (rb_pop R q) = None \<and> rb_content R (snd (rb_pop R q)) = []
         | p # ps \<Rightarrow> fst (rb_pop R q) = Some p \<and> rb_content R (snd (rb_pop R q)) = ps))"

lemma ring_new:
  assumes "ring_laws R"
  shows "rb_content R (rb_new R n) = []" "rb_cap R (rb_new R n) = unat n"
  using assms by (auto simp: ring_laws_def)

lemma ring_pushD:
  assumes "ring_laws R" "rb_push R p q = (ok, q')"
  shows "rb_cap R q' = rb_cap R q" "ok \<longleftrightarrow> length (rb_content R q) < rb_cap R q"
    "rb_content R q' = (if ok then rb_content R q @ [p] else rb_content R q)"
proof -
  from assms(1) have "rb_cap R (snd (rb_push R p q)) = rb_cap R q \<and>
        (if length (rb_content R q) < rb_cap R q
         then fst (rb_push R p q) \<and> rb_content R (snd (rb_push R p q)) = rb_content R q @ [p]
         else \<not> fst (rb_push R p q) \<and> rb_content R (snd (rb_push R p q)) = rb_content R q)"
    unfolding ring_laws_def by blast
  then show "rb_cap R q' = rb_cap R q" "ok \<longleftrightarrow> length (rb_content R q) < rb_cap R q"
    "rb_content R q' = (if ok then rb_content R q @ [p] else rb_content R q)"
    by (auto simp: assms(2) split: if_splits)
qed

lemma ring_popD:
  assumes "ring_laws R" "rb_pop R q = (r, q')"
  shows "rb_cap R q' = rb_cap R q"
    "r = None \<Longrightarrow> rb_content R q = [] \<and> rb_content R q' = []"
    "r = Some p \<Longrightarrow> rb_content R q = p # rb_content R q'"
proof -
  from assms(1) have h: "rb_cap R (snd (rb_pop R q)) = rb_cap R q \<and>
        (case rb_content R q of
           [] \<Rightarrow> fst (rb_pop R q) = None \<and> rb_content R (snd (rb_pop R q)) = []
         | p # ps \<Rightarrow> fst (rb_pop R q) = Some p \<and> rb_content R (snd (rb_pop R q)) = ps)"
    unfolding ring_laws_def by blast
  from h show "rb_cap R q' = rb_cap R q" by (simp add: assms(2))
  from h show "rb_content R q = [] \<and> rb_content R q' = []" if "r = None"
    using that by (auto simp: assms(2) split: list.splits)
  from h show "rb_content R q = p # rb_content R q'" if "r = Some p"
    using that by (auto simp: assms(2) split: list.splits)
qed

text \<open>The instance keeps its capacity beside the list of what it holds.\<close>

definition list_ring :: "(nat \<times> nat list) ring_api" where
  "list_ring = \<lparr>rb_new = (\<lambda>n. (unat n, [])),
     rb_push = (\<lambda>p (c, xs). if length xs < c then (True, (c, xs @ [p])) else (False, (c, xs))),
     rb_pop = (\<lambda>(c, xs). case xs of [] \<Rightarrow> (None, (c, [])) | x # ys \<Rightarrow> (Some x, (c, ys))),
     rb_content = snd, rb_cap = fst\<rparr>"

lemma list_ring_laws: "ring_laws list_ring"
  by (auto simp: ring_laws_def list_ring_def split: list.splits)

end
