(* ===== verification/Packet_Statistic.thy ===== *)
theory Packet_Statistic
  imports Ext_Api
begin

text \<open>
  \<open>packet_statistic.hpp\<close>: twelve \<open>size_t\<close> counters of the current window and of all
  closed windows, and \<open>collect\<close>, which closes a window. The clock reading
  \<open>std::chrono::system_clock::now()\<close> is an argument of the constructor and of
  \<open>collect\<close>. Counters wrap around as \<open>size_t\<close> does.
\<close>

section \<open>Data\<close>

type_synonym time_point = int

record Data =
  allocFailed :: size_t
  allocOk :: size_t
  pushActionFailed :: size_t
  popActionFailed :: size_t
  pushTimeout :: size_t
  popTimeout :: size_t
  pushPacketSize :: size_t
  popPacketSize :: size_t
  pushOk :: size_t
  popOk :: size_t
  popEmpty :: size_t
  pushFailed :: size_t

definition Data_new :: Data where
  "Data_new = \<lparr>allocFailed = 0, allocOk = 0, pushActionFailed = 0,
     popActionFailed = 0, pushTimeout = 0, popTimeout = 0,
     pushPacketSize = 0, popPacketSize = 0, pushOk = 0, popOk = 0,
     popEmpty = 0, pushFailed = 0\<rparr>"

record PacketStatistic =
  st_started :: time_point
  st_current :: Data
  st_total :: Data

definition PacketStatistic_new :: "time_point \<Rightarrow> PacketStatistic" where
  "PacketStatistic_new now =
     \<lparr>st_started = now, st_current = Data_new, st_total = Data_new\<rparr>"

section \<open>Operations\<close>

definition incAllocFailed :: "PacketStatistic \<Rightarrow> PacketStatistic" where
  "incAllocFailed s = s\<lparr>st_current := (st_current s)\<lparr>allocFailed := allocFailed (st_current s) + 1\<rparr>\<rparr>"

definition incAllocOk :: "PacketStatistic \<Rightarrow> PacketStatistic" where
  "incAllocOk s = s\<lparr>st_current := (st_current s)\<lparr>allocOk := allocOk (st_current s) + 1\<rparr>\<rparr>"

definition incPushActionFailed :: "PacketStatistic \<Rightarrow> PacketStatistic" where
  "incPushActionFailed s = s\<lparr>st_current := (st_current s)\<lparr>pushActionFailed := pushActionFailed (st_current s) + 1\<rparr>\<rparr>"

definition incPushTimeout :: "PacketStatistic \<Rightarrow> PacketStatistic" where
  "incPushTimeout s = s\<lparr>st_current := (st_current s)\<lparr>pushTimeout := pushTimeout (st_current s) + 1\<rparr>\<rparr>"

definition incPopTimeout :: "PacketStatistic \<Rightarrow> PacketStatistic" where
  "incPopTimeout s = s\<lparr>st_current := (st_current s)\<lparr>popTimeout := popTimeout (st_current s) + 1\<rparr>\<rparr>"

definition incPopActionFailed :: "PacketStatistic \<Rightarrow> PacketStatistic" where
  "incPopActionFailed s = s\<lparr>st_current := (st_current s)\<lparr>popActionFailed := popActionFailed (st_current s) + 1\<rparr>\<rparr>"

definition addPushPacketSize :: "size_t \<Rightarrow> PacketStatistic \<Rightarrow> PacketStatistic" where
  "addPushPacketSize pbs s =
     s\<lparr>st_current := (st_current s)\<lparr>pushPacketSize := pushPacketSize (st_current s) + pbs\<rparr>\<rparr>"

definition addPopPacketSize :: "size_t \<Rightarrow> PacketStatistic \<Rightarrow> PacketStatistic" where
  "addPopPacketSize pbs s =
     s\<lparr>st_current := (st_current s)\<lparr>popPacketSize := popPacketSize (st_current s) + pbs\<rparr>\<rparr>"

definition incPushOk :: "PacketStatistic \<Rightarrow> PacketStatistic" where
  "incPushOk s = s\<lparr>st_current := (st_current s)\<lparr>pushOk := pushOk (st_current s) + 1\<rparr>\<rparr>"

definition incPopOk :: "PacketStatistic \<Rightarrow> PacketStatistic" where
  "incPopOk s = s\<lparr>st_current := (st_current s)\<lparr>popOk := popOk (st_current s) + 1\<rparr>\<rparr>"

definition incPopEmpty :: "PacketStatistic \<Rightarrow> PacketStatistic" where
  "incPopEmpty s = s\<lparr>st_current := (st_current s)\<lparr>popEmpty := popEmpty (st_current s) + 1\<rparr>\<rparr>"

definition incPushFailed :: "PacketStatistic \<Rightarrow> PacketStatistic" where
  "incPushFailed s = s\<lparr>st_current := (st_current s)\<lparr>pushFailed := pushFailed (st_current s) + 1\<rparr>\<rparr>"

definition getCurrent :: "PacketStatistic \<Rightarrow> Data" where
  "getCurrent s = st_current s"

definition getTotal :: "PacketStatistic \<Rightarrow> Data" where
  "getTotal s = st_total s"

definition getStarted :: "PacketStatistic \<Rightarrow> time_point" where
  "getStarted s = st_started s"

text \<open>The twelve \<open>total.x += ret.current.x\<close> of \<open>collect\<close>.\<close>

definition Data_add :: "Data \<Rightarrow> Data \<Rightarrow> Data" where
  "Data_add t c = \<lparr>
     allocFailed = allocFailed t + allocFailed c,
     allocOk = allocOk t + allocOk c,
     pushActionFailed = pushActionFailed t + pushActionFailed c,
     popActionFailed = popActionFailed t + popActionFailed c,
     pushTimeout = pushTimeout t + pushTimeout c,
     popTimeout = popTimeout t + popTimeout c,
     pushPacketSize = pushPacketSize t + pushPacketSize c,
     popPacketSize = popPacketSize t + popPacketSize c,
     pushOk = pushOk t + pushOk c,
     popOk = popOk t + popOk c,
     popEmpty = popEmpty t + popEmpty c,
     pushFailed = pushFailed t + pushFailed c\<rparr>"

text \<open>
  \<open>collect\<close> swaps \<open>current\<close> and \<open>started\<close> with those of a fresh object, adds the
  closed window to \<open>total\<close> and copies \<open>total\<close> into the object it returns. The first
  component is the returned object, the second \<open>*this\<close> afterwards.
\<close>

definition collect :: "time_point \<Rightarrow> PacketStatistic \<Rightarrow> PacketStatistic \<times> PacketStatistic" where
  "collect now this =
     (let ret = PacketStatistic_new now;
          ret1 = ret\<lparr>st_current := st_current this, st_started := st_started this\<rparr>;
          this1 = this\<lparr>st_current := st_current ret, st_started := st_started ret\<rparr>;
          this2 = this1\<lparr>st_total := Data_add (st_total this1) (st_current ret1)\<rparr>;
          ret2 = ret1\<lparr>st_total := st_total this2\<rparr>
      in (ret2, this2))"

section \<open>Reports\<close>

definition Data_members :: "'j json_api \<Rightarrow> Data \<Rightarrow> (string \<times> 'j) list" where
  "Data_members J d =
    [(''allocFailed'', j_uint J (allocFailed d)),
     (''allocOk'', j_uint J (allocOk d)),
     (''pushActionFailed'', j_uint J (pushActionFailed d)),
     (''popActionFailed'', j_uint J (popActionFailed d)),
     (''pushTimeout'', j_uint J (pushTimeout d)),
     (''popTimeout'', j_uint J (popTimeout d)),
     (''pushPacketSize'', j_uint J (pushPacketSize d)),
     (''popPacketSize'', j_uint J (popPacketSize d)),
     (''pushOk'', j_uint J (pushOk d)),
     (''popOk'', j_uint J (popOk d)),
     (''popEmpty'', j_uint J (popEmpty d)),
     (''pushFailed'', j_uint J (pushFailed d))]"

definition Data_asJson :: "'j json_api \<Rightarrow> Data \<Rightarrow> 'j \<Rightarrow> 'j exec" where
  "Data_asJson J d val = j_puts J val (Data_members J d)"

definition PacketStatistic_asJson ::
  "'j json_api \<Rightarrow> PacketStatistic \<Rightarrow> 'j \<Rightarrow> 'j exec" where
  "PacketStatistic_asJson J s val =
     ebind (Data_asJson J (st_total s) (j_null J)) (\<lambda>t.
     ebind (j_put J val ''total'' t) (\<lambda>val1.
     ebind (Data_asJson J (st_current s) (j_null J)) (\<lambda>c.
     j_put J val1 ''current'' c)))"

definition stat_line :: "string \<Rightarrow> size_t \<Rightarrow> size_t \<Rightarrow> string" where
  "stat_line name t c =
     name @ '' total='' @ to_string t @ '':current='' @ to_string c @ [CHR 0x0A]"

definition asString :: "PacketStatistic \<Rightarrow> string" where
  "asString s =
     (let t = st_total s; c = st_current s in concat [
       stat_line ''allocFailed'' (allocFailed t) (allocFailed c),
       stat_line ''allocOk'' (allocOk t) (allocOk c),
       stat_line ''pushActionFailed'' (pushActionFailed t) (pushActionFailed c),
       stat_line ''popActionFailed'' (popActionFailed t) (popActionFailed c),
       stat_line ''pushPacketSize'' (pushPacketSize t) (pushPacketSize c),
       stat_line ''pushTimeout'' (pushTimeout t) (pushTimeout c),
       stat_line ''popTimeout'' (popTimeout t) (popTimeout c),
       stat_line ''popPacketSize'' (popPacketSize t) (popPacketSize c),
       stat_line ''pushOk'' (pushOk t) (pushOk c),
       stat_line ''popOk'' (popOk t) (popOk c),
       stat_line ''popEmpty'' (popEmpty t) (popEmpty c),
       stat_line ''pushFailed'' (pushFailed t) (pushFailed c)])"

section \<open>Counters by name\<close>

text \<open>
  The twelve counters as an enumeration: \<open>cval\<close> reads one, and \<open>lifetime\<close> is what
  has been counted since the object was made, whatever windows were closed meanwhile.
\<close>

datatype counter = AllocFailed | AllocOk | PushActionFailed | PopActionFailed
  | PushTimeout | PopTimeout | PushPacketSize | PopPacketSize | PushOk
  | PopOk | PopEmpty | PushFailed

instantiation counter :: enum
begin

definition enum_counter :: "counter list" where
  "enum_counter = [AllocFailed, AllocOk, PushActionFailed, PopActionFailed, PushTimeout,
     PopTimeout, PushPacketSize, PopPacketSize, PushOk, PopOk, PopEmpty, PushFailed]"

definition enum_all_counter :: "(counter \<Rightarrow> bool) \<Rightarrow> bool" where
  "enum_all_counter P \<longleftrightarrow> list_all P enum_class.enum"

definition enum_ex_counter :: "(counter \<Rightarrow> bool) \<Rightarrow> bool" where
  "enum_ex_counter P \<longleftrightarrow> list_ex P enum_class.enum"

instance
proof
  show univ: "UNIV = set (enum_class.enum :: counter list)"
    by (auto simp: enum_counter_def intro: counter.exhaust)
  show "distinct (enum_class.enum :: counter list)" by (simp add: enum_counter_def)
  show "enum_class.enum_all P \<longleftrightarrow> Ball UNIV P" for P :: "counter \<Rightarrow> bool"
    unfolding enum_all_counter_def list_all_iff univ ..
  show "enum_class.enum_ex P \<longleftrightarrow> Bex UNIV P" for P :: "counter \<Rightarrow> bool"
    unfolding enum_ex_counter_def list_ex_iff univ ..
qed

end

fun cval :: "counter \<Rightarrow> Data \<Rightarrow> size_t" where
  "cval AllocFailed d = allocFailed d"
| "cval AllocOk d = allocOk d"
| "cval PushActionFailed d = pushActionFailed d"
| "cval PopActionFailed d = popActionFailed d"
| "cval PushTimeout d = pushTimeout d"
| "cval PopTimeout d = popTimeout d"
| "cval PushPacketSize d = pushPacketSize d"
| "cval PopPacketSize d = popPacketSize d"
| "cval PushOk d = pushOk d"
| "cval PopOk d = popOk d"
| "cval PopEmpty d = popEmpty d"
| "cval PushFailed d = pushFailed d"

definition lifetime :: "PacketStatistic \<Rightarrow> counter \<Rightarrow> size_t" where
  "lifetime s k = cval k (st_total s) + cval k (st_current s)"

text \<open>One call of a counting method, or a call of \<open>collect\<close>.\<close>

datatype stat_call = Inc counter | AddPush size_t | AddPop size_t | Collect time_point

fun stat_step :: "PacketStatistic \<Rightarrow> stat_call \<Rightarrow> PacketStatistic" where
  "stat_step s (Inc AllocFailed) = incAllocFailed s"
| "stat_step s (Inc AllocOk) = incAllocOk s"
| "stat_step s (Inc PushActionFailed) = incPushActionFailed s"
| "stat_step s (Inc PushTimeout) = incPushTimeout s"
| "stat_step s (Inc PopTimeout) = incPopTimeout s"
| "stat_step s (Inc PopActionFailed) = incPopActionFailed s"
| "stat_step s (Inc PushOk) = incPushOk s"
| "stat_step s (Inc PopOk) = incPopOk s"
| "stat_step s (Inc PopEmpty) = incPopEmpty s"
| "stat_step s (Inc PushFailed) = incPushFailed s"
| "stat_step s (Inc PushPacketSize) = addPushPacketSize 1 s"
| "stat_step s (Inc PopPacketSize) = addPopPacketSize 1 s"
| "stat_step s (AddPush n) = addPushPacketSize n s"
| "stat_step s (AddPop n) = addPopPacketSize n s"
| "stat_step s (Collect now) = snd (collect now s)"

fun call_adds :: "stat_call \<Rightarrow> counter \<Rightarrow> size_t" where
  "call_adds (Inc c) k = (if k = c then 1 else 0)"
| "call_adds (AddPush n) k = (if k = PushPacketSize then n else 0)"
| "call_adds (AddPop n) k = (if k = PopPacketSize then n else 0)"
| "call_adds (Collect now) k = 0"

section \<open>Facts\<close>

lemmas inc_defs = incAllocFailed_def incAllocOk_def incPushActionFailed_def incPushTimeout_def
  incPopTimeout_def incPopActionFailed_def addPushPacketSize_def addPopPacketSize_def
  incPushOk_def incPopOk_def incPopEmpty_def incPushFailed_def

lemma cval_new [simp]: "cval k Data_new = 0"
  by (cases k) (simp_all add: Data_new_def)

lemma cval_add [simp]: "cval k (Data_add t c) = cval k t + cval k c"
  by (cases k) (simp_all add: Data_add_def)

lemma lifetime_new [simp]: "lifetime (PacketStatistic_new now) = (\<lambda>_. 0)"
  by (simp add: lifetime_def PacketStatistic_new_def fun_eq_iff)

text \<open>The member of the reports that carries a counter.\<close>

fun counter_name :: "counter \<Rightarrow> string" where
  "counter_name AllocFailed = ''allocFailed''"
| "counter_name AllocOk = ''allocOk''"
| "counter_name PushActionFailed = ''pushActionFailed''"
| "counter_name PopActionFailed = ''popActionFailed''"
| "counter_name PushTimeout = ''pushTimeout''"
| "counter_name PopTimeout = ''popTimeout''"
| "counter_name PushPacketSize = ''pushPacketSize''"
| "counter_name PopPacketSize = ''popPacketSize''"
| "counter_name PushOk = ''pushOk''"
| "counter_name PopOk = ''popOk''"
| "counter_name PopEmpty = ''popEmpty''"
| "counter_name PushFailed = ''pushFailed''"

lemma Data_members_enum:
  "Data_members J d = map (\<lambda>k. (counter_name k, j_uint J (cval k d))) enum_class.enum"
  by (simp add: Data_members_def enum_counter_def)

lemma counter_names_distinct: "distinct (map counter_name enum_class.enum)"
  by (simp add: enum_counter_def)

lemma counter_name_inj: "inj counter_name"
  using counter_names_distinct by (simp add: distinct_map UNIV_enum)

lemma Data_eqI: "(\<And>k. cval k d = cval k e) \<Longrightarrow> d = e"
proof -
  assume h: "\<And>k. cval k d = cval k e"
  show "d = e"
    using h [of AllocFailed] h [of AllocOk] h [of PushActionFailed] h [of PopActionFailed]
      h [of PushTimeout] h [of PopTimeout] h [of PushPacketSize] h [of PopPacketSize]
      h [of PushOk] h [of PopOk] h [of PopEmpty] h [of PushFailed]
    by (cases d; cases e) simp
qed

lemma lifetime_inc [simp]:
  "lifetime (incAllocFailed s) = (lifetime s)(AllocFailed := lifetime s AllocFailed + 1)"
  "lifetime (incAllocOk s) = (lifetime s)(AllocOk := lifetime s AllocOk + 1)"
  "lifetime (incPushActionFailed s) = (lifetime s)(PushActionFailed := lifetime s PushActionFailed + 1)"
  "lifetime (incPushTimeout s) = (lifetime s)(PushTimeout := lifetime s PushTimeout + 1)"
  "lifetime (incPopTimeout s) = (lifetime s)(PopTimeout := lifetime s PopTimeout + 1)"
  "lifetime (incPopActionFailed s) = (lifetime s)(PopActionFailed := lifetime s PopActionFailed + 1)"
  "lifetime (addPushPacketSize n s) = (lifetime s)(PushPacketSize := lifetime s PushPacketSize + n)"
  "lifetime (addPopPacketSize n s) = (lifetime s)(PopPacketSize := lifetime s PopPacketSize + n)"
  "lifetime (incPushOk s) = (lifetime s)(PushOk := lifetime s PushOk + 1)"
  "lifetime (incPopOk s) = (lifetime s)(PopOk := lifetime s PopOk + 1)"
  "lifetime (incPopEmpty s) = (lifetime s)(PopEmpty := lifetime s PopEmpty + 1)"
  "lifetime (incPushFailed s) = (lifetime s)(PushFailed := lifetime s PushFailed + 1)"
  by (rule ext, case_tac x; simp add: lifetime_def inc_defs)+

lemma collect_parts:
  "st_current (fst (collect now s)) = st_current s"
  "st_started (fst (collect now s)) = st_started s"
  "st_total (fst (collect now s)) = Data_add (st_total s) (st_current s)"
  "st_current (snd (collect now s)) = Data_new"
  "st_started (snd (collect now s)) = now"
  "st_total (snd (collect now s)) = Data_add (st_total s) (st_current s)"
  by (simp_all add: collect_def Let_def PacketStatistic_new_def)

lemma lifetime_collect [simp]: "lifetime (snd (collect now s)) = lifetime s"
  by (simp add: lifetime_def collect_parts fun_eq_iff)

lemma lifetime_step: "lifetime (stat_step s e) k = lifetime s k + call_adds e k"
  by (cases "(s, e)" rule: stat_step.cases) auto

lemma started_inc [simp]:
  "st_started (incAllocFailed s) = st_started s"
  "st_started (incAllocOk s) = st_started s"
  "st_started (incPushActionFailed s) = st_started s"
  "st_started (incPushTimeout s) = st_started s"
  "st_started (incPopTimeout s) = st_started s"
  "st_started (incPopActionFailed s) = st_started s"
  "st_started (addPushPacketSize n s) = st_started s"
  "st_started (addPopPacketSize n s) = st_started s"
  "st_started (incPushOk s) = st_started s"
  "st_started (incPopOk s) = st_started s"
  "st_started (incPopEmpty s) = st_started s"
  "st_started (incPushFailed s) = st_started s"
  by (simp_all add: inc_defs)

lemma lifetime_fold:
  "lifetime (foldl stat_step s es) k = lifetime s k + sum_list (map (\<lambda>e. call_adds e k) es)"
  by (induction es arbitrary: s) (simp_all add: lifetime_step algebra_simps)

lemma current_step:
  "\<not> (\<exists>now. e = Collect now) \<Longrightarrow>
     cval k (st_current (stat_step s e)) = cval k (st_current s) + call_adds e k \<and>
     st_started (stat_step s e) = st_started s"
  by (cases "(s, e)" rule: stat_step.cases; cases k) (simp_all add: inc_defs)

lemma current_fold:
  "(\<And>now. Collect now \<notin> set es) \<Longrightarrow>
     cval k (st_current (foldl stat_step s es)) =
       cval k (st_current s) + sum_list (map (\<lambda>e. call_adds e k) es) \<and>
     st_started (foldl stat_step s es) = st_started s"
proof (induction es arbitrary: s)
  case (Cons e es)
  then show ?case using current_step [of e k s] by (auto simp: algebra_simps)
qed simp

text \<open>
  The JSON report of a window has exactly one member per counter, under the counter's name
  and with its value.
\<close>

lemma Data_asJson_complete:
  assumes "json_laws J"
  shows "\<exists>v. Data_asJson J d (j_null J) = Inr v \<and> j_obj J v \<and>
    (\<forall>k. j_at J v (counter_name k) = Inr (j_uint J (cval k d))) \<and>
    (\<forall>name. j_has J v name \<longleftrightarrow> name \<in> range counter_name)"
proof -
  let ?ms = "Data_members J d"
  have names: "map fst ?ms = map counter_name enum_class.enum"
    by (simp add: Data_members_enum comp_def)
  have m: "map_of (rev ?ms) (counter_name k) = Some (j_uint J (cval k d))" for k
  proof -
    have "(counter_name k, j_uint J (cval k d)) \<in> set ?ms"
      by (auto simp: Data_members_enum UNIV_enum [symmetric])
    moreover have "distinct (map fst (rev ?ms))"
      using counter_names_distinct names by (metis distinct_rev rev_map)
    ultimately show ?thesis by (intro map_of_is_SomeI) auto
  qed
  have "fst ` set ?ms = range counter_name"
    by (auto simp: Data_members_enum image_image UNIV_enum)
  then show ?thesis
    using j_puts_obj [OF assms j_null_obj(1) [OF assms], of ?ms] assms
    by (fastforce simp: Data_asJson_def m)
qed

section \<open>Properties\<close>

text \<open>No count is lost or made up. After any sequence of counting calls and collects on
  a new statistic, the closed windows plus the current one hold, for each of the twelve
  counters, the sum of what the calls added (as \<open>size_t\<close> sums, that is modulo
  \<open>2 ^ 64\<close>).\<close>
theorem statistic_conserves:
  "cval k (getTotal s) + cval k (getCurrent s) = sum_list (map (\<lambda>e. call_adds e k) es)"
  if "s = foldl stat_step (PacketStatistic_new t0) es"
  using lifetime_fold [of "PacketStatistic_new t0" es k] that
  by (simp add: lifetime_def getTotal_def getCurrent_def)

theorem statistic_conserves_witness:
  "cval PushOk (getTotal (foldl stat_step (PacketStatistic_new 0)
      [Inc PushOk, Collect 5, Inc PushOk, AddPush 40])) +
   cval PushOk (getCurrent (foldl stat_step (PacketStatistic_new 0)
      [Inc PushOk, Collect 5, Inc PushOk, AddPush 40])) = 2"
  by (subst statistic_conserves [OF refl]) simp

text \<open>What \<open>collect\<close> reports. The object it returns carries in \<open>current\<close> exactly
  the calls since the last collect, in \<open>total\<close> all calls ever made, and the time at
  which its window was opened; the object itself starts a new window at the time of the
  call, with every counter zero and the same totals.\<close>
theorem collect_reports_window:
  fixes t0 t1 :: time_point and before window :: "stat_call list"
  assumes "\<And>t. Collect t \<notin> set window"
  defines "s \<equiv> foldl stat_step (PacketStatistic_new t0) (before @ Collect t1 # window)"
  shows "cval k (getCurrent (fst (collect now s))) = sum_list (map (\<lambda>e. call_adds e k) window) \<and>
    cval k (getTotal (fst (collect now s))) =
       sum_list (map (\<lambda>e. call_adds e k) (before @ window)) \<and>
    getStarted (fst (collect now s)) = t1 \<and>
    getCurrent (snd (collect now s)) = Data_new \<and>
    getStarted (snd (collect now s)) = now \<and>
    getTotal (snd (collect now s)) = getTotal (fst (collect now s))"
proof -
  define s1 where "s1 = snd (collect t1 (foldl stat_step (PacketStatistic_new t0) before))"
  have s: "s = foldl stat_step s1 window" by (simp add: s_def s1_def)
  have c: "cval k (st_current s) = sum_list (map (\<lambda>e. call_adds e k) window)"
    "st_started s = t1"
    using current_fold [of window k s1] assms(1) by (simp_all add: s s1_def collect_parts)
  then have c1: "cval k (getCurrent (fst (collect now s))) = sum_list (map (\<lambda>e. call_adds e k) window)"
    "getStarted (fst (collect now s)) = t1"
    by (simp_all add: getCurrent_def getStarted_def collect_parts)
  have "lifetime s k = sum_list (map (\<lambda>e. call_adds e k) (before @ window))"
    unfolding s_def lifetime_fold by simp
  then have c2: "cval k (getTotal (fst (collect now s))) =
      sum_list (map (\<lambda>e. call_adds e k) (before @ window))"
    by (simp add: getTotal_def collect_parts lifetime_def)
  moreover have "getCurrent (snd (collect now s)) = Data_new" "getStarted (snd (collect now s)) = now"
    "getTotal (snd (collect now s)) = getTotal (fst (collect now s))"
    by (simp_all add: getCurrent_def getStarted_def getTotal_def collect_parts)
  ultimately show ?thesis using c1 by blast
qed

theorem collect_reports_window_witness:
  "cval AllocOk (getCurrent (fst (collect 9 (foldl stat_step (PacketStatistic_new 0)
     ([Inc AllocOk, Inc AllocOk] @ Collect 4 # [Inc AllocOk, AddPop 7]))))) = 1"
  by (subst collect_reports_window [THEN conjunct1]) auto

end
