(* ===== verification/Packet_Queue.thy ===== *)
theory Packet_Queue
  imports Packet_Buffer Packet_Statistic "HOL-Library.Signed_Division"
begin

text \<open>
  \<open>packet_queue.hpp\<close>: a packet pool, its statistic and the ring of filled packets. This
  theory runs \<open>push\<close> and \<open>pop\<close> as whole calls; what the other thread does is let in at
  the points where a call sleeps, through a script with one entry per sleep. A call that
  is still waiting when its script ends is \<open>Blocked\<close>. The interleaving of single steps
  of the two threads is the subject of \<open>Queue_Threads\<close>.

  The \<open>PacketAction\<close> closures take the packet descriptor, the bytes of the pool and the
  state \<open>'e\<close> they capture, and return the \<open>ssize_t\<close>, the bytes and that state.
\<close>

section \<open>Data\<close>

type_synonym 'e action = "Packet \<Rightarrow> bytes \<Rightarrow> 'e \<Rightarrow> (ssize_t \<times> bytes \<times> 'e) exec"

record 'q PacketQueue =
  pq_pb :: PacketBuffer
  pq_ps :: PacketStatistic
  pq_q :: 'q
  pq_blockWait :: size_t

definition PacketQueue_new ::
  "'q ring_api \<Rightarrow> (nat \<Rightarrow> char) \<Rightarrow> time_point \<Rightarrow> size_t \<Rightarrow> size_t \<Rightarrow> size_t \<Rightarrow> 'q PacketQueue" where
  "PacketQueue_new R raw now mtu n blockWait =
     \<lparr>pq_pb = PacketBuffer_new raw mtu n, pq_ps = PacketStatistic_new now,
      pq_q = rb_new R n, pq_blockWait = blockWait\<rparr>"

section \<open>Operations\<close>

text \<open>
  \<open>{ (long int)blockWait/1000, 1000*((int)blockWait%1000) }\<close>: both casts reinterpret
  the number as signed, and C++ division truncates.
\<close>

definition getBlockTimeval :: "'q PacketQueue \<Rightarrow> int \<times> int" where
  "getBlockTimeval pq =
     (sint (pq_blockWait pq) sdiv 1000,
      1000 * (sint (ucast (pq_blockWait pq) :: 32 word) smod 1000))"

definition getPacketBuffer :: "'q PacketQueue \<Rightarrow> PacketBuffer" where
  "getPacketBuffer pq = pq_pb pq"

definition getStatistic ::
  "time_point \<Rightarrow> 'q PacketQueue \<Rightarrow> PacketStatistic \<times> 'q PacketQueue" where
  "getStatistic now pq =
     (let (ret, s) = collect now (pq_ps pq) in (ret, pq\<lparr>pq_ps := s\<rparr>))"

text \<open>\<open>push\<close> after \<open>pb.alloc()\<close> returned the packet \<open>i\<close>.\<close>

definition push_packet ::
  "'q ring_api \<Rightarrow> 'e action \<Rightarrow> nat \<Rightarrow> 'q PacketQueue \<Rightarrow> 'e \<Rightarrow>
   (bool \<times> 'q PacketQueue \<times> 'e) exec" where
  "push_packet R action i pq e =
     ebind (action (packets (pq_pb pq) ! i) (buffer (pq_pb pq)) e) (\<lambda>(ret, m, e').
       let pq1 = pq\<lparr>pq_pb := (pq_pb pq)\<lparr>buffer := m\<rparr>\<rparr> in
       if 0 < sint ret then
         let pq2 = pq1\<lparr>pq_ps := addPushPacketSize ret (pq_ps pq1),
                       pq_pb := pb_setSize i ret (pq_pb pq1)\<rparr>;
             (ok, q') = rb_push R i (pq_q pq2)
         in if ok
            then Inr (True, pq2\<lparr>pq_q := q', pq_ps := incPushOk (pq_ps pq2)\<rparr>, e')
            else Inr (False, pq2\<lparr>pq_q := q', pq_pb := pb_free i (pq_pb pq2),
                                 pq_ps := incPushFailed (pq_ps pq2)\<rparr>, e')
       else Inr (False, pq1\<lparr>pq_pb := pb_free i (pq_pb pq1),
                            pq_ps := incPushActionFailed (pq_ps pq1)\<rparr>, e'))"

text \<open>
  The \<open>for\<close> loop of \<open>push\<close>. An entry of the script is what happens to the queue while
  the thread sleeps; it is told for how many milliseconds.
\<close>

type_synonym 'q sleeps = "(size_t \<Rightarrow> 'q PacketQueue \<Rightarrow> 'q PacketQueue) list"

fun push_loop ::
  "'q ring_api \<Rightarrow> 'e action \<Rightarrow> size_t \<Rightarrow> 'q sleeps \<Rightarrow> size_t \<Rightarrow> size_t \<Rightarrow>
   'q PacketQueue \<Rightarrow> 'e \<Rightarrow> (bool \<times> 'q PacketQueue \<times> 'e) exec" where
  "push_loop R action blockWait script wait tw pq e =
     (if tw < blockWait then
        (case alloc (pq_pb pq) of
           (Some i, b) \<Rightarrow>
             push_packet R action i (pq\<lparr>pq_pb := b, pq_ps := incAllocOk (pq_ps pq)\<rparr>) e
         | (None, b) \<Rightarrow>
             let pq1 = pq\<lparr>pq_pb := b, pq_ps := incAllocFailed (pq_ps pq)\<rparr>;
                 wait1 = min wait 100;
                 tw1 = tw + wait1
             in (case script of
                   [] \<Rightarrow> Inl Blocked
                 | f # script' \<Rightarrow>
                     push_loop R action blockWait script' (wait1 + 10) tw1 (f wait1 pq1) e))
      else Inr (False, pq\<lparr>pq_ps := incPushTimeout (pq_ps pq)\<rparr>, e))"

declare push_loop.simps [simp del]

definition push ::
  "'q ring_api \<Rightarrow> 'e action \<Rightarrow> 'q sleeps \<Rightarrow> 'q PacketQueue \<Rightarrow> 'e \<Rightarrow>
   (bool \<times> 'q PacketQueue \<times> 'e) exec" where
  "push R action script pq e = push_loop R action (pq_blockWait pq) script 0 0 pq e"

text \<open>\<open>pop\<close> after \<open>q.pop\<close> returned the packet \<open>i\<close>.\<close>

definition pop_packet ::
  "'e action \<Rightarrow> nat \<Rightarrow> 'q PacketQueue \<Rightarrow> 'e \<Rightarrow> (bool \<times> 'q PacketQueue \<times> 'e) exec" where
  "pop_packet action i pq e =
     (let pq1 = pq\<lparr>pq_ps := addPopPacketSize (psize (packets (pq_pb pq) ! i)) (pq_ps pq)\<rparr> in
      ebind (action (packets (pq_pb pq1) ! i) (buffer (pq_pb pq1)) e) (\<lambda>(ret, m, e').
        let pq2 = pq1\<lparr>pq_pb := (pq_pb pq1)\<lparr>buffer := m\<rparr>\<rparr>;
            pq3 = (if 0 \<le> sint ret
                   then pq2\<lparr>pq_ps := incPopOk (pq_ps pq2)\<rparr>
                   else pq2\<lparr>pq_ps := incPopActionFailed (pq_ps pq2)\<rparr>)
        in Inr (True, pq3\<lparr>pq_pb := pb_free i (pq_pb pq3)\<rparr>, e')))"

text \<open>
  The \<open>do\<close> loop of \<open>pop\<close>. A script entry is one \<open>cond.wait_for\<close>: whether it ended by
  the timeout, and what happened to the queue meanwhile.
\<close>

type_synonym 'q waits = "(bool \<times> ('q PacketQueue \<Rightarrow> 'q PacketQueue)) list"

fun pop_loop ::
  "'q ring_api \<Rightarrow> 'e action \<Rightarrow> 'q waits \<Rightarrow> 'q PacketQueue \<Rightarrow> 'e \<Rightarrow>
   (bool \<times> 'q PacketQueue \<times> 'e) exec" where
  "pop_loop R action script pq e =
     (case rb_pop R (pq_q pq) of
        (Some i, q') \<Rightarrow> pop_packet action i (pq\<lparr>pq_q := q'\<rparr>) e
      | (None, q') \<Rightarrow>
          let pq1 = pq\<lparr>pq_q := q', pq_ps := incPopEmpty (pq_ps pq)\<rparr>
          in (case script of
                [] \<Rightarrow> Inl Blocked
              | (timeout, f) # script' \<Rightarrow>
                  let pq2 = f pq1
                  in if timeout
                     then Inr (False, pq2\<lparr>pq_ps := incPopTimeout (pq_ps pq2)\<rparr>, e)
                     else pop_loop R action script' pq2 e))"

declare pop_loop.simps [simp del]

definition pop ::
  "'q ring_api \<Rightarrow> 'e action \<Rightarrow> 'q waits \<Rightarrow> 'q PacketQueue \<Rightarrow> 'e \<Rightarrow>
   (bool \<times> 'q PacketQueue \<times> 'e) exec" where
  "pop R action script pq e = pop_loop R action script pq e"

section \<open>What a queue holds\<close>

definition payload :: "PacketBuffer \<Rightarrow> nat \<Rightarrow> bytes" where
  "payload b i =
     take (unat (psize (packets b ! i))) (drop (unat (buf (packets b ! i))) (buffer b))"

definition pq_queue :: "'q ring_api \<Rightarrow> 'q PacketQueue \<Rightarrow> bytes list" where
  "pq_queue R pq = map (payload (pq_pb pq)) (rb_content R (pq_q pq))"

text \<open>
  The invariant of the slots, with \<open>F\<close> the slots that a call has taken out: a slot is
  marked used exactly when it is queued or in flight, and never both.
\<close>

definition pq_slots :: "'q ring_api \<Rightarrow> nat set \<Rightarrow> 'q PacketQueue \<Rightarrow> bool" where
  "pq_slots R F pq \<longleftrightarrow>
     wf_pb (pq_pb pq) \<and> distinct (rb_content R (pq_q pq)) \<and>
     held used_at (pq_pb pq) = set (rb_content R (pq_q pq)) \<union> F \<and>
     set (rb_content R (pq_q pq)) \<inter> F = {} \<and>
     rb_cap R (pq_q pq) = capacity (pq_pb pq) \<and>
     (\<forall>i \<in> set (rb_content R (pq_q pq)).
        unat (psize (packets (pq_pb pq) ! i)) \<le> unat (pb_mtu (pq_pb pq)))"

text \<open>The counters of the statistic agree with each other and with the ring.\<close>

definition pq_counts :: "'q ring_api \<Rightarrow> 'q PacketQueue \<Rightarrow> bool" where
  "pq_counts R pq \<longleftrightarrow>
     (let L = lifetime (pq_ps pq); c = rb_content R (pq_q pq) in
      L AllocOk = L PushOk + L PushActionFailed \<and> L PushFailed = 0 \<and>
      L PushOk = L PopOk + L PopActionFailed + of_nat (length c) \<and>
      L PushPacketSize =
        L PopPacketSize + sum_list (map (\<lambda>i. psize (packets (pq_pb pq) ! i)) c))"

definition pq_inv :: "'q ring_api \<Rightarrow> 'q PacketQueue \<Rightarrow> bool" where
  "pq_inv R pq \<longleftrightarrow> pq_slots R {} pq \<and> pq_counts R pq"

text \<open>
  What the closures passed to \<open>push\<close> and \<open>pop\<close> keep to: a producer writes inside the
  packet it was given and reports at most its size, a consumer leaves the bytes alone.
\<close>

definition push_contract :: "'e action \<Rightarrow> bool" where
  "push_contract act \<longleftrightarrow>
     (\<forall>p m e ret m' e'.
        unat (buf p) + unat (maxSize p) \<le> length m \<longrightarrow> act p m e = Inr (ret, m', e') \<longrightarrow>
        length m' = length m \<and>
        (\<forall>k < length m. k < unat (buf p) \<or> unat (buf p) + unat (maxSize p) \<le> k \<longrightarrow>
           m' ! k = m ! k) \<and>
        (0 < sint ret \<longrightarrow> unat ret \<le> unat (maxSize p)))"

definition pop_contract :: "'e action \<Rightarrow> bool" where
  "pop_contract act \<longleftrightarrow>
     (\<forall>p m e ret m' e'. act p m e = Inr (ret, m', e') \<longrightarrow> m' = m)"

lemma push_contractD:
  assumes "push_contract act" "act p m e = Inr (ret, m', e')"
    "unat (buf p) + unat (maxSize p) \<le> length m"
  shows "length m' = length m"
    "\<And>k. k < length m \<Longrightarrow> k < unat (buf p) \<or> unat (buf p) + unat (maxSize p) \<le> k \<Longrightarrow>
       m' ! k = m ! k"
    "0 < sint ret \<Longrightarrow> unat ret \<le> unat (maxSize p)"
  using assms unfolding push_contract_def by blast+

section \<open>Slots and payloads\<close>

lemma payload_upd [simp]:
  "payload (pb_free i b) j = payload b j"
  "payload (b\<lparr>packets := (packets b)[i := (packets b ! i)\<lparr>used := u\<rparr>]\<rparr>) j = payload b j"
  by (simp_all add: payload_def pb_free_def Packet_free_def nth_update_if)

lemma payload_setSize:
  "payload (pb_setSize i n b) j =
     (if j = i \<and> i < length (packets b)
      then take (unat n) (drop (unat (buf (packets b ! i))) (buffer b)) else payload b j)"
  by (simp add: payload_def pb_setSize_def nth_update_if)

lemma psize_upd [simp]:
  "psize (packets (pb_free i b) ! j) = psize (packets b ! j)"
  "pb_mtu (pb_free i b) = pb_mtu b" "pb_mtu (pb_setSize i n b) = pb_mtu b"
  by (simp_all add: pb_free_def Packet_free_def pb_setSize_def nth_update_if)

lemma psize_setSize:
  "psize (packets (pb_setSize i n b) ! j) =
     (if j = i \<and> i < length (packets b) then n else psize (packets b ! j))"
  by (simp add: pb_setSize_def nth_update_if)

lemma buffer_upd [simp]:
  "buffer (pb_free i b) = buffer b" "buffer (pb_setSize i n b) = buffer b"
  by (simp_all add: pb_free_def pb_setSize_def)

lemma payload_other:
  assumes wf: "wf_pb b" and ij: "i \<noteq> j" "i < capacity b" "j < capacity b"
    and l: "length m = length (buffer b)" and sz: "unat (psize (packets b ! j)) \<le> unat (pb_mtu b)"
    and same: "\<And>k. k < length m \<Longrightarrow> k < unat (buf (packets b ! i)) \<or>
      unat (buf (packets b ! i)) + unat (maxSize (packets b ! i)) \<le> k \<Longrightarrow> m ! k = buffer b ! k"
  shows "payload (b\<lparr>buffer := m\<rparr>) j = payload b j"
proof -
  let ?o = "unat (buf (packets b ! j))" and ?n = "unat (psize (packets b ! j))"
  have bound: "?o + ?n \<le> length m"
    using wf_pb_slot(1,3) [OF wf ij(3)] sz l by simp
  have sep: "k < unat (buf (packets b ! i)) \<or>
      unat (buf (packets b ! i)) + unat (maxSize (packets b ! i)) \<le> k"
    if "?o \<le> k" "k < ?o + ?n" for k
  proof (cases "i < j")
    case True
    then show ?thesis using wf_pb_disjoint [OF wf True ij(3)] that by linarith
  next
    case False
    then have "j < i" using ij(1) by simp
    then show ?thesis
      using wf_pb_disjoint [OF wf _ ij(2), of j] wf_pb_slot(3) [OF wf ij(3)] sz that by simp
  qed
  have "m ! k = buffer b ! k" if "?o \<le> k" "k < ?o + ?n" for k
    using same sep [OF that] that bound by simp
  then have "take ?n (drop ?o m) = take ?n (drop ?o (buffer b))"
    using bound l by (intro nth_equalityI) auto
  then show ?thesis by (simp add: payload_def)
qed

lemma pq_slots_room:
  assumes "pq_slots R F pq" "i \<in> F"
  shows "i < capacity (pq_pb pq)" "length (rb_content R (pq_q pq)) < rb_cap R (pq_q pq)"
proof -
  let ?c = "rb_content R (pq_q pq)"
  have h: "held used_at (pq_pb pq) = set ?c \<union> F" "set ?c \<inter> F = {}" "distinct ?c"
    "rb_cap R (pq_q pq) = capacity (pq_pb pq)"
    using assms(1) by (auto simp: pq_slots_def)
  from h(1) assms(2) pb_pool.held_subset [of "pq_pb pq"]
  show i: "i < capacity (pq_pb pq)" by auto
  have "set ?c \<subseteq> {..<capacity (pq_pb pq)} - {i}"
    using h(1,2) assms(2) pb_pool.held_subset [of "pq_pb pq"] by auto
  then have "card (set ?c) \<le> capacity (pq_pb pq) - 1"
    using card_mono [of "{..<capacity (pq_pb pq)} - {i}" "set ?c"] i by simp
  then show "length ?c < rb_cap R (pq_q pq)"
    using i h(3,4) by (simp add: distinct_card)
qed

section \<open>One packet\<close>

text \<open>
  A producer that holds a slot always finds room in the ring, so the branch that counts
  \<open>pushFailed\<close> is never taken.
\<close>

definition pushed :: "'q ring_api \<Rightarrow> nat \<Rightarrow> ssize_t \<Rightarrow> bytes \<Rightarrow> 'q PacketQueue \<Rightarrow> 'q PacketQueue" where
  "pushed R i ret m pq =
     (if 0 < sint ret
      then pq\<lparr>pq_pb := pb_setSize i ret ((pq_pb pq)\<lparr>buffer := m\<rparr>),
              pq_q := snd (rb_push R i (pq_q pq)),
              pq_ps := incPushOk (addPushPacketSize ret (pq_ps pq))\<rparr>
      else pq\<lparr>pq_pb := pb_free i ((pq_pb pq)\<lparr>buffer := m\<rparr>),
              pq_ps := incPushActionFailed (pq_ps pq)\<rparr>)"

lemma push_packet_eq:
  assumes R: "ring_laws R" and sl: "pq_slots R F pq" "i \<in> F"
    and a: "act (packets (pq_pb pq) ! i) (buffer (pq_pb pq)) e = Inr (ret, m, e')"
  shows "push_packet R act i pq e = Inr (0 < sint ret, pushed R i ret m pq, e')"
proof -
  obtain ok q' where q': "rb_push R i (pq_q pq) = (ok, q')" by (cases "rb_push R i (pq_q pq)")
  have ok
    using ring_pushD(2) [OF R q'] pq_slots_room(2) [OF sl] by simp
  then show ?thesis
    by (simp add: push_packet_def a pushed_def q' Let_def)
qed

lemma push_packet_error:
  "act (packets (pq_pb pq) ! i) (buffer (pq_pb pq)) e = Inl x \<Longrightarrow>
     push_packet R act i pq e = Inl x"
  by (simp add: push_packet_def)

lemma pushed_content:
  assumes "ring_laws R" "pq_slots R F pq" "i \<in> F"
  shows "rb_content R (pq_q (pushed R i ret m pq)) =
      rb_content R (pq_q pq) @ (if 0 < sint ret then [i] else [])"
    "rb_cap R (pq_q (pushed R i ret m pq)) = rb_cap R (pq_q pq)"
proof -
  obtain ok q' where q': "rb_push R i (pq_q pq) = (ok, q')" by (cases "rb_push R i (pq_q pq)")
  note d = ring_pushD [OF assms(1) q'] pq_slots_room(2) [OF assms(2,3)]
  show "rb_content R (pq_q (pushed R i ret m pq)) =
      rb_content R (pq_q pq) @ (if 0 < sint ret then [i] else [])"
    "rb_cap R (pq_q (pushed R i ret m pq)) = rb_cap R (pq_q pq)"
    using d by (auto simp: pushed_def q')
qed

lemma pushed_slots:
  assumes R: "ring_laws R" and sl: "pq_slots R F pq" and i: "i \<in> F" and c: "push_contract act"
    and a: "act (packets (pq_pb pq) ! i) (buffer (pq_pb pq)) e = Inr (ret, m, e')"
  shows "pq_slots R (F - {i}) (pushed R i ret m pq)"
proof -
  let ?b = "pq_pb pq"
  have wf: "wf_pb ?b" using sl by (simp add: pq_slots_def)
  note i_cap = pq_slots_room(1) [OF sl i]
  note cd = push_contractD [OF c a wf_pb_slot(1) [OF wf i_cap]]
  have wf': "wf_pb (?b\<lparr>buffer := m\<rparr>)" by (rule wf_pb_buffer [OF wf cd(1)])
  have ni: "i \<notin> set (rb_content R (pq_q pq))" using sl i by (auto simp: pq_slots_def)
  have h: "held used_at (pb_free i (?b\<lparr>buffer := m\<rparr>)) = held used_at ?b - {i}"
    using used_at_free [OF wf', of i] by (auto simp: held_def)
  have h2: "held used_at (pb_setSize i ret (?b\<lparr>buffer := m\<rparr>)) = held used_at ?b"
    by (simp add: held_def)
  show ?thesis
  proof (cases "0 < sint ret")
    case True
    have "unat ret \<le> unat (pb_mtu ?b)"
      using cd(3) [OF True] wf_pb_slot(3) [OF wf i_cap] by simp
    moreover have "i < length (packets ?b)"
      using i_cap wf by (simp add: wf_pb_def capacity_def)
    ultimately show ?thesis
      using sl i ni wf' h2 pushed_content [OF R sl i, of ret m] True
      by (auto simp: pq_slots_def pushed_def psize_setSize)
  next
    case False
    then show ?thesis
      using sl i ni wf' h pushed_content [OF R sl i, of ret m]
      by (auto simp: pq_slots_def pushed_def)
  qed
qed

lemma pushed_queue:
  assumes R: "ring_laws R" and sl: "pq_slots R F pq" and i: "i \<in> F" and c: "push_contract act"
    and a: "act (packets (pq_pb pq) ! i) (buffer (pq_pb pq)) e = Inr (ret, m, e')"
  shows "pq_queue R (pushed R i ret m pq) =
    pq_queue R pq @ (if 0 < sint ret
      then [take (unat ret) (drop (unat (buf (packets (pq_pb pq) ! i))) m)] else [])"
proof -
  let ?b = "pq_pb pq" and ?c = "rb_content R (pq_q pq)"
  have wf: "wf_pb ?b" using sl by (simp add: pq_slots_def)
  note i_cap = pq_slots_room(1) [OF sl i]
  note cd = push_contractD [OF c a wf_pb_slot(1) [OF wf i_cap]]
  have c_cap: "j < capacity ?b" "i \<noteq> j" "unat (psize (packets ?b ! j)) \<le> unat (pb_mtu ?b)"
    if "j \<in> set ?c" for j
    using sl i that pb_pool.held_subset [of ?b] by (auto simp: pq_slots_def)
  have old: "payload (?b\<lparr>buffer := m\<rparr>) j = payload ?b j" if "j \<in> set ?c" for j
    by (rule payload_other [OF wf c_cap(2) [OF that] i_cap c_cap(1) [OF that] cd(1)
          c_cap(3) [OF that] cd(2)]) (use cd(1) in auto)
  have "i < length (packets ?b)" using i_cap wf by (simp add: wf_pb_def capacity_def)
  with old c_cap(2) show ?thesis
    using pushed_content(1) [OF R sl i, of ret m]
    by (auto simp: pq_queue_def pushed_def payload_setSize)
qed

lemma pushed_counts:
  assumes R: "ring_laws R" and sl: "pq_slots R F pq" and i: "i \<in> F"
    and cnt: "pq_counts R (pq\<lparr>pq_ps := s\<rparr>)" and s: "pq_ps pq = incAllocOk s"
  shows "pq_counts R (pushed R i ret m pq)"
proof -
  have ni: "j \<noteq> i" if "j \<in> set (rb_content R (pq_q pq))" for j
    using sl i that by (auto simp: pq_slots_def)
  have wf: "wf_pb (pq_pb pq)" using sl by (simp add: pq_slots_def)
  have il: "i < length (packets (pq_pb pq))"
    using pq_slots_room(1) [OF sl i] wf by (simp add: wf_pb_def capacity_def)
  have m: "sum_list (map (\<lambda>j. psize (packets (pb_setSize i ret ((pq_pb pq)\<lparr>buffer := m\<rparr>)) ! j))
      (rb_content R (pq_q pq))) =
    sum_list (map (\<lambda>j. psize (packets (pq_pb pq) ! j)) (rb_content R (pq_q pq)))"
    by (rule arg_cong [of _ _ sum_list], rule map_cong) (use ni in \<open>auto simp: psize_setSize\<close>)
  have mi: "psize (packets (pb_setSize i ret ((pq_pb pq)\<lparr>buffer := m\<rparr>)) ! i) = ret"
    using il by (simp add: psize_setSize)
  show ?thesis
  proof (cases "0 < sint ret")
    case True
    with cnt s pushed_content(1) [OF R sl i, of ret m] show ?thesis
      by (simp add: pq_counts_def Let_def pushed_def m mi)
  next
    case False
    with cnt s pushed_content(1) [OF R sl i, of ret m] show ?thesis
      by (simp add: pq_counts_def Let_def pushed_def)
  qed
qed

text \<open>Taking a slot from the pool, and taking a packet from the ring.\<close>

lemma alloc_slots:
  assumes sl: "pq_slots R {} pq" and a: "alloc (pq_pb pq) = (Some i, b)"
  shows "pq_slots R {i} (pq\<lparr>pq_pb := b, pq_ps := s\<rparr>)"
    "pq_queue R (pq\<lparr>pq_pb := b, pq_ps := s\<rparr>) = pq_queue R pq"
    "psize (packets b ! j) = psize (packets (pq_pb pq) ! j)" "pb_mtu b = pb_mtu (pq_pb pq)"
    "buffer b = buffer (pq_pb pq)"
proof -
  have wf: "wf_pb (pq_pb pq)" using sl by (simp add: pq_slots_def)
  note g = pb_pool.get_Some [OF wf a] and d = alloc_SomeD(4) [OF a]
  show ps: "psize (packets b ! j) = psize (packets (pq_pb pq) ! j)"
    and mtu: "pb_mtu b = pb_mtu (pq_pb pq)" and "buffer b = buffer (pq_pb pq)" for j
    by (simp_all add: d nth_update_if)
  have "i \<notin> held used_at (pq_pb pq)" "held used_at b = insert i (held used_at (pq_pb pq))"
    using g by (auto simp: held_def)
  then show "pq_slots R {i} (pq\<lparr>pq_pb := b, pq_ps := s\<rparr>)"
    using sl g by (auto simp: pq_slots_def ps mtu)
  show "pq_queue R (pq\<lparr>pq_pb := b, pq_ps := s\<rparr>) = pq_queue R pq"
    by (simp add: pq_queue_def d)
qed

lemma rb_pop_slots:
  assumes R: "ring_laws R" and sl: "pq_slots R {} pq" and p: "rb_pop R (pq_q pq) = (Some i, q')"
  shows "pq_slots R {i} (pq\<lparr>pq_q := q'\<rparr>)"
    "pq_queue R pq = payload (pq_pb pq) i # pq_queue R (pq\<lparr>pq_q := q'\<rparr>)"
  using sl ring_popD(1,3) [OF R p]
  by (auto simp: pq_slots_def pq_queue_def)

definition popped :: "nat \<Rightarrow> ssize_t \<Rightarrow> 'q PacketQueue \<Rightarrow> 'q PacketQueue" where
  "popped i ret pq =
     pq\<lparr>pq_ps := (if 0 \<le> sint ret then incPopOk else incPopActionFailed)
                  (addPopPacketSize (psize (packets (pq_pb pq) ! i)) (pq_ps pq)),
        pq_pb := pb_free i (pq_pb pq)\<rparr>"

lemma pop_packet_eq:
  assumes "pop_contract act"
    and a: "act (packets (pq_pb pq) ! i) (buffer (pq_pb pq)) e = Inr (ret, m, e')"
  shows "pop_packet act i pq e = Inr (True, popped i ret pq, e')"
proof -
  have "m = buffer (pq_pb pq)" using assms unfolding pop_contract_def by blast
  then show ?thesis by (simp add: pop_packet_def popped_def a Let_def)
qed

lemma pop_packet_error:
  "act (packets (pq_pb pq) ! i) (buffer (pq_pb pq)) e = Inl x \<Longrightarrow> pop_packet act i pq e = Inl x"
  by (simp add: pop_packet_def Let_def)

lemma popped_slots:
  assumes "pq_slots R F pq" "i \<in> F"
  shows "pq_slots R (F - {i}) (popped i ret pq)" "pq_queue R (popped i ret pq) = pq_queue R pq"
proof -
  have wf: "wf_pb (pq_pb pq)" using assms by (simp add: pq_slots_def)
  have "held used_at (pb_free i (pq_pb pq)) = held used_at (pq_pb pq) - {i}"
    using used_at_free [OF wf, of i] by (auto simp: held_def)
  then show "pq_slots R (F - {i}) (popped i ret pq)"
    using assms by (auto simp: pq_slots_def popped_def)
  show "pq_queue R (popped i ret pq) = pq_queue R pq"
    by (simp add: pq_queue_def popped_def)
qed

lemma popped_counts:
  assumes R: "ring_laws R" and cnt: "pq_counts R pq" and p: "rb_pop R (pq_q pq) = (Some i, q')"
  shows "pq_counts R (popped i ret (pq\<lparr>pq_q := q'\<rparr>))"
  using cnt ring_popD(3) [OF R p]
  by (cases "0 \<le> sint ret") (auto simp: pq_counts_def popped_def Let_def algebra_simps)

section \<open>Whole calls\<close>

text \<open>
  What the other thread may do while a call sleeps: a consumer takes packets from the
  front, a producer appends some, and both keep the invariant and the constant members.
\<close>

definition sleeps_ok :: "'q ring_api \<Rightarrow> 'q sleeps \<Rightarrow> bool" where
  "sleeps_ok R script \<longleftrightarrow> (\<forall>f \<in> set script. \<forall>w pq. pq_inv R pq \<longrightarrow>
     pq_inv R (f w pq) \<and> pb_mtu (pq_pb (f w pq)) = pb_mtu (pq_pb pq) \<and>
     (\<exists>k. pq_queue R (f w pq) = drop k (pq_queue R pq)))"

definition waits_ok :: "'q ring_api \<Rightarrow> 'q waits \<Rightarrow> bool" where
  "waits_ok R script \<longleftrightarrow> (\<forall>tf \<in> set script. \<forall>pq. pq_inv R pq \<longrightarrow>
     pq_inv R (snd tf pq) \<and> pb_mtu (pq_pb (snd tf pq)) = pb_mtu (pq_pb pq) \<and>
     (\<exists>ys. pq_queue R (snd tf pq) = pq_queue R pq @ ys))"

lemma pq_inv_counters:
  assumes "pq_inv R pq"
  shows "pq_inv R (pq\<lparr>pq_ps := incAllocFailed (pq_ps pq)\<rparr>)"
    "pq_inv R (pq\<lparr>pq_ps := incPushTimeout (pq_ps pq)\<rparr>)"
    "pq_inv R (pq\<lparr>pq_ps := incPopEmpty (pq_ps pq)\<rparr>)"
    "pq_inv R (pq\<lparr>pq_ps := incPopTimeout (pq_ps pq)\<rparr>)"
    "pq_inv R (pq\<lparr>pq_ps := snd (collect now (pq_ps pq))\<rparr>)"
  using assms by (auto simp: pq_inv_def pq_slots_def pq_counts_def Let_def)

lemma push_alloc_inv:
  assumes R: "ring_laws R" and inv: "pq_inv R pq" and c: "push_contract act"
    and al: "alloc (pq_pb pq) = (Some i, b)"
    and a: "act (packets b ! i) (buffer b) e = Inr (ret, m, e')"
  defines "pq1 \<equiv> pq\<lparr>pq_pb := b, pq_ps := incAllocOk (pq_ps pq)\<rparr>"
  shows "push_packet R act i pq1 e = Inr (0 < sint ret, pushed R i ret m pq1, e')"
    "pq_inv R (pushed R i ret m pq1)"
    "pq_queue R (pushed R i ret m pq1) = pq_queue R pq @
       (if 0 < sint ret then [take (unat ret) (drop (unat (buf (packets b ! i))) m)] else [])"
proof -
  have sl: "pq_slots R {i} pq1"
    using alloc_slots(1) [OF _ al] inv by (simp add: pq1_def pq_inv_def)
  have a1: "act (packets (pq_pb pq1) ! i) (buffer (pq_pb pq1)) e = Inr (ret, m, e')"
    using a by (simp add: pq1_def)
  show "push_packet R act i pq1 e = Inr (0 < sint ret, pushed R i ret m pq1, e')"
    by (rule push_packet_eq [where act = act, OF R sl singletonI a1])
  have sz: "psize (packets b ! j) = psize (packets (pq_pb pq) ! j)" for j
    using inv by (intro alloc_slots(3) [of R, OF _ al]) (simp add: pq_inv_def)
  have "pq_counts R (pq1\<lparr>pq_ps := pq_ps pq\<rparr>)"
    using inv by (simp add: pq_inv_def pq_counts_def pq1_def Let_def sz)
  then have "pq_counts R (pushed R i ret m pq1)"
    by (rule pushed_counts [OF R sl singletonI]) (simp_all add: pq1_def)
  moreover have "pq_slots R {} (pushed R i ret m pq1)"
    using pushed_slots [OF R sl singletonI c a1] by simp
  ultimately show "pq_inv R (pushed R i ret m pq1)" by (simp add: pq_inv_def)
  show "pq_queue R (pushed R i ret m pq1) = pq_queue R pq @
       (if 0 < sint ret then [take (unat ret) (drop (unat (buf (packets b ! i))) m)] else [])"
    using pushed_queue [OF R sl singletonI c a1] alloc_slots(2) [OF _ al] inv
    by (simp add: pq1_def pq_inv_def)
qed

lemma push_loop_timeout:
  "\<not> tw < bw \<Longrightarrow> push_loop R act bw script wait tw pq e =
     Inr (False, pq\<lparr>pq_ps := incPushTimeout (pq_ps pq)\<rparr>, e)"
  by (simp add: push_loop.simps)

lemma push_loop_got:
  "tw < bw \<Longrightarrow> alloc (pq_pb pq) = (Some i, b) \<Longrightarrow> push_loop R act bw script wait tw pq e =
     push_packet R act i (pq\<lparr>pq_pb := b, pq_ps := incAllocOk (pq_ps pq)\<rparr>) e"
  by (simp add: push_loop.simps)

lemma push_loop_full:
  assumes "tw < bw" "alloc (pq_pb pq) = (None, b)"
  shows "push_loop R act bw [] wait tw pq e = Inl Blocked"
    "push_loop R act bw (f # script) wait tw pq e =
      push_loop R act bw script (min wait 100 + 10) (tw + min wait 100)
        (f (min wait 100) (pq\<lparr>pq_ps := incAllocFailed (pq_ps pq)\<rparr>)) e"
proof -
  have "pq\<lparr>pq_pb := b\<rparr> = pq" using alloc_NoneD(1) [OF assms(2)] by simp
  then have "pq\<lparr>pq_pb := b, pq_ps := s\<rparr> = pq\<lparr>pq_ps := s\<rparr>" for s by metis
  then show "push_loop R act bw [] wait tw pq e = Inl Blocked"
    "push_loop R act bw (f # script) wait tw pq e =
      push_loop R act bw script (min wait 100 + 10) (tw + min wait 100)
        (f (min wait 100) (pq\<lparr>pq_ps := incAllocFailed (pq_ps pq)\<rparr>)) e"
    using assms
    by (simp_all add: push_loop.simps [of R act bw "[]"] push_loop.simps [of R act bw "f # script"]
        Let_def)
qed

text \<open>
  The result of a \<open>push\<close> as a relation between the queue before and after; \<open>mtu\<close> is the
  packet size of the queue.
\<close>

definition push_result ::
  "'q ring_api \<Rightarrow> 'e action \<Rightarrow> 'e \<Rightarrow> bytes list \<Rightarrow> size_t \<Rightarrow> bool \<times> 'q PacketQueue \<times> 'e \<Rightarrow> bool" where
  "push_result R act e xs mtu res \<longleftrightarrow>
     (case res of (r, pq', e') \<Rightarrow>
        pq_inv R pq' \<and> pb_mtu (pq_pb pq') = mtu \<and>
        (\<exists>k. if r
             then (\<exists>p m ret m'. act p m e = Inr (ret, m', e') \<and> 0 < sint ret \<and>
                     pq_queue R pq' = drop k xs @ [take (unat ret) (drop (unat (buf p)) m')])
             else pq_queue R pq' = drop k xs))"

lemma push_once:
  assumes R: "ring_laws R" and c: "push_contract act" and inv: "pq_inv R pq"
    and n: "script = [] \<or> \<not> (tw < bw \<and> fst (alloc (pq_pb pq)) = None)"
    and res: "push_loop R act bw script wait tw pq e = Inr res"
  shows "push_result R act e (pq_queue R pq) (pb_mtu (pq_pb pq)) res"
proof (cases "tw < bw")
  case False
  then have "res = (False, pq\<lparr>pq_ps := incPushTimeout (pq_ps pq)\<rparr>, e)"
    using res by (simp add: push_loop_timeout)
  then show ?thesis
    using pq_inv_counters(2) [OF inv]
    by (auto simp: push_result_def pq_queue_def intro: exI [of _ 0])
next
  case tw: True
  obtain i b where al: "alloc (pq_pb pq) = (Some i, b)"
  proof (cases "alloc (pq_pb pq)")
    case (Pair oi b)
    then show ?thesis
      using n tw res push_loop_full(1) [OF tw, of pq b R act wait e] that by (cases oi) auto
  qed
  let ?pq = "pq\<lparr>pq_pb := b, pq_ps := incAllocOk (pq_ps pq)\<rparr>"
  have eq: "push_packet R act i ?pq e = Inr res"
    using res push_loop_got [OF tw al] by metis
  then obtain ret m e' where a: "act (packets b ! i) (buffer b) e = Inr (ret, m, e')"
    by (cases "act (packets b ! i) (buffer b) e") (auto simp: push_packet_def)
  note st = push_alloc_inv [OF R inv c al a]
  from eq st(1) have "res = (0 < sint ret, pushed R i ret m ?pq, e')" by simp
  moreover have "pb_mtu (pq_pb (pushed R i ret m ?pq)) = pb_mtu (pq_pb pq)"
    using alloc_SomeD(4) [OF al] by (simp add: pushed_def)
  ultimately show ?thesis
    using st(2,3) a by (fastforce simp: push_result_def intro: exI [of _ 0])
qed

text \<open>
  Captured state that the closure's result does not depend on can be forgotten: a closure
  \<open>act'\<close> that works on more state than \<open>act\<close> makes \<open>push\<close> do the same to the queue.
\<close>

lemma push_packet_forget:
  assumes "\<And>p m. ebind (act' p m e') (\<lambda>(r, m', x). Inr (r, m', h x)) = act p m (h e')"
  shows "push_packet R act i pq (h e') = ebind (push_packet R act' i pq e') (\<lambda>(r, pq', x). Inr (r, pq', h x))"
  unfolding push_packet_def assms [symmetric]
  by (cases "act' (packets (pq_pb pq) ! i) (buffer (pq_pb pq)) e'")
    (auto simp: Let_def split: prod.splits)

lemma push_loop_forget:
  assumes "\<And>p m. ebind (act' p m e') (\<lambda>(r, m', x). Inr (r, m', h x)) = act p m (h e')"
  shows "push_loop R act bw script w tw pq (h e') =
    ebind (push_loop R act' bw script w tw pq e') (\<lambda>(r, pq', x). Inr (r, pq', h x))"
proof (induction script arbitrary: w tw pq)
  case Nil
  then show ?case
    by (auto simp: push_loop.simps [of R _ bw "[]"] push_packet_forget [where act = act and act' = act' and h = h and e' = e', OF assms] Let_def
        split: option.splits prod.splits)
next
  case (Cons f script)
  then show ?case
    by (auto simp: push_loop.simps [of R _ bw "f # script"] push_packet_forget [where act = act and act' = act' and h = h and e' = e', OF assms] Let_def
        split: option.splits prod.splits)
qed

lemma push_forget:
  assumes "\<And>p m. ebind (act' p m e') (\<lambda>(r, m', x). Inr (r, m', h x)) = act p m (h e')"
  shows "push R act script pq (h e') = ebind (push R act' script pq e') (\<lambda>(r, pq', x). Inr (r, pq', h x))"
  unfolding push_def by (rule push_loop_forget) (rule assms)

lemma push_loop_result:
  assumes R: "ring_laws R" and c: "push_contract act"
  shows "pq_inv R pq \<Longrightarrow> sleeps_ok R script \<Longrightarrow>
    push_loop R act bw script wait tw pq e = Inr res \<Longrightarrow>
    push_result R act e (pq_queue R pq) (pb_mtu (pq_pb pq)) res"
proof (induction script arbitrary: wait tw pq)
  case (Cons f script)
  show ?case
  proof (cases "tw < bw \<and> fst (alloc (pq_pb pq)) = None")
    case True
    then obtain b where al: "alloc (pq_pb pq) = (None, b)"
      by (cases "alloc (pq_pb pq)") auto
    let ?w = "min wait 100" and ?pq = "pq\<lparr>pq_ps := incAllocFailed (pq_ps pq)\<rparr>"
    have inv: "pq_inv R ?pq" by (rule pq_inv_counters(1) [OF Cons.prems(1)])
    with Cons.prems(2) obtain k where f: "pq_inv R (f ?w ?pq)"
      "pq_queue R (f ?w ?pq) = drop k (pq_queue R ?pq)" "pb_mtu (pq_pb (f ?w ?pq)) = pb_mtu (pq_pb pq)"
      unfolding sleeps_ok_def by fastforce
    have "push_loop R act bw script (?w + 10) (tw + ?w) (f ?w ?pq) e = Inr res"
      using Cons.prems(3) True push_loop_full(2) [OF _ al] by metis
    then have "push_result R act e (pq_queue R (f ?w ?pq)) (pb_mtu (pq_pb (f ?w ?pq))) res"
      using Cons.prems(2) by (intro Cons.IH [OF f(1)]) (auto simp: sleeps_ok_def)
    moreover have "pq_queue R ?pq = pq_queue R pq" by (simp add: pq_queue_def)
    ultimately show ?thesis
      unfolding push_result_def f(2,3) by (fastforce split: prod.splits if_splits)
  next
    case False
    then show ?thesis
      using Cons.prems push_once [OF R c] by blast
  qed
next
  case Nil
  then show ?case using push_once [OF R c] by blast
qed

text \<open>The same for \<open>pop\<close>.\<close>

definition pop_result ::
  "'q ring_api \<Rightarrow> 'e action \<Rightarrow> 'e \<Rightarrow> bytes list \<Rightarrow> size_t \<Rightarrow> bool \<times> 'q PacketQueue \<times> 'e \<Rightarrow> bool" where
  "pop_result R act e xs mtu res \<longleftrightarrow>
     (case res of (r, pq', e') \<Rightarrow>
        pq_inv R pq' \<and> pb_mtu (pq_pb pq') = mtu \<and>
        (\<exists>ys. if r
              then (\<exists>p m ret. act p m e = Inr (ret, m, e') \<and> unat (psize p) \<le> unat mtu \<and>
                      xs @ ys = take (unat (psize p)) (drop (unat (buf p)) m) # pq_queue R pq')
              else xs = [] \<and> pq_queue R pq' = ys \<and> e' = e))"

lemma pop_loop_some:
  "rb_pop R (pq_q pq) = (Some i, q') \<Longrightarrow>
    pop_loop R act script pq e = pop_packet act i (pq\<lparr>pq_q := q'\<rparr>) e"
  by (simp add: pop_loop.simps)

lemma pop_loop_none:
  assumes "rb_pop R (pq_q pq) = (None, q')"
  defines "pq1 \<equiv> pq\<lparr>pq_q := q', pq_ps := incPopEmpty (pq_ps pq)\<rparr>"
  shows "pop_loop R act [] pq e = Inl Blocked"
    "pop_loop R act ((True, f) # script) pq e =
       Inr (False, (f pq1)\<lparr>pq_ps := incPopTimeout (pq_ps (f pq1))\<rparr>, e)"
    "pop_loop R act ((False, f) # script) pq e = pop_loop R act script (f pq1) e"
  using assms
  by (simp_all add: pop_loop.simps [of R act "[]"] pop_loop.simps [of R act "x # script" for x]
      Let_def)

lemma rb_pop_none_inv:
  assumes R: "ring_laws R" and inv: "pq_inv R pq" and p: "rb_pop R (pq_q pq) = (None, q')"
  shows "pq_inv R (pq\<lparr>pq_q := q', pq_ps := incPopEmpty (pq_ps pq)\<rparr>)"
    "pq_queue R pq = []" "pq_queue R (pq\<lparr>pq_q := q', pq_ps := incPopEmpty (pq_ps pq)\<rparr>) = []"
  using inv ring_popD(1,2) [OF R p]
  by (auto simp: pq_inv_def pq_slots_def pq_counts_def pq_queue_def Let_def)

lemma pop_once:
  assumes R: "ring_laws R" and c: "pop_contract act" and inv: "pq_inv R pq"
    and p: "rb_pop R (pq_q pq) = (Some i, q')"
    and res: "pop_loop R act script pq e = Inr res"
  shows "pop_result R act e (pq_queue R pq) (pb_mtu (pq_pb pq)) res"
proof -
  let ?pq = "pq\<lparr>pq_q := q'\<rparr>"
  have eq: "pop_packet act i ?pq e = Inr res"
    using res by (simp add: pop_loop_some [OF p])
  then obtain ret m e' where a: "act (packets (pq_pb ?pq) ! i) (buffer (pq_pb ?pq)) e = Inr (ret, m, e')"
    by (cases "act (packets (pq_pb pq) ! i) (buffer (pq_pb pq)) e")
      (auto simp: pop_packet_def Let_def)
  have m: "m = buffer (pq_pb pq)" using c a unfolding pop_contract_def by fastforce
  have r: "res = (True, popped i ret ?pq, e')"
    using pop_packet_eq [where act = act, OF c a] eq by simp
  have sl: "pq_slots R {} pq" and cnt: "pq_counts R pq" using inv by (auto simp: pq_inv_def)
  note sl1 = rb_pop_slots [OF R sl p]
  have "pq_inv R (popped i ret ?pq)"
    using popped_slots(1) [OF sl1(1) singletonI] popped_counts [OF R cnt p]
    by (simp add: pq_inv_def)
  moreover have "pq_queue R pq = payload (pq_pb pq) i # pq_queue R (popped i ret ?pq)"
    using sl1(2) popped_slots(2) [OF sl1(1) singletonI] by simp
  moreover have "pb_mtu (pq_pb (popped i ret ?pq)) = pb_mtu (pq_pb pq)" by (simp add: popped_def)
  moreover have "unat (psize (packets (pq_pb pq) ! i)) \<le> unat (pb_mtu (pq_pb pq))"
    using sl ring_popD(3) [OF R p] by (auto simp: pq_slots_def)
  ultimately show ?thesis
    using a m unfolding pop_result_def r payload_def
    by (auto intro!: exI [of _ "[]"] exI [of _ "packets (pq_pb pq) ! i"]
        exI [of _ "buffer (pq_pb pq)"] exI [of _ ret])
qed

lemma pop_loop_result:
  assumes R: "ring_laws R" and c: "pop_contract act"
  shows "pq_inv R pq \<Longrightarrow> waits_ok R script \<Longrightarrow> pop_loop R act script pq e = Inr res \<Longrightarrow>
    pop_result R act e (pq_queue R pq) (pb_mtu (pq_pb pq)) res"
proof (induction script arbitrary: pq)
  case Nil
  obtain oi q' where p: "rb_pop R (pq_q pq) = (oi, q')" by (cases "rb_pop R (pq_q pq)")
  then show ?case
    using Nil pop_loop_none(1) [of R pq q' act e] pop_once [OF R c Nil.prems(1)]
    by (cases oi) auto
next
  case (Cons tf script)
  obtain t f where tf: "tf = (t, f)" by (cases tf)
  obtain oi q' where p: "rb_pop R (pq_q pq) = (oi, q')" by (cases "rb_pop R (pq_q pq)")
  show ?case
  proof (cases oi)
    case (Some i)
    with Cons.prems p show ?thesis using pop_once [OF R c Cons.prems(1)] by blast
  next
    case None
    with p have p: "rb_pop R (pq_q pq) = (None, q')" by simp
    let ?pq = "pq\<lparr>pq_q := q', pq_ps := incPopEmpty (pq_ps pq)\<rparr>"
    note n = rb_pop_none_inv [OF R Cons.prems(1) p]
    from n(1) Cons.prems(2) tf obtain ys where f: "pq_inv R (f ?pq)" "pq_queue R (f ?pq) = ys"
      and mtu: "pb_mtu (pq_pb (f ?pq)) = pb_mtu (pq_pb pq)"
      unfolding waits_ok_def by auto
    show ?thesis
    proof (cases t)
      case True
      with Cons.prems(3) tf have
        "res = (False, (f ?pq)\<lparr>pq_ps := incPopTimeout (pq_ps (f ?pq))\<rparr>, e)"
        by (simp add: pop_loop_none(2) [OF p])
      then show ?thesis
        using n(2) f mtu pq_inv_counters(4) [OF f(1)] by (simp add: pop_result_def pq_queue_def)
    next
      case False
      with Cons.prems(3) tf have "pop_loop R act script (f ?pq) e = Inr res"
        by (simp add: pop_loop_none(3) [OF p])
      with Cons.IH [OF f(1)] Cons.prems(2) have "pop_result R act e ys (pb_mtu (pq_pb (f ?pq))) res"
        using f(2) by (simp add: waits_ok_def)
      then show ?thesis
        using n(2) unfolding pop_result_def mtu by (force split: prod.splits if_splits)
    qed
  qed
qed

section \<open>Closures that know the packet size\<close>

text \<open>
  Every packet of a queue has the same \<open>maxSize\<close>, so a closure only has to keep its
  contract on packets of that size.
\<close>

definition only_size :: "size_t \<Rightarrow> 'e action \<Rightarrow> 'e action" where
  "only_size n act p m e = (if maxSize p = n then act p m e else Inl (Undefined ''size''))"

lemma only_size_eq: "only_size n act p m e = Inr r \<Longrightarrow> act p m e = Inr r"
  by (simp add: only_size_def split: if_splits)

lemma push_packet_only_size:
  assumes "pq_inv R pq" "alloc (pq_pb pq) = (Some i, b)" "pb_mtu (pq_pb pq) = n"
  shows "push_packet R (only_size n act) i (pq\<lparr>pq_pb := b, pq_ps := s\<rparr>) e =
    push_packet R act i (pq\<lparr>pq_pb := b, pq_ps := s\<rparr>) e"
proof -
  have wf: "wf_pb (pq_pb pq)" using assms(1) by (simp add: pq_inv_def pq_slots_def)
  note g = pb_pool.get_Some [OF wf assms(2)]
  then have "maxSize (packets b ! i) = pb_mtu b" by (intro wf_pb_slot(3)) simp_all
  also have "\<dots> = n" using alloc_SomeD(4) [OF assms(2)] assms(3) by simp
  finally show ?thesis by (simp add: push_packet_def only_size_def)
qed

lemma push_loop_only_size:
  assumes R: "ring_laws R"
  shows "pq_inv R pq \<Longrightarrow> sleeps_ok R script \<Longrightarrow> pb_mtu (pq_pb pq) = n \<Longrightarrow>
    push_loop R (only_size n act) bw script wait tw pq e = push_loop R act bw script wait tw pq e"
proof (induction script arbitrary: wait tw pq)
  case Nil
  then show ?case
    by (auto simp: push_loop.simps [of R _ bw "[]"] push_packet_only_size [OF Nil(1) _ Nil(3)]
        split: prod.splits option.splits)
next
  case (Cons f script)
  show ?case
  proof (cases "tw < bw")
    case False
    then show ?thesis by (simp add: push_loop_timeout)
  next
    case tw: True
    obtain oi b where al: "alloc (pq_pb pq) = (oi, b)" by (cases "alloc (pq_pb pq)")
    show ?thesis
    proof (cases oi)
      case (Some i)
      then show ?thesis
        using al
        by (simp add: push_loop_got [OF tw] push_packet_only_size [OF Cons.prems(1) _ Cons.prems(3)])
    next
      case None
      let ?w = "min wait 100" and ?pq = "pq\<lparr>pq_ps := incAllocFailed (pq_ps pq)\<rparr>"
      have "pq_inv R (f ?w ?pq) \<and> pb_mtu (pq_pb (f ?w ?pq)) = n"
        using Cons.prems(2,3) pq_inv_counters(1) [OF Cons.prems(1)] unfolding sleeps_ok_def by fastforce
      then show ?thesis
        using Cons.IH [of "f ?w ?pq"] Cons.prems(2) al None
        by (simp add: push_loop_full(2) [OF tw] sleeps_ok_def)
    qed
  qed
qed

lemma push_result_only_size:
  assumes R: "ring_laws R" and inv: "pq_inv R pq" and s: "sleeps_ok R script"
    and c: "push_contract (only_size (pb_mtu (pq_pb pq)) act)"
    and res: "push R act script pq e = Inr res"
  shows "push_result R act e (pq_queue R pq) (pb_mtu (pq_pb pq)) res"
proof -
  let ?act = "only_size (pb_mtu (pq_pb pq)) act"
  have "push_loop R ?act (pq_blockWait pq) script 0 0 pq e = Inr res"
    unfolding push_loop_only_size [OF R inv s refl] using res by (simp add: push_def)
  from push_loop_result [OF R c inv s this] show ?thesis
    unfolding push_result_def by (fastforce dest: only_size_eq split: prod.splits if_splits)
qed

section \<open>Return\<close>

lemma unat_le_iff_word: "(a::'a::len word) \<le> b \<longleftrightarrow> unat a \<le> unat b"
  by (rule word_le_nat_alt)

text \<open>
  After the first, immediate retry every sleep lasts at least ten milliseconds, so the
  loop gives up after at most \<open>blockWait div 10 + 2\<close> sleeps.
\<close>

lemma push_loop_returns:
  assumes bw: "unat bw < 2 ^ 64 - 100" and act: "\<And>p m e. act p m e \<noteq> Inl Blocked"
  shows "(unat bw - unat tw + 9) div 10 \<le> length script \<Longrightarrow>
    10 \<le> unat wait \<Longrightarrow> push_loop R act bw script wait tw pq e \<noteq> Inl Blocked"
proof (induction script arbitrary: wait tw pq)
  case Nil
  then have "unat bw \<le> unat tw" by simp
  then have "\<not> tw < bw" by (simp add: word_less_nat_alt)
  then show ?case by (simp add: push_loop_timeout)
next
  case (Cons f script)
  show ?case
  proof (cases "tw < bw")
    case False
    then show ?thesis by (simp add: push_loop_timeout)
  next
    case tw: True
    obtain oi b where al: "alloc (pq_pb pq) = (oi, b)" by (cases "alloc (pq_pb pq)")
    show ?thesis
    proof (cases oi)
      case (Some i)
      have "push_packet R act i p1 e \<noteq> Inl Blocked" for p1
        using act by (auto simp: push_packet_def ebind_eq_Inl Let_def split: prod.splits if_splits)
      then show ?thesis using al Some by (simp add: push_loop_got [OF tw])
    next
      case None
      with al have al: "alloc (pq_pb pq) = (None, b)" by simp
      let ?w = "min wait 100"
      have w: "unat ?w \<le> 100" "10 \<le> unat ?w"
        using Cons.prems(2) by (auto simp: min_def word_le_nat_alt)
      have tb: "unat tw < unat bw" using tw by (simp add: word_less_nat_alt)
      have tw1: "unat (tw + ?w) = unat tw + unat ?w"
        using w(1) tb bw by (intro unat_add_small) simp
      have w1: "unat (?w + 10) = unat ?w + 10"
        using w(1) by (subst unat_add_small) auto
      have "push_loop R act bw script (?w + 10) (tw + ?w)
          (f ?w (pq\<lparr>pq_ps := incAllocFailed (pq_ps pq)\<rparr>)) e \<noteq> Inl Blocked"
      proof (rule Cons.IH)
        show "(unat bw - unat (tw + ?w) + 9) div 10 \<le> length script"
          using Cons.prems(1) w(2) tb unfolding tw1 by simp
        show "10 \<le> unat (?w + 10)" using w1 by simp
      qed
      then show ?thesis by (simp add: push_loop_full(2) [OF tw al])
    qed
  qed
qed

lemma push_returns:
  assumes bw: "unat (pq_blockWait pq) < 2 ^ 64 - 100" and act: "\<And>p m e. act p m e \<noteq> Inl Blocked"
    and l: "unat (pq_blockWait pq) div 10 + 2 \<le> length script"
  shows "push R act script pq e \<noteq> Inl Blocked"
proof (cases "0 < pq_blockWait pq \<and> fst (alloc (pq_pb pq)) = None")
  case True
  then obtain b where al: "alloc (pq_pb pq) = (None, b)" by (cases "alloc (pq_pb pq)") auto
  obtain f script' where s: "script = f # script'" using l by (cases script) auto
  have w: "10 \<le> unat (10 :: size_t)" by simp
  show ?thesis
    using push_loop_returns [where tw = 0 and wait = 10 and script = script' and R = R and e = e
        and act = act and pq = "f 0 (pq\<lparr>pq_ps := incAllocFailed (pq_ps pq)\<rparr>)", OF bw act _ w]
      l True
    by (simp add: push_def s push_loop_full(2) [OF _ al])
next
  case False
  have one: "push_packet R act i p1 e \<noteq> Inl Blocked" for i p1
    using act by (auto simp: push_packet_def ebind_eq_Inl Let_def split: prod.splits if_splits)
  obtain oi b where al: "alloc (pq_pb pq) = (oi, b)" by (cases "alloc (pq_pb pq)")
  show ?thesis
  proof (cases "0 < pq_blockWait pq")
    case True
    with False al obtain i where "oi = Some i" by (cases oi) auto
    then show ?thesis using al one True by (simp add: push_def push_loop_got)
  qed (simp add: push_def push_loop_timeout)
qed

lemma pop_loop_returns:
  assumes act: "\<And>p m e. act p m e \<noteq> Inl Blocked"
  shows "True \<in> fst ` set script \<Longrightarrow> pop_loop R act script pq e \<noteq> Inl Blocked"
proof (induction script arbitrary: pq)
  case (Cons tf script)
  obtain t f where tf: "tf = (t, f)" by (cases tf)
  obtain oi q' where p: "rb_pop R (pq_q pq) = (oi, q')" by (cases "rb_pop R (pq_q pq)")
  have one: "pop_packet act i p1 e \<noteq> Inl Blocked" for i p1
    using act by (auto simp: pop_packet_def ebind_eq_Inl Let_def split: prod.splits)
  show ?case
    using Cons p tf one
    by (cases oi; cases t) (auto simp: pop_loop_some pop_loop_none(2,3))
qed simp

section \<open>Copying whole packets\<close>

text \<open>
  The producers of the program copy \<open>n\<close> bytes into the packet and return \<open>n\<close>:
  \<open>mem_store\<close> is that closure for given bytes.
\<close>

definition mem_store :: "bytes \<Rightarrow> 'e action" where
  "mem_store bs p m e =
     ebind (mem_write m (unat (buf p)) bs) (\<lambda>m'. Inr (of_nat (length bs), m', e))"

lemma sint_of_nat_pos: "0 < n \<Longrightarrow> n < 2 ^ 63 \<Longrightarrow> 0 < sint (of_nat n :: size_t)"
  by (subst sint_eq_unat_small) (auto simp: unat_of_nat)

lemma pq_inv_new:
  assumes "ring_laws R" "unat mtu + 8 < 2 ^ 64" "unat (packetSize_of mtu) * unat n < 2 ^ 64"
  shows "pq_inv R (PacketQueue_new R raw now mtu n bw)"
  using wf_pb_new [OF assms(2,3), of raw] ring_new [OF assms(1)]
  by (simp add: pq_inv_def pq_slots_def pq_counts_def PacketQueue_new_def held_def Let_def)

lemma pq_inv_alloc_cases:
  assumes inv: "pq_inv R pq"
  shows "fst (alloc (pq_pb pq)) = None \<longleftrightarrow> length (pq_queue R pq) = capacity (pq_pb pq)"
proof -
  have "wf_pb (pq_pb pq)" "distinct (rb_content R (pq_q pq))"
    "held used_at (pq_pb pq) = set (rb_content R (pq_q pq))"
    using inv by (auto simp: pq_inv_def pq_slots_def)
  then show ?thesis
    using pb_pool.get_fails_iff [of "pq_pb pq"] by (simp add: pq_queue_def distinct_card)
qed

lemma push_store:
  assumes R: "ring_laws R" and inv: "pq_inv R pq" and bw: "0 < pq_blockWait pq"
    and room: "length (pq_queue R pq) < capacity (pq_pb pq)"
    and bs: "bs \<noteq> []" "length bs \<le> unat (pb_mtu (pq_pb pq))" "length bs < 2 ^ 63"
    and eff: "\<And>p m. unat (maxSize p) = unat (pb_mtu (pq_pb pq)) \<Longrightarrow> act p m e = mem_store bs p m e'"
  shows "\<exists>pq'. push R act script pq e = Inr (True, pq', e') \<and> pq_inv R pq' \<and>
    pq_queue R pq' = pq_queue R pq @ [bs] \<and> pb_mtu (pq_pb pq') = pb_mtu (pq_pb pq)"
proof -
  obtain i b where al: "alloc (pq_pb pq) = (Some i, b)"
    using pq_inv_alloc_cases [OF inv] room by (cases "alloc (pq_pb pq)"; cases "fst (alloc (pq_pb pq))") auto
  have wf: "wf_pb (pq_pb pq)" using inv by (auto simp: pq_inv_def pq_slots_def)
  note g = pb_pool.get_Some [OF wf al] and d = alloc_SomeD [OF al]
  have wfb: "wf_pb b" and ib: "i < capacity b" using g by auto
  have mtu: "pb_mtu b = pb_mtu (pq_pb pq)" by (simp add: d(4))
  note sl = wf_pb_slot [OF wfb ib]
  let ?p = "packets b ! i"
  have mx: "unat (maxSize ?p) = unat (pb_mtu (pq_pb pq))" using sl(3) mtu by simp
  have "unat (buf ?p) + length bs \<le> length (buffer b)" using sl(1) bs(2) mx by linarith
  then obtain m where m: "mem_write (buffer b) (unat (buf ?p)) bs = Inr m" using mem_write_ok by blast
  have len: "unat (of_nat (length bs) :: size_t) = length bs" using bs(3) by (simp add: unat_of_nat)
  define act' where "act' = (\<lambda>p m (e1::'b). if p = ?p \<and> m = buffer b then mem_store bs p m e' else Inl Blocked)"
  have c: "push_contract act'"
    unfolding push_contract_def
  proof (intro allI impI)
    fix p m1 e1 ret m' e2
    assume "act' p m1 e1 = Inr (ret, m', e2)"
    then have p: "p = ?p" "mem_write m1 (unat (buf p)) bs = Inr m'" "ret = of_nat (length bs)"
      by (auto simp: act'_def mem_store_def ebind_eq_Inr split: if_splits)
    show "length m' = length m1 \<and>
        (\<forall>k < length m1. k < unat (buf p) \<or> unat (buf p) + unat (maxSize p) \<le> k \<longrightarrow> m' ! k = m1 ! k) \<and>
        (0 < sint ret \<longrightarrow> unat ret \<le> unat (maxSize p))"
      using mem_write_length [OF p(2)] mem_write_nth [OF p(2)] p(1,3) mx bs(2) len by auto
  qed
  have a': "act' ?p (buffer b) e = Inr (of_nat (length bs), m, e')"
    and a: "act ?p (buffer b) e = Inr (of_nat (length bs), m, e')"
    using m eff [OF mx] by (simp_all add: act'_def mem_store_def)
  note st = push_alloc_inv [OF R inv c al a']
  have pos: "0 < sint (of_nat (length bs) :: size_t)"
    using bs by (intro sint_of_nat_pos) auto
  have same: "push_packet R act i (pq\<lparr>pq_pb := b, pq_ps := incAllocOk (pq_ps pq)\<rparr>) e =
      push_packet R act' i (pq\<lparr>pq_pb := b, pq_ps := incAllocOk (pq_ps pq)\<rparr>) e"
    by (simp add: push_packet_def a a')
  have "take (length bs) (drop (unat (buf ?p)) m) = bs"
    using mem_read_write_same [OF m] by (simp add: mem_read_def split: if_splits)
  then show ?thesis
    using st pos len same mtu by (simp add: push_def push_loop_got [OF bw al]) (simp add: pushed_def)
qed

lemma pop_head:
  assumes R: "ring_laws R" and inv: "pq_inv R pq" and q: "pq_queue R pq = bs # rest"
    and eff: "\<And>p m. unat (psize p) = length bs \<Longrightarrow> mem_read m (unat (buf p)) (length bs) = Inr bs \<Longrightarrow>
      act p m e = Inr (ret, m, e')"
  shows "\<exists>pq'. pop R act script pq e = Inr (True, pq', e') \<and> pq_inv R pq' \<and>
    pq_queue R pq' = rest \<and> pb_mtu (pq_pb pq') = pb_mtu (pq_pb pq)"
proof -
  obtain i q' where p: "rb_pop R (pq_q pq) = (Some i, q')"
    using q rb_pop_none_inv(2) [OF R inv] by (cases "rb_pop R (pq_q pq)"; cases "fst (rb_pop R (pq_q pq))") auto
  let ?pq = "pq\<lparr>pq_q := q'\<rparr>" and ?p = "packets (pq_pb pq) ! i"
  have sl: "pq_slots R {} pq" using inv by (simp add: pq_inv_def)
  note rp = rb_pop_slots [OF R sl p]
  have wf: "wf_pb (pq_pb pq)" and ic: "i < capacity (pq_pb pq)" and
    sz: "unat (psize ?p) \<le> unat (pb_mtu (pq_pb pq))"
    using sl pq_slots_room(1) [OF rp(1) singletonI] ring_popD(3) [OF R p] by (auto simp: pq_slots_def)
  have pl: "payload (pq_pb pq) i = bs" and rest: "pq_queue R ?pq = rest" using rp(2) q by auto
  have fit: "unat (buf ?p) + unat (psize ?p) \<le> length (buffer (pq_pb pq))"
    using wf_pb_slot(1,3) [OF wf ic] sz by simp
  then have len: "unat (psize ?p) = length bs" using pl by (auto simp: payload_def)
  with fit pl have rd: "mem_read (buffer (pq_pb pq)) (unat (buf ?p)) (length bs) = Inr bs"
    by (simp add: mem_read_def payload_def)
  have a: "act ?p (buffer (pq_pb pq)) e = Inr (ret, buffer (pq_pb pq), e')" by (rule eff [OF len rd])
  have "pop_packet act i ?pq e = Inr (True, popped i ret ?pq, e')"
    by (simp add: pop_packet_def popped_def a Let_def)
  then have "pop R act script pq e = Inr (True, popped i ret ?pq, e')"
    by (simp add: pop_def pop_loop_some [OF p])
  moreover have "pq_inv R (popped i ret ?pq)"
    using popped_slots(1) [OF rp(1) singletonI] popped_counts [OF R _ p] inv by (simp add: pq_inv_def)
  moreover have "pq_queue R (popped i ret ?pq) = rest"
    using popped_slots(2) [OF rp(1) singletonI] rest by simp
  moreover have "pb_mtu (pq_pb (popped i ret ?pq)) = pb_mtu (pq_pb pq)" by (simp add: popped_def)
  ultimately show ?thesis by blast
qed

lemma pq_inv_new16:
  fixes mtu n :: "16 word"
  assumes "ring_laws R"
  shows "pq_inv R (PacketQueue_new R raw now (ucast mtu) (ucast n) bw)"
  using wf_pb_new16 [of raw mtu n] ring_new [OF assms]
  by (simp add: pq_inv_def pq_slots_def pq_counts_def PacketQueue_new_def held_def Let_def)

lemma pq_new_sel [simp]:
  "pq_blockWait (PacketQueue_new R raw now mtu n bw) = bw"
  "pq_pb (PacketQueue_new R raw now mtu n bw) = PacketBuffer_new raw mtu n"
  "pq_ps (PacketQueue_new R raw now mtu n bw) = PacketStatistic_new now"
  "pq_q (PacketQueue_new R raw now mtu n bw) = rb_new R n"
  by (simp_all add: PacketQueue_new_def)

lemma list_ring_default: "pq_inv list_ring (PacketQueue_new list_ring raw now 1500 64 bw)"
  using pq_inv_new16 [OF list_ring_laws, of raw now 1500 64 bw] by simp

section \<open>Sequences of calls\<close>

text \<open>
  What a queue can be asked to do, and a run of such calls. The captured state \<open>'e\<close> is
  handed from one closure to the next.
\<close>

datatype ('q, 'e) queue_call =
    PushCall "'e action" "'q sleeps"
  | PopCall "'e action" "'q waits"
  | StatCall time_point

fun queue_calls ::
  "'q ring_api \<Rightarrow> ('q, 'e) queue_call list \<Rightarrow> 'q PacketQueue \<Rightarrow> 'e \<Rightarrow> ('q PacketQueue \<times> 'e) exec" where
  "queue_calls R [] pq e = Inr (pq, e)"
| "queue_calls R (PushCall act script # cs) pq e =
     ebind (push R act script pq e) (\<lambda>(_, pq', e'). queue_calls R cs pq' e')"
| "queue_calls R (PopCall act script # cs) pq e =
     ebind (pop R act script pq e) (\<lambda>(_, pq', e'). queue_calls R cs pq' e')"
| "queue_calls R (StatCall now # cs) pq e = queue_calls R cs (snd (getStatistic now pq)) e"

fun call_ok :: "'q ring_api \<Rightarrow> ('q, 'e) queue_call \<Rightarrow> bool" where
  "call_ok R (PushCall act script) \<longleftrightarrow> push_contract act \<and> sleeps_ok R script"
| "call_ok R (PopCall act script) \<longleftrightarrow> pop_contract act \<and> waits_ok R script"
| "call_ok R (StatCall now) \<longleftrightarrow> True"

lemma getStatistic_inv:
  assumes "pq_inv R pq"
  shows "pq_inv R (snd (getStatistic now pq))" "pq_queue R (snd (getStatistic now pq)) = pq_queue R pq"
  using pq_inv_counters(5) [OF assms, of now]
  by (simp_all add: getStatistic_def pq_queue_def split_beta)

lemma push_inv:
  assumes "ring_laws R" "push_contract act" "pq_inv R pq" "sleeps_ok R script"
    "push R act script pq e = Inr (r, pq', e')"
  shows "pq_inv R pq'"
  using push_loop_result [where e = e, OF assms(1-4) assms(5) [unfolded push_def]]
  by (simp add: push_result_def)

lemma pop_inv:
  assumes "ring_laws R" "pop_contract act" "pq_inv R pq" "waits_ok R script"
    "pop R act script pq e = Inr (r, pq', e')"
  shows "pq_inv R pq'"
  using pop_loop_result [where e = e, OF assms(1-4) assms(5) [unfolded pop_def]]
  by (simp add: pop_result_def)

lemma queue_calls_inv:
  assumes R: "ring_laws R"
  shows "queue_calls R cs pq e = Inr (pq', e') \<Longrightarrow> list_all (call_ok R) cs \<Longrightarrow>
    pq_inv R pq \<Longrightarrow> pq_inv R pq'"
proof (induction cs arbitrary: pq e)
  case (Cons c cs)
  show ?case
  proof (cases c)
    case (PushCall act script)
    with Cons.prems(1) obtain r pq1 e1 where p: "push R act script pq e = Inr (r, pq1, e1)"
      "queue_calls R cs pq1 e1 = Inr (pq', e')"
      by (auto simp: ebind_eq_Inr)
    then show ?thesis
      using Cons.IH [OF p(2)] Cons.prems(2,3) PushCall push_inv [OF R _ _ _ p(1)] by simp
  next
    case (PopCall act script)
    with Cons.prems(1) obtain r pq1 e1 where p: "pop R act script pq e = Inr (r, pq1, e1)"
      "queue_calls R cs pq1 e1 = Inr (pq', e')"
      by (auto simp: ebind_eq_Inr)
    then show ?thesis
      using Cons.IH [OF p(2)] Cons.prems(2,3) PopCall pop_inv [OF R _ _ _ p(1)] by simp
  next
    case (StatCall now)
    with Cons.prems show ?thesis
      by (intro Cons.IH [of "snd (getStatistic now pq)" e]) (simp_all add: getStatistic_inv)
  qed
qed simp

text \<open>The closure that reads a whole packet, as the consumers of the program do.\<close>

definition mem_fetch :: "bytes list action" where
  "mem_fetch p m out =
     ebind (mem_read m (unat (buf p)) (unat (psize p))) (\<lambda>bs. Inr (1, m, out @ [bs]))"

lemma mem_fetch_contract: "pop_contract mem_fetch"
  by (auto simp: pop_contract_def mem_fetch_def ebind_eq_Inr)

lemma alloc_keeps:
  "alloc b = (r, b') \<Longrightarrow> pb_size b' = pb_size b \<and> pb_mtu b' = pb_mtu b"
  using alloc_SomeD(4) [of b _ b'] alloc_NoneD(1) [of b b'] by (cases r) auto

lemma push_packet_keeps:
  "push_packet R act i pq e = Inr (r, pq', e') \<Longrightarrow>
     pq_blockWait pq' = pq_blockWait pq \<and> pb_size (pq_pb pq') = pb_size (pq_pb pq) \<and>
     pb_mtu (pq_pb pq') = pb_mtu (pq_pb pq)"
  by (auto simp: push_packet_def ebind_eq_Inr Let_def pb_setSize_def pb_free_def
      split: if_splits prod.splits)

text \<open>Neither call touches the size of the pool or the waiting time.\<close>

lemma push_keeps:
  assumes "push R act [] pq e = Inr (r, pq', e')"
  shows "pq_blockWait pq' = pq_blockWait pq" "capacity (pq_pb pq') = capacity (pq_pb pq)"
    "pb_mtu (pq_pb pq') = pb_mtu (pq_pb pq)"
proof -
  obtain oi b where al: "alloc (pq_pb pq) = (oi, b)" by (cases "alloc (pq_pb pq)")
  have "pq_blockWait pq' = pq_blockWait pq \<and> pb_size (pq_pb pq') = pb_size (pq_pb pq) \<and>
    pb_mtu (pq_pb pq') = pb_mtu (pq_pb pq)"
    using assms alloc_keeps [OF al] al push_packet_keeps
    by (auto simp: push_def push_loop.simps Let_def split: if_splits option.splits
        dest!: push_packet_keeps)
  then show "pq_blockWait pq' = pq_blockWait pq" "capacity (pq_pb pq') = capacity (pq_pb pq)"
    "pb_mtu (pq_pb pq') = pb_mtu (pq_pb pq)"
    by (simp_all add: capacity_def)
qed

lemma queue_calls_store:
  assumes R: "ring_laws R"
  shows "pq_inv R pq \<Longrightarrow> 0 < pq_blockWait pq \<Longrightarrow>
    length (pq_queue R pq) + length bss \<le> capacity (pq_pb pq) \<Longrightarrow>
    (\<And>bs. bs \<in> set bss \<Longrightarrow> bs \<noteq> [] \<and> length bs \<le> unat (pb_mtu (pq_pb pq)) \<and> length bs < 2 ^ 63) \<Longrightarrow>
    \<exists>pq'. queue_calls R (map (\<lambda>bs. PushCall (mem_store bs) []) bss @ cs) pq e =
        queue_calls R cs pq' e \<and> pq_inv R pq' \<and> pq_queue R pq' = pq_queue R pq @ bss"
proof (induction bss arbitrary: pq)
  case (Cons bs bss)
  have "\<exists>pq1. push R (mem_store bs) [] pq e = Inr (True, pq1, e) \<and> pq_inv R pq1 \<and>
      pq_queue R pq1 = pq_queue R pq @ [bs] \<and> pb_mtu (pq_pb pq1) = pb_mtu (pq_pb pq)"
    by (rule push_store [OF R Cons.prems(1,2)]) (use Cons.prems(3,4) in auto)
  then obtain pq1 where p: "push R (mem_store bs) [] pq e = Inr (True, pq1, e)" "pq_inv R pq1"
    "pq_queue R pq1 = pq_queue R pq @ [bs]"
    by blast
  note k = push_keeps [OF p(1)]
  have "\<exists>pq'. queue_calls R (map (\<lambda>bs. PushCall (mem_store bs) []) bss @ cs) pq1 e =
        queue_calls R cs pq' e \<and> pq_inv R pq' \<and> pq_queue R pq' = pq_queue R pq1 @ bss"
    by (rule Cons.IH [OF p(2)]) (use Cons.prems(2-4) p(3) k in auto)
  then show ?case by (simp add: p(1,3))
qed auto

lemma queue_calls_fetch:
  assumes R: "ring_laws R"
  shows "pq_inv R pq \<Longrightarrow> pq_queue R pq = bss \<Longrightarrow>
    \<exists>pq'. queue_calls R (replicate (length bss) (PopCall mem_fetch []) @ cs) pq out =
        queue_calls R cs pq' (out @ bss) \<and> pq_inv R pq' \<and> pq_queue R pq' = []"
proof (induction bss arbitrary: pq out)
  case (Cons bs bss)
  have "\<exists>pq1. pop R mem_fetch [] pq out = Inr (True, pq1, out @ [bs]) \<and> pq_inv R pq1 \<and>
      pq_queue R pq1 = bss \<and> pb_mtu (pq_pb pq1) = pb_mtu (pq_pb pq)"
    by (rule pop_head [OF R Cons.prems]) (simp add: mem_fetch_def)
  then obtain pq1 where p: "pop R mem_fetch [] pq out = Inr (True, pq1, out @ [bs])"
    "pq_inv R pq1" "pq_queue R pq1 = bss"
    by blast
  from Cons.IH [OF p(2,3), of "out @ [bs]"] show ?case by (simp add: p(1))
qed auto

section \<open>Properties\<close>





text \<open>C7: a first-in first-out channel that keeps the bytes. On a new queue of the server's
  option types, storing up to \<open>qsize\<close> non-empty packets of at most \<open>mtu\<close> bytes and
  then popping as many times hands the consumer exactly the stored packets, in order and
  byte for byte, and leaves the queue empty.\<close>
theorem queue_roundtrip:
  fixes mtu n :: "16 word"
  assumes "ring_laws R" "0 < bw" "length bss \<le> unat n"
    "\<And>bs. bs \<in> set bss \<Longrightarrow> bs \<noteq> [] \<and> length bs \<le> unat mtu"
  shows "\<exists>pq. queue_calls R (map (\<lambda>bs. PushCall (mem_store bs) []) bss @
         replicate (length bss) (PopCall mem_fetch []))
       (PacketQueue_new R raw now (ucast mtu) (ucast n) bw) [] = Inr (pq, bss) \<and>
     pq_queue R pq = []"
proof -
  let ?pq = "PacketQueue_new R raw now (ucast mtu) (ucast n) bw"
  let ?fetch = "replicate (length bss) (PopCall mem_fetch [])"
  note new = pq_inv_new16 [OF assms(1), of raw now mtu n bw]
  have f: "pq_blockWait ?pq = bw" "capacity (pq_pb ?pq) = unat n" "pq_queue R ?pq = []"
    "unat (pb_mtu (pq_pb ?pq)) = unat mtu"
    using ring_new [OF assms(1)]
    by (simp_all add: PacketQueue_new_def pq_queue_def PacketBuffer_new_def capacity_def Let_def)
  have "\<exists>pq'. queue_calls R (map (\<lambda>bs. PushCall (mem_store bs) []) bss @ ?fetch) ?pq [] =
        queue_calls R ?fetch pq' [] \<and> pq_inv R pq' \<and> pq_queue R pq' = pq_queue R ?pq @ bss"
  proof (rule queue_calls_store [OF assms(1) new])
    show "bs \<noteq> [] \<and> length bs \<le> unat (pb_mtu (pq_pb ?pq)) \<and> length bs < 2 ^ 63"
      if "bs \<in> set bss" for bs
      using assms(4) [OF that] f(4) unat16_less [of mtu] by auto
  qed (use assms(2,3) f in auto)
  then obtain pq' where s: "queue_calls R (map (\<lambda>bs. PushCall (mem_store bs) []) bss @ ?fetch) ?pq [] =
        queue_calls R ?fetch pq' []" "pq_inv R pq'" "pq_queue R pq' = bss"
    using f(3) by auto
  from queue_calls_fetch [OF assms(1) s(2,3), of "[]" "[]"] s(1) show ?thesis by auto
qed

theorem queue_roundtrip_witness:
  "\<exists>pq. queue_calls list_ring (map (\<lambda>bs. PushCall (mem_store bs) []) [''one'', ''two!''] @
         replicate (length [''one'', ''two!'']) (PopCall mem_fetch []))
       (PacketQueue_new list_ring (\<lambda>_. CHR 0xFF) 0 (ucast (16 :: 16 word)) (ucast (2 :: 16 word)) 100) [] =
         Inr (pq, [''one'', ''two!'']) \<and>
     pq_queue list_ring pq = []"
  by (rule queue_roundtrip [OF list_ring_laws]) auto

text \<open>C27: the counters agree with what happened. After any sequence of pushes, pops and
  statistic readings that respect the closures' contracts, whatever the threads did while
  calls slept: every allocation ended as a successful push or as a failed action, the
  branch that counts \<open>pushFailed\<close> was never taken, what was pushed and not popped is what
  the ring holds, in packets and in bytes, and exactly those packets are marked used.\<close>
theorem queue_counters_agree:
  fixes mtu n :: "16 word"
  assumes "ring_laws R" "list_all (call_ok R) cs"
    "queue_calls R cs (PacketQueue_new R raw now (ucast mtu) (ucast n) bw) e = Inr (pq, e')"
  defines "count \<equiv> lifetime (pq_ps pq)"
  shows "count AllocOk = count PushOk + count PushActionFailed \<and>
    count PushFailed = 0 \<and>
    count PushOk = count PopOk + count PopActionFailed + of_nat (length (pq_queue R pq)) \<and>
    count PushPacketSize = count PopPacketSize +
       sum_list (map (\<lambda>i. psize (packets (pq_pb pq) ! i)) (rb_content R (pq_q pq))) \<and>
    held used_at (pq_pb pq) = set (rb_content R (pq_q pq)) \<and>
    distinct (rb_content R (pq_q pq))"
  using queue_calls_inv [OF assms(1,3,2) pq_inv_new16 [OF assms(1)]]
  by (auto simp: pq_inv_def pq_counts_def pq_slots_def Let_def pq_queue_def count_def)

theorem queue_counters_agree_witness:
  defines "act \<equiv> \<lambda>p m e. if maxSize p = 0 then Inr (0, m, e) else mem_store ''A'' p m e"
  shows "\<exists>pq. queue_calls list_ring [PushCall act [], StatCall 5, PopCall mem_fetch []]
      (PacketQueue_new list_ring (\<lambda>_. CHR 0x00) 0 (ucast (9 :: 16 word)) (ucast (3 :: 16 word)) 100)
      [] = Inr (pq, [''A'']) \<and>
    lifetime (pq_ps pq) PushOk = lifetime (pq_ps pq) PopOk + lifetime (pq_ps pq) PopActionFailed"
proof -
  let ?new = "PacketQueue_new list_ring (\<lambda>_. CHR 0x00) 0 (ucast (9 :: 16 word)) (ucast (3 :: 16 word)) 100"
  let ?cs = "[PushCall act [], StatCall 5, PopCall mem_fetch []]"
  note inv = pq_inv_new16 [OF list_ring_laws, of "\<lambda>_. CHR 0x00" 0 9 3 100]
  have "\<exists>pq. push list_ring act [] ?new [] = Inr (True, pq, []) \<and> pq_inv list_ring pq \<and>
      pq_queue list_ring pq = pq_queue list_ring ?new @ [''A''] \<and>
      pb_mtu (pq_pb pq) = pb_mtu (pq_pb ?new)"
  proof (rule push_store [OF list_ring_laws inv])
    show "act p m [] = mem_store ''A'' p m []" if "unat (maxSize p) = unat (pb_mtu (pq_pb ?new))" for p m
      using that by (auto simp: act_def PacketBuffer_new_def Let_def)
  qed (simp_all add: PacketBuffer_new_def capacity_def Let_def pq_queue_def list_ring_def)
  moreover have "pq_queue list_ring ?new = []" by (simp add: pq_queue_def list_ring_def)
  ultimately obtain pq1 where
    p1: "push list_ring act [] ?new [] = Inr (True, pq1, [])" "pq_inv list_ring pq1"
      "pq_queue list_ring pq1 = [''A'']"
    by auto
  let ?pq2 = "snd (getStatistic 5 pq1)"
  note g = getStatistic_inv [OF p1(2), of 5]
  have "\<exists>pq. pop list_ring mem_fetch [] ?pq2 [] = Inr (True, pq, [] @ [''A'']) \<and> pq_inv list_ring pq \<and>
      pq_queue list_ring pq = [] \<and> pb_mtu (pq_pb pq) = pb_mtu (pq_pb ?pq2)"
  proof (rule pop_head [where ret = 1, OF list_ring_laws g(1)])
    show "mem_fetch p m [] = Inr (1, m, [] @ [''A''])"
      if "unat (psize p) = length ''A''" "mem_read m (unat (buf p)) (length ''A'') = Inr ''A''" for p m
      unfolding mem_fetch_def that(1) that(2) by simp
  qed (simp add: g(2) p1(3))
  then obtain pq where p2: "pop list_ring mem_fetch [] ?pq2 [] = Inr (True, pq, [''A''])"
    "pq_queue list_ring pq = []"
    by auto
  have run: "queue_calls list_ring ?cs ?new [] = Inr (pq, [''A''])"
    by (simp only: queue_calls.simps p1(1) p2(1) ebind_Inr prod.case)
  have "push_contract act"
    unfolding push_contract_def
  proof (intro allI impI)
    fix p m and e :: "bytes list" and ret m' e'
    assume "act p m e = Inr (ret, m', e')"
    then show "length m' = length m \<and>
        (\<forall>k < length m. k < unat (buf p) \<or> unat (buf p) + unat (maxSize p) \<le> k \<longrightarrow> m' ! k = m ! k) \<and>
        (0 < sint ret \<longrightarrow> unat ret \<le> unat (maxSize p))"
      using mem_write_length [of m "unat (buf p)" "''A''" m'] mem_write_nth [of m "unat (buf p)" "''A''" m']
        unat_gt_0 [of "maxSize p"]
      by (auto simp: act_def mem_store_def ebind_eq_Inr split: if_splits)
  qed
  then have "list_all (call_ok list_ring) ?cs"
    by (simp add: mem_fetch_contract sleeps_ok_def waits_ok_def)
  from queue_counters_agree [OF list_ring_laws this run] p2(2) run show ?thesis by auto
qed

lemma push_loop_idle:
  "alloc (pq_pb pq) = (None, pq_pb pq) \<Longrightarrow> tw < bw \<Longrightarrow>
     push_loop R act bw ((\<lambda>w pq. pq) # script) wait tw pq e =
     push_loop R act bw script (min wait 100 + 10) (tw + min wait 100)
       (pq\<lparr>pq_ps := incAllocFailed (pq_ps pq)\<rparr>) e"
  "alloc (pq_pb pq) = (None, pq_pb pq) \<Longrightarrow> tw < bw \<Longrightarrow>
     push_loop R act bw [] wait tw pq e = Inl Blocked"
  by (rule push_loop_full, assumption+)+

text \<open>A full queue makes the producer wait about \<open>blockWait\<close> milliseconds. With the
  100 ms of the tun device and no consumer, \<open>push\<close> finds every packet used, sleeps 0, 10,
  20, 30 and 40 ms, and then returns false without running its closure; the queue is
  unchanged but for five failed allocations and one timeout.\<close>
theorem push_full_times_out:
  assumes "pq_inv R pq" "length (pq_queue R pq) = capacity (pq_pb pq)" "pq_blockWait pq = 100"
  shows "push R act (replicate 5 (\<lambda>w pq. pq)) pq e =
      Inr (False, pq\<lparr>pq_ps := incPushTimeout (((incAllocFailed) ^^ 5) (pq_ps pq))\<rparr>, e) \<and>
    push R act (replicate 4 (\<lambda>w pq. pq)) pq e = Inl Blocked"
proof -
  have "alloc (pq_pb pq) = (None, pq_pb pq)"
    using pq_inv_alloc_cases [OF assms(1)] assms(2) alloc_NoneD(1) [of "pq_pb pq"]
    by (cases "alloc (pq_pb pq)") auto
  note idle = push_loop_idle [of "pq\<lparr>pq_ps := s\<rparr>" for s] push_loop_idle [of pq] this
  have r: "replicate 5 f = [f, f, f, f, f]" "replicate 4 f = [f, f, f, f]"
    "(g ^^ 5) x = g (g (g (g (g x))))" for f :: "size_t \<Rightarrow> 'a PacketQueue \<Rightarrow> 'a PacketQueue"
      and g :: "PacketStatistic \<Rightarrow> PacketStatistic" and x
    by (simp_all add: eval_nat_numeral)
  have c1: "push R act (replicate 5 (\<lambda>w pq. pq)) pq e =
      Inr (False, pq\<lparr>pq_ps := incPushTimeout (((incAllocFailed) ^^ 5) (pq_ps pq))\<rparr>, e)"
    unfolding r by (simp add: push_def assms(3) idle push_loop_timeout min_def)
  have c2: "push R act (replicate 4 (\<lambda>w pq. pq)) pq e = Inl Blocked"
    unfolding r by (simp add: push_def assms(3) idle min_def)
  show ?thesis using c1 c2 by blast
qed

theorem push_full_times_out_witness:
  "push list_ring (\<lambda>p m e. Inr (0, m, e)) (replicate 4 (\<lambda>w pq. pq))
     (PacketQueue_new list_ring (\<lambda>_. CHR 0x00) 0 (ucast (9 :: 16 word)) (ucast (0 :: 16 word)) 100) () =
   Inl Blocked"
proof (rule push_full_times_out [THEN conjunct2])
  show "pq_inv list_ring (PacketQueue_new list_ring (\<lambda>_. CHR 0x00) 0 (ucast (9 :: 16 word))
      (ucast (0 :: 16 word)) 100)"
    by (rule pq_inv_new16 [OF list_ring_laws])
qed (simp_all add: pq_queue_def list_ring_def)

text \<open>The timeout handed to \<open>select\<close> and \<open>setsockopt\<close> is the waiting time. For a
  \<open>blockWait\<close> below \<open>2 ^ 31\<close> ms the \<open>timeval\<close> is normalised and denotes exactly that
  many milliseconds.\<close>
theorem block_timeval_exact:
  assumes "unat (pq_blockWait pq) < 2 ^ 31"
  shows "case getBlockTimeval pq of (sec, usec) \<Rightarrow>
    0 \<le> sec \<and> 0 \<le> usec \<and> usec < 1000000 \<and>
    1000000 * sec + usec = 1000 * int (unat (pq_blockWait pq))"
proof -
  obtain n where n: "unat (pq_blockWait pq) = n" by simp
  have s: "sint (pq_blockWait pq) = int n"
    using assms n by (subst sint_eq_unat_small) auto
  have "int n < 2 ^ 31" using assms n by simp
  then have "signed_take_bit 31 (int n) = int n"
    by (intro signed_take_bit_int_eq_self) auto
  moreover have "uint (pq_blockWait pq) = int n" using n by (simp add: uint_nat)
  ultimately have u: "sint (ucast (pq_blockWait pq) :: 32 word) = int n"
    by (simp add: signed_ucast_eq)
  have "int n sdiv 1000 = int n div 1000" "int n smod 1000 = int n mod 1000"
    by (simp_all add: signed_divide_int_eq_divide_int signed_modulo_int_eq_modulo_int sgn_if)
  moreover have "int n div 1000 * 1000 + int n mod 1000 = int n" "0 \<le> int n div 1000"
    "0 \<le> int n mod 1000" "int n mod 1000 < 1000"
    by (simp_all add: pos_imp_zdiv_nonneg_iff)
  ultimately show ?thesis
    unfolding n by (simp only: getBlockTimeval_def s u prod.case) (intro conjI TrueI; linarith)
qed

theorem block_timeval_exact_witness:
  "case getBlockTimeval (PacketQueue_new list_ring (\<lambda>_. CHR 0x00) 0 100 5 2500) of (sec, usec) \<Rightarrow>
    0 \<le> sec \<and> 0 \<le> usec \<and> usec < 1000000 \<and> 1000000 * sec + usec = 2500000"
  using block_timeval_exact [of "PacketQueue_new list_ring (\<lambda>_. CHR 0x00) 0 100 5 2500"]
  by simp

end
