(* ===== verification/System_Cmd.thy ===== *)
theory System_Cmd
  imports Ext_Api
begin

unbundle bit_operations_syntax

text \<open>
  \<open>system_cmd.hpp\<close>: the command a \<open>SystemCmd\<close> describes, and \<open>run\<close>, which launches
  it, collects what it writes and waits for it. The operating system answers through a
  script: the two \<open>pipe\<close> calls, \<open>fork\<close>, the completions of the asynchronous reads on
  either pipe, and for every \<open>SIGCHLD\<close> the results of the \<open>waitpid\<close> loop. A chain of
  handlers whose script ends before it stops re-arming itself leaves
  \<open>io_service.run()\<close> waiting, which is \<open>Blocked\<close>.
\<close>

section \<open>Describing a command\<close>

record SystemCmd =
  sc_args :: "string list"
  sc_envs :: "string list"
  sc_exec :: string
  sc_status :: "int option"

definition getStatus :: "SystemCmd \<Rightarrow> int option" where
  [simp]: "getStatus c = sc_status c"

definition arg :: "string \<Rightarrow> SystemCmd \<Rightarrow> SystemCmd" where
  "arg part c = c\<lparr>sc_args := sc_args c @ [part]\<rparr>"

definition arg_num :: "size_t \<Rightarrow> SystemCmd \<Rightarrow> SystemCmd" where
  "arg_num n c = c\<lparr>sc_args := sc_args c @ [to_string n]\<rparr>"

definition SystemCmd_new :: "string \<Rightarrow> SystemCmd" where
  "SystemCmd_new cmd = arg cmd \<lparr>sc_args = [], sc_envs = [], sc_exec = cmd, sc_status = None\<rparr>"

definition env :: "string \<Rightarrow> string \<Rightarrow> SystemCmd \<Rightarrow> SystemCmd" where
  "env key val c = c\<lparr>sc_envs := sc_envs c @ [key @ ''='' @ val]\<rparr>"

text \<open>\<open>.arg(a1).arg(a2)...\<close>\<close>

definition args :: "string list \<Rightarrow> SystemCmd \<Rightarrow> SystemCmd" where
  "args parts c = foldl (\<lambda>c p. arg p c) c parts"

text \<open>
  \<open>dump\<close>: a separator is written before every part once \<open>space\<close> has been set, the
  first argument (the command itself) is skipped.
\<close>

fun dump_parts :: "string \<Rightarrow> string list \<Rightarrow> string \<times> string" where
  "dump_parts space [] = ([], space)"
| "dump_parts space (v # vs) =
     (let (s, sp) = dump_parts '' '' vs in (space @ v @ s, sp))"

fun dump_args :: "bool \<Rightarrow> string \<Rightarrow> string list \<Rightarrow> string" where
  "dump_args first space [] = []"
| "dump_args first space (v # vs) =
     (if \<not> first then space @ v @ dump_args False '' '' vs
      else dump_args False space vs)"

definition show_int :: "int \<Rightarrow> string" where
  "show_int i = (if i < 0 then CHR ''-'' # show_nat (nat (- i)) else show_nat (nat i))"

definition dump :: "SystemCmd \<Rightarrow> string" where
  "dump c =
     (let (es, space) = dump_parts '''' (sc_envs c);
          s1 = es @ space @ sc_exec c;
          s2 = s1 @ dump_args True '' '' (sc_args c)
      in (case sc_status c of None \<Rightarrow> s2 | Some st \<Rightarrow> s2 @ ''=>'' @ show_int st))"

section \<open>Pipes and descriptors\<close>

text \<open>\<open>O_NONBLOCK\<close> of Linux. \<open>nonBlocking\<close> on the status flags of a descriptor.\<close>

definition O_NONBLOCK :: "32 word" where
  "O_NONBLOCK = 2048"

definition nonBlocking :: "32 word \<Rightarrow> 32 word" where
  "nonBlocking saved_flags = saved_flags AND NOT O_NONBLOCK"

text \<open>The flag word that \<open>startOnTun\<close> of \<open>tun_device.hpp\<close> sets on the tun descriptor.\<close>

definition set_nonblock :: "32 word \<Rightarrow> 32 word" where
  "set_nonblock flags = flags OR O_NONBLOCK"

type_synonym pipe_fds = "int \<times> int"

definition Pipe_create :: "pipe_fds option \<Rightarrow> string + pipe_fds" where
  "Pipe_create answer =
     (case answer of None \<Rightarrow> Inl ''Can't create the pipe'' | Some fds \<Rightarrow> Inr fds)"

definition getRead :: "pipe_fds \<Rightarrow> int" where
  [simp]: "getRead p = fst p"

definition getWrite :: "pipe_fds \<Rightarrow> int" where
  [simp]: "getWrite p = snd p"

text \<open>A pipe's \<open>nonBlocking\<close>, on the status flags of the descriptors.\<close>

definition Pipe_nonBlocking :: "pipe_fds \<Rightarrow> (int \<Rightarrow> 32 word) \<Rightarrow> int \<Rightarrow> 32 word" where
  "Pipe_nonBlocking p flags = flags(getRead p := nonBlocking (flags (getRead p)))"

section \<open>Running a command\<close>

record SystemResult =
  sr_sout :: string
  sr_serr :: string
  sr_cmd :: string
  sr_ok :: bool
  sr_statusCode :: "32 word"
  sr_exitCode :: int
  sr_waitPid :: int

text \<open>
  The constructor creates the two empty streams and leaves the other members
  indeterminate; \<open>junk\<close> is what the memory holds.
\<close>

definition SystemResult_new :: "SystemResult \<Rightarrow> SystemResult" where
  "SystemResult_new junk = junk\<lparr>sr_sout := [], sr_serr := [], sr_cmd := []\<rparr>"

definition SystemResult_err :: "SystemResult \<Rightarrow> SystemResult" where
  "SystemResult_err junk = (SystemResult_new junk)\<lparr>sr_ok := False\<rparr>"

definition getSout :: "SystemResult \<Rightarrow> string" where
  [simp]: "getSout sr = sr_sout sr"

definition getSerr :: "SystemResult \<Rightarrow> string" where
  [simp]: "getSerr sr = sr_serr sr"

datatype read_code = ReadOk | ReadEof | ReadError

fun register_read :: "(read_code \<times> bytes) list \<Rightarrow> string \<Rightarrow> string exec" where
  "register_read [] output = Inl Blocked"
| "register_read ((ec, bs) # evs) output =
     (if ec = ReadEof \<or> ec = ReadOk then
        let output' = output @ bs in
        if ec = ReadOk then register_read evs output' else Inr output'
      else Inr output)"

definition WIFEXITED :: "32 word \<Rightarrow> bool" where
  "WIFEXITED status \<longleftrightarrow> status AND 0x7f = 0"

definition WEXITSTATUS :: "32 word \<Rightarrow> int" where
  "WEXITSTATUS status = uint (drop_bit 8 (status AND 0xff00))"

text \<open>\<open>while (waitpid(pid, &statusCode, WNOHANG) > 0) {}\<close>\<close>

fun waitpid_loop :: "(int \<times> 32 word) list \<Rightarrow> 32 word \<Rightarrow> 32 word exec" where
  "waitpid_loop [] st = Inl Blocked"
| "waitpid_loop ((ret, st') # ws) st = (if 0 < ret then waitpid_loop ws st' else Inr st)"

fun handleSigChild :: "(int \<times> 32 word) list list \<Rightarrow> SystemResult \<Rightarrow> SystemResult exec" where
  "handleSigChild [] sr = Inl Blocked"
| "handleSigChild (ws # sigs) sr =
     (if 0 < sr_waitPid sr then
        ebind (waitpid_loop ws (sr_statusCode sr)) (\<lambda>st.
          let sr1 = sr\<lparr>sr_statusCode := st\<rparr> in
          if WIFEXITED st then Inr (sr1\<lparr>sr_exitCode := WEXITSTATUS st\<rparr>)
          else handleSigChild sigs sr1)
      else Inr sr)"

record os_script =
  os_pipe_out :: "pipe_fds option"
  os_pipe_err :: "pipe_fds option"
  os_fork :: int
  os_out :: "(read_code \<times> bytes) list"
  os_err :: "(read_code \<times> bytes) list"
  os_sigchld :: "(int \<times> 32 word) list list"

text \<open>
  What a child that cannot be started leaves behind (\<open>launch\<close>): the same marker on both
  streams and exit status 42. \<open>run\<close> recognises exactly this.
\<close>

definition exec_failed :: string where
  "exec_failed = ''[exec failed]''"

definition run_ok :: "SystemResult \<Rightarrow> bool" where
  "run_ok sr \<longleftrightarrow> \<not> (sr_exitCode sr = 42 \<and> sr_sout sr = sr_serr sr \<and> sr_sout sr = exec_failed)"

definition run :: "SystemResult \<Rightarrow> os_script \<Rightarrow> SystemCmd \<Rightarrow> SystemResult exec" where
  "run junk os c =
     (let sr = SystemResult_new junk in
      case (Pipe_create (os_pipe_out os), Pipe_create (os_pipe_err os)) of
        (Inr stdoutPipe, Inr stderrPipe) \<Rightarrow>
          let sr1 = sr\<lparr>sr_waitPid := os_fork os\<rparr> in
          ebind (register_read (os_out os) (sr_sout sr1)) (\<lambda>out.
          ebind (register_read (os_err os) (sr_serr sr1)) (\<lambda>err.
          ebind (handleSigChild (os_sigchld os) (sr1\<lparr>sr_sout := out, sr_serr := err\<rparr>)) (\<lambda>sr2.
          Inr (sr2\<lparr>sr_ok := run_ok sr2, sr_cmd := dump c\<rparr>))))
      | _ \<Rightarrow> Inr (sr\<lparr>sr_ok := False\<rparr>))"

text \<open>
  Nothing sets the status of a command, so its dump never shows one, and \<open>nonBlocking\<close> of a
  pipe leaves both ends blocking, whatever they were.
\<close>

lemma getStatus_none:
  "getStatus (SystemCmd_new cmd) = None" "getStatus (arg p c) = getStatus c"
  "getStatus (arg_num n c) = getStatus c" "getStatus (env k v c) = getStatus c"
  by (simp_all add: SystemCmd_new_def arg_def arg_num_def env_def)

lemma Pipe_nonBlocking_blocks:
  "Pipe_nonBlocking p flags fd =
     (if fd = getRead p then flags fd AND NOT O_NONBLOCK else flags fd)"
  by (simp add: Pipe_nonBlocking_def nonBlocking_def)

section \<open>The calls of the two processes\<close>

text \<open>
  \<open>launch\<close> as the list of system calls that the process makes in which \<open>fork\<close> returned
  \<open>pid\<close>; \<open>started\<close> says whether \<open>execve\<close> succeeds, so that nothing after it is run.
  \<open>Say\<close> is a write to a descriptor.
\<close>

datatype sys_call =
    CloseFd int
  | Dup2 int int
  | Execve string "string list" "string list"
  | Say int string
  | ExitWith int

definition launch :: "SystemCmd \<Rightarrow> int \<Rightarrow> int \<Rightarrow> int \<Rightarrow> bool \<Rightarrow> sys_call list" where
  "launch c stdOut stdErr pid started =
     (if pid = 0
      then [CloseFd 1, Dup2 stdOut 1, CloseFd 2, Dup2 stdErr 2,
            Execve (c_string (sc_exec c)) (map c_string (sc_args c)) (map c_string (sc_envs c))] @
           (if started then [] else [Say 1 exec_failed, Say 2 exec_failed, ExitWith 42])
      else [CloseFd stdOut, CloseFd stdErr])"

text \<open>
  The destructor of a pipe's last owner closes the write end and then the read end. \<open>run\<close>
  in the parent: \<open>launch\<close>, and at the return, in the order opposite to the declarations,
  the two stream descriptors, which own the descriptor they were given, and the two pipes.
\<close>

definition Pipe_drop :: "pipe_fds \<Rightarrow> sys_call list" where
  "Pipe_drop p = [CloseFd (getWrite p), CloseFd (getRead p)]"

definition run_return :: "pipe_fds \<Rightarrow> pipe_fds \<Rightarrow> sys_call list" where
  "run_return stdoutPipe stderrPipe =
     [CloseFd (getRead stderrPipe), CloseFd (getRead stdoutPipe)] @ Pipe_drop stderrPipe @ Pipe_drop stdoutPipe"

text \<open>
  The calls on the descriptor table of a process. Descriptors lead to open files \<open>'f\<close>;
  a call on a descriptor that is not open fails and changes nothing.
\<close>

record 'f process =
  pr_fds :: "int \<Rightarrow> 'f option"
  pr_data :: "'f \<Rightarrow> bytes"
  pr_image :: "(string \<times> string list \<times> string list) option"
  pr_exit :: "int option"

fun sys_do :: "bool \<Rightarrow> 'f process \<Rightarrow> sys_call \<Rightarrow> 'f process" where
  "sys_do started p (CloseFd fd) = p\<lparr>pr_fds := (pr_fds p)(fd := None)\<rparr>"
| "sys_do started p (Dup2 a b) =
     (case pr_fds p a of None \<Rightarrow> p | Some f \<Rightarrow> p\<lparr>pr_fds := (pr_fds p)(b := Some f)\<rparr>)"
| "sys_do started p (Execve prog argv envp) =
     (if started then p\<lparr>pr_image := Some (prog, argv, envp)\<rparr> else p)"
| "sys_do started p (Say fd bs) =
     (case pr_fds p fd of None \<Rightarrow> p | Some f \<Rightarrow> p\<lparr>pr_data := (pr_data p)(f := pr_data p f @ bs)\<rparr>)"
| "sys_do started p (ExitWith code) = p\<lparr>pr_exit := Some code\<rparr>"

definition sys_run :: "bool \<Rightarrow> sys_call list \<Rightarrow> 'f process \<Rightarrow> 'f process" where
  "sys_run started calls p = foldl (sys_do started) p calls"

section \<open>Facts\<close>

lemma sys_run_simps [simp]:
  "sys_run started [] p = p"
  "sys_run started (call # calls) p = sys_run started calls (sys_do started p call)"
  by (simp_all add: sys_run_def)

text \<open>
  The child's standard streams are the two pipes, provided the pipes did not get the
  numbers 1 and 2 themselves, which they get when the server runs with closed streams.
\<close>

lemma launch_child:
  assumes "stdOut \<notin> {1, 2}" "stdErr \<notin> {1, 2}"
    "pr_fds p stdOut = Some out" "pr_fds p stdErr = Some err" "out \<noteq> err"
  shows "pr_fds (sys_run started (launch c stdOut stdErr 0 started) p) 1 = Some out"
    "pr_fds (sys_run started (launch c stdOut stdErr 0 started) p) 2 = Some err"
    "pr_image (sys_run True (launch c stdOut stdErr 0 True) p) =
       Some (c_string (sc_exec c), map c_string (sc_args c), map c_string (sc_envs c))"
    "pr_exit (sys_run False (launch c stdOut stdErr 0 False) p) = Some 42"
    "pr_data (sys_run False (launch c stdOut stdErr 0 False) p) out = pr_data p out @ exec_failed"
    "pr_data (sys_run False (launch c stdOut stdErr 0 False) p) err = pr_data p err @ exec_failed"
  using assms by (auto simp: launch_def)

lemma args_simps [simp]:
  "args [] c = c" "args (p # ps) c = args ps (arg p c)"
  by (simp_all add: args_def)

lemma args_fields [simp]:
  "sc_args (args ps c) = sc_args c @ ps" "sc_exec (args ps c) = sc_exec c"
  "sc_envs (args ps c) = sc_envs c" "sc_status (args ps c) = sc_status c"
  by (induction ps arbitrary: c) (simp_all add: arg_def)

lemma arg_fields [simp]:
  "sc_args (arg p c) = sc_args c @ [p]" "sc_exec (arg p c) = sc_exec c"
  "sc_envs (arg p c) = sc_envs c" "sc_status (arg p c) = sc_status c"
  "sc_args (arg_num n c) = sc_args c @ [to_string n]" "sc_exec (arg_num n c) = sc_exec c"
  "sc_envs (arg_num n c) = sc_envs c" "sc_status (arg_num n c) = sc_status c"
  by (simp_all add: arg_def arg_num_def)

lemma SystemCmd_new_fields [simp]:
  "sc_args (SystemCmd_new cmd) = [cmd]" "sc_exec (SystemCmd_new cmd) = cmd"
  "sc_envs (SystemCmd_new cmd) = []" "sc_status (SystemCmd_new cmd) = None"
  by (simp_all add: SystemCmd_new_def arg_def)

lemma dump_args_rest: "dump_args False '' '' vs = concat (map (\<lambda>v. '' '' @ v) vs)"
  by (induction vs) auto

lemma dump_no_env:
  assumes "sc_envs c = []" "sc_status c = None"
  shows "dump c = sc_exec c @ concat (map (\<lambda>v. '' '' @ v) (tl (sc_args c)))"
  using assms by (cases "sc_args c") (simp_all add: dump_def dump_args_rest)

lemma register_read_ok:
  assumes "\<forall>ev \<in> set evs. fst ev = ReadOk"
  shows "register_read (evs @ (ReadEof, last_bs) # rest) acc =
    Inr (acc @ concat (map snd evs) @ last_bs)"
  using assms by (induction evs arbitrary: acc) auto

lemma waitpid_loop_blocked: "waitpid_loop ws st = Inl x \<Longrightarrow> x = Blocked"
  by (induction ws st rule: waitpid_loop.induct) (auto split: if_splits)

lemma waitpid_loop_statuses:
  "waitpid_loop ws st = Inr st' \<Longrightarrow> st' = st \<or> (\<exists>ret. 0 < ret \<and> (ret, st') \<in> set ws)"
  by (induction ws st rule: waitpid_loop.induct) (auto split: if_splits)

lemma handleSigChild_stuck:
  assumes "0 < sr_waitPid sr" "\<not> WIFEXITED (sr_statusCode sr)"
    "\<forall>ws \<in> set sigs. \<forall>(ret, st) \<in> set ws. 0 < ret \<longrightarrow> \<not> WIFEXITED st"
  shows "handleSigChild sigs sr = Inl Blocked"
  using assms
proof (induction sigs arbitrary: sr)
  case (Cons ws sigs)
  show ?case
  proof (cases "waitpid_loop ws (sr_statusCode sr)")
    case (Inl x)
    with waitpid_loop_blocked [OF Inl] Cons.prems(1) show ?thesis by simp
  next
    case (Inr st)
    from waitpid_loop_statuses [OF this] Cons.prems(2,3) have "\<not> WIFEXITED st" by auto
    with Inr Cons show ?thesis by simp
  qed
qed simp

section \<open>Properties\<close>

text \<open>C34: \<open>run\<close> reports what the child did. When both pipes exist, either stream ends with
  end-of-file and the child exits, \<open>run\<close> returns: the two strings are all the bytes of
  the two streams in order, the exit code is the one the child's status carries, the
  command line is the dump of the command, and \<open>ok\<close> is false exactly for the marker
  that a child leaves whose program could not be executed.\<close>
theorem run_reports_child:
  assumes "os_pipe_out os = Some p" "os_pipe_err os = Some p'" "0 < os_fork os"
    "\<forall>ev \<in> set outs. fst ev = ReadOk" "os_out os = outs @ [(ReadEof, out_end)]"
    "\<forall>ev \<in> set errs. fst ev = ReadOk" "os_err os = errs @ [(ReadEof, err_end)]"
    "os_sigchld os = [(os_fork os, status), (r, x)] # sigs" "r \<le> 0" "WIFEXITED status"
  defines "out \<equiv> concat (map snd outs) @ out_end" and "err \<equiv> concat (map snd errs) @ err_end"
  shows "\<exists>sr. run junk os c = Inr sr \<and> sr_sout sr = out \<and> sr_serr sr = err \<and>
    sr_exitCode sr = WEXITSTATUS status \<and> sr_cmd sr = dump c \<and> sr_waitPid sr = os_fork os \<and>
    (sr_ok sr \<longleftrightarrow> \<not> (WEXITSTATUS status = 42 \<and> out = exec_failed \<and> err = exec_failed))"
  using assms(1-10) register_read_ok [OF assms(4), of out_end "[]"]
    register_read_ok [OF assms(6), of err_end "[]"]
  by (auto simp: run_def Pipe_create_def SystemResult_new_def run_ok_def Let_def out_def err_def)

theorem run_reports_child_witness:
  "\<exists>sr. run \<lparr>sr_sout = ''x'', sr_serr = [], sr_cmd = [], sr_ok = True, sr_statusCode = 9,
       sr_exitCode = 1, sr_waitPid = 0\<rparr>
     \<lparr>os_pipe_out = Some (5, 6), os_pipe_err = Some (7, 8), os_fork = 99,
      os_out = [(ReadOk, ''Hel'')] @ [(ReadEof, ''lo'')], os_err = [] @ [(ReadEof, [])],
      os_sigchld = [[(99, 0x0300), (- 1, 0)]]\<rparr> (SystemCmd_new ''/bin/echo'') = Inr sr \<and>
     sr_sout sr = concat (map snd [(ReadOk, ''Hel'')]) @ ''lo'' \<and>
     sr_serr sr = concat (map snd []) @ [] \<and> sr_exitCode sr = WEXITSTATUS 0x0300 \<and>
     sr_cmd sr = dump (SystemCmd_new ''/bin/echo'') \<and> sr_waitPid sr = 99 \<and>
     (sr_ok sr \<longleftrightarrow> \<not> (WEXITSTATUS 0x0300 = 42 \<and>
        concat (map snd [(ReadOk, ''Hel'')]) @ ''lo'' = exec_failed \<and>
        concat (map snd []) @ [] = exec_failed))"
  using run_reports_child [of "\<lparr>os_pipe_out = Some (5, 6), os_pipe_err = Some (7, 8), os_fork = 99,
      os_out = [(ReadOk, ''Hel'')] @ [(ReadEof, ''lo'')], os_err = [] @ [(ReadEof, [])],
      os_sigchld = [[(99, 0x0300), (- 1, 0)]]\<rparr>" "(5, 6)" "(7, 8)" "[(ReadOk, ''Hel'')]" "''lo''"
      "[]" "[]" "0x0300" "- 1" 0 "[]"]
  by (simp add: WIFEXITED_def)



text \<open>\<open>nonBlocking\<close> does the opposite of its name: it clears \<open>O_NONBLOCK\<close> in the
  descriptor's flags, whatever they were, and keeps all the others, while the device start
  code, which sets the flag on the tun descriptor, is undone by it exactly.\<close>
theorem nonBlocking_clears_flag:
  "nonBlocking flags AND O_NONBLOCK = 0"
  "bit (nonBlocking flags) n \<longleftrightarrow> bit flags n \<and> n \<noteq> 11"
  "nonBlocking (set_nonblock flags) = nonBlocking flags"
proof -
  have o: "bit O_NONBLOCK k \<longleftrightarrow> k = 11" for k
  proof -
    have e: "O_NONBLOCK = push_bit 11 1" by (simp add: O_NONBLOCK_def)
    show ?thesis unfolding e bit_push_bit_iff bit_1_iff by (auto simp: possible_bit_def)
  qed
  show "nonBlocking flags AND O_NONBLOCK = 0"
    by (rule bit_eqI) (simp add: nonBlocking_def bit_simps)
  show "bit (nonBlocking flags) n \<longleftrightarrow> bit flags n \<and> n \<noteq> 11"
    using o [of n] bit_imp_le_length [of flags n]
    by (auto simp: nonBlocking_def bit_simps)
  show "nonBlocking (set_nonblock flags) = nonBlocking flags"
    by (rule bit_eqI) (auto simp: nonBlocking_def set_nonblock_def bit_simps)
qed

text \<open>C35: a program that cannot be executed is reported. The child then has written the
  marker to both pipes and exits with 42; when \<open>run\<close> reads exactly this back and
  the status word carries the exit code, its result is not \<open>ok\<close>, and its exit code and output
  are the child's. When the program can be executed, the child's image has the command's
  arguments and its standard streams are the pipes.\<close>
theorem exec_failure_detected:
  fixes p :: "'f process" and c :: SystemCmd
  assumes "stdOut \<notin> {1, 2}" "stdErr \<notin> {1, 2}" "pr_fds p stdOut = Some out"
    "pr_fds p stdErr = Some err" "out \<noteq> err" "pr_data p out = []" "pr_data p err = []"
  defines "failed \<equiv> sys_run False (launch c stdOut stdErr 0 False) p"
    and "started \<equiv> sys_run True (launch c stdOut stdErr 0 True) p"
  assumes "os_pipe_out os = Some (r1, stdOut)" "os_pipe_err os = Some (r2, stdErr)"
    "0 < os_fork os" "os_out os = [(ReadEof, pr_data failed out)]"
    "os_err os = [(ReadEof, pr_data failed err)]"
    "os_sigchld os = [[(os_fork os, push_bit 8 (word_of_int (the (pr_exit failed)))), (0, 0)]]"
  shows "(\<exists>sr. run junk os c = Inr sr \<and> \<not> sr_ok sr \<and> sr_exitCode sr = 42 \<and>
      sr_sout sr = exec_failed \<and> sr_serr sr = exec_failed) \<and>
    pr_exit started = pr_exit p \<and> pr_data started = pr_data p \<and>
    pr_fds started 1 = Some out \<and> pr_fds started 2 = Some err \<and>
    pr_image started =
      Some (c_string (sc_exec c), map c_string (sc_args c), map c_string (sc_envs c))"
proof -
  note l = launch_child [where c = c, OF assms(1-5)]
  have f: "pr_data failed out = exec_failed" "pr_data failed err = exec_failed"
    "pr_exit failed = Some 42"
    using l(4-6) assms(6,7) by (simp_all add: failed_def)
  have st: "WIFEXITED (push_bit 8 42)" "WEXITSTATUS (push_bit 8 42) = 42"
    by (simp_all add: WIFEXITED_def WEXITSTATUS_def)
  have "pr_exit started = pr_exit p" "pr_data started = pr_data p"
    using assms(1-5) by (auto simp: started_def launch_def)
  then show ?thesis
    using assms(10-15) l(1-3) f st
    by (auto simp: run_def Pipe_create_def SystemResult_new_def run_ok_def Let_def started_def)
qed

theorem exec_failure_detected_witness:
  "\<exists>sr. run \<lparr>sr_sout = ''x'', sr_serr = [], sr_cmd = [], sr_ok = True, sr_statusCode = 9,
       sr_exitCode = 1, sr_waitPid = 0\<rparr>
     \<lparr>os_pipe_out = Some (5, 6), os_pipe_err = Some (7, 8), os_fork = 99,
      os_out = [(ReadEof, exec_failed)], os_err = [(ReadEof, exec_failed)],
      os_sigchld = [[(99, push_bit 8 42), (0, 0)]]\<rparr> (SystemCmd_new ''/no/such'') = Inr sr \<and>
     \<not> sr_ok sr \<and> sr_exitCode sr = 42 \<and> sr_sout sr = exec_failed \<and> sr_serr sr = exec_failed"
proof -
  let ?p = "\<lparr>pr_fds = [6 \<mapsto> ''out'', 8 \<mapsto> ''err''], pr_data = (\<lambda>_. []), pr_image = None,
    pr_exit = None\<rparr>"
  let ?c = "SystemCmd_new ''/no/such''" and ?os = "\<lparr>os_pipe_out = Some (5, 6),
      os_pipe_err = Some (7, 8), os_fork = 99, os_out = [(ReadEof, exec_failed)],
      os_err = [(ReadEof, exec_failed)], os_sigchld = [[(99, push_bit 8 42), (0, 0)]]\<rparr>"
  have d: "pr_data (sys_run False (launch ?c 6 8 0 False) ?p) ''out'' = exec_failed"
    "pr_data (sys_run False (launch ?c 6 8 0 False) ?p) ''err'' = exec_failed"
    "pr_exit (sys_run False (launch ?c 6 8 0 False) ?p) = Some 42"
    by (simp_all add: launch_def)
  show ?thesis
    by (rule exec_failure_detected [of 6 8 ?p "''out''" "''err''" ?os 5 7 ?c, THEN conjunct1])
      (simp_all add: d)
qed



end
