(* ===== verification/Tun_Io.thy ===== *)
theory Tun_Io
  imports Packet_Queue System_Cmd
begin

text \<open>
  \<open>tun_device.cpp\<close> and the two closures of \<open>startOnTun\<close> in \<open>tun_device.hpp\<close>: reading
  a packet from the tun descriptor into a slot and writing one out of a slot, each with
  the four header bytes the device puts in front. The system answers through a script:
  one entry per turn of the read loop.
\<close>

section \<open>The protocol header\<close>

definition TUNDEV_HEADER_SIZE :: nat where
  "TUNDEV_HEADER_SIZE = 4"

definition is_v4 :: "bytes \<Rightarrow> bool" where
  "is_v4 bs \<longleftrightarrow> (of_char (bs ! 0) :: 8 word) AND 0xf0 = 0x40"

definition is_v6 :: "bytes \<Rightarrow> bool" where
  "is_v6 bs \<longleftrightarrow> (of_char (bs ! 0) :: 8 word) AND 0xf0 = 0x60"

text \<open>
  \<open>header[2] = -122; header[3] = -35\<close> stores the bytes \<open>0x86 0xDD\<close>. The bytes are read
  only after the length was checked.
\<close>

definition linux_tun_header :: "bytes \<Rightarrow> bytes \<Rightarrow> bytes" where
  "linux_tun_header header bs =
     (if length bs < 1 then header
      else if is_v4 bs then header[2 := CHR 0x08]
      else if is_v6 bs then header[2 := CHR 0x86, 3 := CHR 0xDD]
      else header)"

definition apple_tun_header :: "bytes \<Rightarrow> bytes \<Rightarrow> bytes" where
  "apple_tun_header header bs =
     (if length bs < 1 then header
      else if is_v4 bs then header[3 := CHR 0x02]
      else if is_v6 bs then header[3 := CHR 0x1E]
      else header)"

section \<open>Writing and reading\<close>

text \<open>What \<open>tun_write\<close> hands to \<open>writev\<close>, and what it makes of the result.\<close>

definition tun_write_iov :: "(bytes \<Rightarrow> bytes \<Rightarrow> bytes) \<Rightarrow> bytes \<Rightarrow> bytes list" where
  "tun_write_iov tun_header bs =
     (let header = replicate TUNDEV_HEADER_SIZE (CHR 0x00) in [tun_header header bs, bs])"

definition tun_result :: "int \<Rightarrow> int" where
  "tun_result ret = (if ret \<le> 0 then ret else ret - int TUNDEV_HEADER_SIZE)"

datatype readv_answer = Frame bytes | ReadvError

text \<open>
  \<open>tun_read(fd, buf, nbytes)\<close>: \<open>readv\<close> fills the header first, then the packet bytes,
  and takes no more than both hold. The result is the adjusted count and the bytes that
  arrived in \<open>buf\<close>.
\<close>

definition tun_read :: "readv_answer \<Rightarrow> nat \<Rightarrow> int \<times> bytes" where
  "tun_read answer nbytes =
     (case answer of
        ReadvError \<Rightarrow> (tun_result (- 1), [])
      | Frame f \<Rightarrow>
          let got = take (TUNDEV_HEADER_SIZE + nbytes) f
          in (tun_result (int (length got)), drop TUNDEV_HEADER_SIZE got))"

section \<open>The closures of startOnTun\<close>

text \<open>
  One turn of the read loop: the answer of \<open>readv\<close>, whether \<open>errno\<close> then says
  \<open>EAGAIN\<close> or \<open>EWOULDBLOCK\<close> (it is also consulted when a frame shorter than its header
  makes the adjusted count \<open>-1\<close>), the result of \<open>select\<close> and the bit \<open>FD_ISSET\<close>.
\<close>

record tun_event =
  ev_readv :: readv_answer
  ev_again :: bool
  ev_select :: int
  ev_isset :: bool

text \<open>
  The closure given to \<open>fromTun.push\<close>; the captured state is the flag \<open>running\<close>, which
  \<open>tunDevError\<close> clears before it returns 0.
\<close>

definition tunDevError :: "bytes \<Rightarrow> bool \<Rightarrow> (ssize_t \<times> bytes \<times> bool) exec" where
  [simp]: "tunDevError m running = Inr (0, m, False)"

fun from_tun_read :: "tun_event list \<Rightarrow> bool action" where
  "from_tun_read [] pkt m running = Inl Blocked"
| "from_tun_read (ev # evs) pkt m running =
     (let (ret, bs) = tun_read (ev_readv ev) (unat (maxSize pkt)) in
      ebind (mem_write m (unat (buf pkt)) bs) (\<lambda>m1.
        if ret = 0 then tunDevError m1 running
        else if ret = - 1 then
          (if ev_again ev then
             (if ev_select ev < 0 then tunDevError m1 running
              else if ev_select ev = 0 then Inr (0, m1, running)
              else if ev_isset ev then from_tun_read evs pkt m1 running
              else Inr (word_of_int ret, m1, running))
           else tunDevError m1 running)
        else Inr (word_of_int ret, m1, running)))"

text \<open>
  The closure given to \<open>toTun.pop\<close>; the captured state lists what was handed to
  \<open>writev\<close>. \<open>ret\<close> is the result of that \<open>writev\<close>.
\<close>

definition to_tun_write ::
  "(bytes \<Rightarrow> bytes \<Rightarrow> bytes) \<Rightarrow> int \<Rightarrow> bytes list list action" where
  "to_tun_write tun_header ret pkt m out =
     ebind (mem_read m (unat (buf pkt)) (unat (psize pkt))) (\<lambda>bs.
       Inr (word_of_int (tun_result ret), m, out @ [tun_write_iov tun_header bs]))"

section \<open>Facts\<close>

lemma tun_result_bound: "0 < tun_result ret \<Longrightarrow> tun_result ret = ret - 4 \<and> 4 < ret"
  by (auto simp: tun_result_def TUNDEV_HEADER_SIZE_def split: if_splits)

lemma tun_read_bytes: "length (snd (tun_read a n)) \<le> n"
  by (auto simp: tun_read_def TUNDEV_HEADER_SIZE_def Let_def split: readv_answer.splits)

lemma tun_read_count:
  "tun_read a n = (ret, bs) \<Longrightarrow> 0 < ret \<Longrightarrow> ret = int (length bs)"
  by (auto simp: tun_read_def tun_result_def TUNDEV_HEADER_SIZE_def Let_def
      split: readv_answer.splits if_splits)

lemma tun_read_le: "tun_read a n = (ret, bs) \<Longrightarrow> ret \<le> int n"
  by (auto simp: tun_read_def tun_result_def TUNDEV_HEADER_SIZE_def Let_def
      split: readv_answer.splits if_splits)

lemma tun_read_ge: "tun_read a n = (ret, bs) \<Longrightarrow> - 3 \<le> ret"
  by (cases a; auto simp: tun_read_def tun_result_def TUNDEV_HEADER_SIZE_def Let_def Suc_le_eq
      split: if_splits)

lemma sint_word_of_int_small:
  assumes "- (2 ^ 63) \<le> i" "i < 2 ^ 63"
  shows "sint (word_of_int i :: size_t) = i"
proof -
  have "signed_take_bit 63 i = i"
    using assms by (intro signed_take_bit_int_eq_self) auto
  then show ?thesis by (simp add: signed_of_int)
qed

lemma unat_word_of_int_small:
  "0 \<le> i \<Longrightarrow> i < 2 ^ 63 \<Longrightarrow> unat (word_of_int i :: size_t) = nat i"
  by (simp add: take_bit_int_eq_self unsigned_of_int)

lemma from_tun_read_Cons:
  "from_tun_read (ev # evs) pkt m running = Inr (r, m', running') \<Longrightarrow>
     \<exists>ret bs m1. tun_read (ev_readv ev) (unat (maxSize pkt)) = (ret, bs) \<and>
       mem_write m (unat (buf pkt)) bs = Inr m1 \<and>
       (r = word_of_int ret \<and> m' = m1 \<or> r = 0 \<and> m' = m1 \<or>
        from_tun_read evs pkt m1 running = Inr (r, m', running'))"
  by (auto simp: ebind_eq_Inr Let_def split: prod.splits if_splits)

lemma from_tun_read_contract: "push_contract (from_tun_read evs)"
proof -
  have "length m' = length m \<and>
      (\<forall>k < length m. k < unat (buf p) \<or> unat (buf p) + unat (maxSize p) \<le> k \<longrightarrow> m' ! k = m ! k) \<and>
      (0 < sint r \<longrightarrow> unat r \<le> unat (maxSize p))"
    if "from_tun_read evs p m e = Inr (r, m', e')" for p m e r m' e'
    using that
  proof (induction evs arbitrary: m)
    case (Cons ev evs)
    from from_tun_read_Cons [OF Cons.prems] obtain ret bs m1 where
      rd: "tun_read (ev_readv ev) (unat (maxSize p)) = (ret, bs)" and
      w: "mem_write m (unat (buf p)) bs = Inr m1" and
      c: "r = word_of_int ret \<and> m' = m1 \<or> r = 0 \<and> m' = m1 \<or>
        from_tun_read evs p m1 e = Inr (r, m', e')"
      by blast
    have "length bs \<le> unat (maxSize p)"
      using tun_read_bytes [of "ev_readv ev" "unat (maxSize p)"] rd by simp
    then have one: "length m1 = length m" "\<forall>k < length m. k < unat (buf p) \<or>
        unat (buf p) + unat (maxSize p) \<le> k \<longrightarrow> m1 ! k = m ! k"
      using mem_write_length [OF w] mem_write_nth [OF w] by auto
    have sz: "unat (word_of_int ret :: ssize_t) \<le> unat (maxSize p)"
      if "0 < sint (word_of_int ret :: ssize_t)"
    proof -
      have "- 3 \<le> ret" "ret \<le> int (unat (maxSize p))"
        using tun_read_ge [OF rd] tun_read_le [OF rd] by auto
      moreover have "0 \<le> ret"
      proof (rule ccontr)
        assume "\<not> 0 \<le> ret"
        with \<open>- 3 \<le> ret\<close> have "sint (word_of_int ret :: ssize_t) = ret"
          by (intro sint_word_of_int_small) auto
        with that \<open>\<not> 0 \<le> ret\<close> show False by simp
      qed
      ultimately obtain k where k: "ret = int k" "k \<le> unat (maxSize p)"
        by (metis nonneg_int_cases of_nat_le_iff)
      have "unat (word_of_int (int k) :: ssize_t) \<le> k"
        by (simp add: unsigned_of_nat take_bit_eq_mod)
      with k show ?thesis by simp
    qed
    show ?case using c Cons.IH [of m1] one sz by auto
  qed simp
  then show ?thesis unfolding push_contract_def by blast
qed

lemma to_tun_write_contract: "pop_contract (to_tun_write th ret)"
  by (auto simp: pop_contract_def to_tun_write_def ebind_eq_Inr)

section \<open>Properties\<close>

lemma tun_read_payload:
  "length hdr = 4 \<Longrightarrow> bs \<noteq> [] \<Longrightarrow> length bs \<le> n \<Longrightarrow>
     tun_read (Frame (hdr @ bs)) n = (int (length bs), bs)"
  by (cases bs) (simp_all add: tun_read_def tun_result_def TUNDEV_HEADER_SIZE_def Let_def)

lemma tun_read_cut:
  "4 \<le> length f \<Longrightarrow> tun_read (Frame f) n = (int (length (take n (drop 4 f))), take n (drop 4 f))"
  by (auto simp: tun_read_def tun_result_def TUNDEV_HEADER_SIZE_def Let_def drop_take min_def)

lemma tun_header_length [simp]:
  "length (linux_tun_header h bs) = length h" "length (apple_tun_header h bs) = length h"
  by (simp_all add: linux_tun_header_def apple_tun_header_def)

text \<open>An answer that says "nothing yet", and then that the descriptor is readable.\<close>

definition retry_event :: "tun_event \<Rightarrow> bool" where
  "retry_event ev \<longleftrightarrow> ev_readv ev = ReadvError \<and> ev_again ev \<and> 0 < ev_select ev \<and> ev_isset ev"

lemma mem_write_Nil: "off \<le> length m \<Longrightarrow> mem_write m off [] = Inr m"
  by (simp add: mem_write_def)

lemma from_tun_read_retry:
  "retry_event ev \<Longrightarrow> unat (buf pkt) \<le> length m \<Longrightarrow>
     from_tun_read (ev # evs) pkt m running = from_tun_read evs pkt m running"
  by (simp add: retry_event_def tun_read_def tun_result_def mem_write_Nil)

lemma from_tun_read_retries:
  "\<forall>ev \<in> set evs. retry_event ev \<Longrightarrow> unat (buf pkt) \<le> length m \<Longrightarrow>
     from_tun_read (evs @ evs') pkt m running = from_tun_read evs' pkt m running"
  by (induction evs) (simp_all add: from_tun_read_retry del: from_tun_read.simps)

text \<open>Writing to the tun descriptor and reading back agree. On either platform the two
  buffers handed to \<open>writev\<close> are four header bytes and the packet, and a reader with room
  for the packet gets from such a frame exactly the packet and its length.\<close>
theorem tun_frame_roundtrip:
  assumes "bs \<noteq> []" "length bs \<le> n" "th = linux_tun_header \<or> th = apple_tun_header"
  shows "tun_read (Frame (concat (tun_write_iov th bs))) n = (int (length bs), bs)"
  using assms by (auto simp: tun_write_iov_def TUNDEV_HEADER_SIZE_def Let_def intro!: tun_read_payload)

theorem tun_frame_roundtrip_witness:
  "tun_read (Frame (concat (tun_write_iov linux_tun_header ''E packet''))) 1500 =
     (int (length ''E packet''), ''E packet'')"
  by (rule tun_frame_roundtrip) simp_all

text \<open>The header names the protocol of the packet. For a packet whose first half byte is 4
  the Linux header is \<open>00 00 08 00\<close> and the macOS one \<open>00 00 00 02\<close>; for 6 they are
  \<open>00 00 86 DD\<close> and \<open>00 00 00 1E\<close>; an empty packet and any other leave it zero.\<close>
theorem tun_header_protocol:
  assumes "h = replicate 4 (CHR 0x00)"
  shows "linux_tun_header h bs =
      (if bs = [] then h
       else if (of_char (bs ! 0) :: 8 word) AND 0xf0 = 0x40
         then [CHR 0x00, CHR 0x00, CHR 0x08, CHR 0x00]
       else if (of_char (bs ! 0) :: 8 word) AND 0xf0 = 0x60
         then [CHR 0x00, CHR 0x00, CHR 0x86, CHR 0xDD]
       else h)"
    "apple_tun_header h bs =
      (if bs = [] then h
       else if (of_char (bs ! 0) :: 8 word) AND 0xf0 = 0x40
         then [CHR 0x00, CHR 0x00, CHR 0x00, CHR 0x02]
       else if (of_char (bs ! 0) :: 8 word) AND 0xf0 = 0x60
         then [CHR 0x00, CHR 0x00, CHR 0x00, CHR 0x1E]
       else h)"
  using assms
  by (cases bs; simp add: linux_tun_header_def apple_tun_header_def is_v4_def is_v6_def
      eval_nat_numeral)+

theorem tun_header_protocol_witness:
  "linux_tun_header (replicate 4 (CHR 0x00)) [] = replicate 4 (CHR 0x00)"
  by (subst tun_header_protocol(1) [OF refl]) simp

text \<open>The read closure delivers the next frame. However often the descriptor first says
  "nothing yet" and \<open>select\<close> then reports it readable, the frame that follows ends up in
  the packet: the closure returns the payload's length, the payload is at the packet's place
  in the pool, and the device keeps running.\<close>
theorem from_tun_read_delivers:
  assumes "\<forall>ev \<in> set waits. retry_event ev" "ev_readv ev = Frame (hdr @ bs)" "length hdr = 4"
    "bs \<noteq> []" "length bs \<le> unat (maxSize pkt)"
    "unat (buf pkt) + unat (maxSize pkt) \<le> length m"
  shows "\<exists>m'. from_tun_read (waits @ ev # rest) pkt m running =
      Inr (of_nat (length bs), m', running) \<and> length m' = length m \<and>
      mem_read m' (unat (buf pkt)) (length bs) = Inr bs"
proof -
  have "unat (buf pkt) + length bs \<le> length m" using assms(5,6) by simp
  then obtain m' where m': "mem_write m (unat (buf pkt)) bs = Inr m'" using mem_write_ok by blast
  have "from_tun_read (waits @ ev # rest) pkt m running = from_tun_read (ev # rest) pkt m running"
    by (rule from_tun_read_retries) (use assms(1,6) in auto)
  also have "\<dots> = Inr (of_nat (length bs), m', running)"
    using assms(4) m' by (simp add: assms(2) tun_read_payload [OF assms(3-5)])
  finally show ?thesis using mem_read_write_same [OF m'] mem_write_length [OF m'] by blast
qed

theorem from_tun_read_delivers_witness:
  "\<exists>m'. from_tun_read ([\<lparr>ev_readv = ReadvError, ev_again = True, ev_select = 1, ev_isset = True\<rparr>] @
      \<lparr>ev_readv = Frame (replicate 4 (CHR 0x00) @ ''Eabc''), ev_again = False, ev_select = 0,
       ev_isset = False\<rparr> # [])
      \<lparr>used = True, idx = 0, psize = 0, maxSize = 8, buf = 0\<rparr> (replicate 16 (CHR ''x'')) True =
      Inr (of_nat (length ''Eabc''), m', True) \<and> length m' = length (replicate 16 (CHR ''x'')) \<and>
      mem_read m' (unat (buf \<lparr>used = True, idx = 0, psize = 0, maxSize = 8, buf = 0\<rparr>))
        (length ''Eabc'') = Inr ''Eabc''"
  by (rule from_tun_read_delivers [where hdr = "replicate 4 (CHR 0x00)"])
    (simp_all add: retry_event_def)

lemma mem_write_small:
  "off \<le> length m \<Longrightarrow> length f \<le> 4 \<Longrightarrow> mem_write m off (drop 4 (take (4 + n) f)) = Inr m"
  by (simp add: mem_write_Nil)

text \<open>What stops the device. End of file stops it, as meant, but so does a frame that is only
  its four header bytes, since the count is adjusted before it is compared with 0. A frame
  of three bytes is taken for an error, as its adjusted count is \<open>-1\<close>: like an error, it
  stops the device unless a stale \<open>errno\<close> says "try again" and \<open>select\<close> does not fail, and
  is a timeout when \<open>select\<close> returns 0. Shorter frames fail the push and leave the device
  running. The packet pool is unchanged in all these cases.\<close>
theorem from_tun_read_stops:
  assumes "unat (buf pkt) \<le> length m"
  shows "(ev_readv ev = Frame f \<and> (f = [] \<or> length f = 4) \<longrightarrow>
      from_tun_read (ev # evs) pkt m running = Inr (0, m, False)) \<and>
    ((ev_readv ev = ReadvError \<or> ev_readv ev = Frame f \<and> length f = 3) \<and>
      (\<not> ev_again ev \<or> ev_select ev < 0) \<longrightarrow>
      from_tun_read (ev # evs) pkt m running = Inr (0, m, False)) \<and>
    ((ev_readv ev = ReadvError \<or> ev_readv ev = Frame f \<and> length f = 3) \<and> ev_again ev \<and> ev_select ev = 0 \<longrightarrow>
      from_tun_read (ev # evs) pkt m running = Inr (0, m, running)) \<and>
    (ev_readv ev = Frame f \<and> (length f = 1 \<or> length f = 2) \<longrightarrow>
      from_tun_read (ev # evs) pkt m running = Inr (word_of_int (int (length f) - 4), m, running))"
proof -
  note nil = mem_write_Nil [OF assms]
  have rd: "tun_read (Frame f) (unat (maxSize pkt)) = (tun_result (int (length f)), [])"
    if "length f \<le> 4" for f :: bytes
    using that by (simp add: tun_read_def TUNDEV_HEADER_SIZE_def Let_def)
  have err: "tun_read ReadvError (unat (maxSize pkt)) = (- 1, [])"
    by (simp add: tun_read_def tun_result_def)
  have c1: "from_tun_read (ev # evs) pkt m running = Inr (0, m, False)"
    if "ev_readv ev = Frame f" "f = [] \<or> length f = 4"
    using that by (auto simp: rd nil tun_result_def TUNDEV_HEADER_SIZE_def)
  have c2: "from_tun_read (ev # evs) pkt m running = Inr (0, m, False)"
    if "ev_readv ev = ReadvError \<or> ev_readv ev = Frame f \<and> length f = 3"
      "\<not> ev_again ev \<or> ev_select ev < 0"
    using that by (auto simp: rd err nil tun_result_def TUNDEV_HEADER_SIZE_def)
  have c3: "from_tun_read (ev # evs) pkt m running = Inr (0, m, running)"
    if "ev_readv ev = ReadvError \<or> ev_readv ev = Frame f \<and> length f = 3" "ev_again ev"
      "ev_select ev = 0"
    using that by (auto simp: rd err nil tun_result_def TUNDEV_HEADER_SIZE_def)
  have c4: "from_tun_read (ev # evs) pkt m running = Inr (word_of_int (int (length f) - 4), m, running)"
    if "ev_readv ev = Frame f" "length f = 1 \<or> length f = 2"
    using that by (auto simp: rd nil tun_result_def TUNDEV_HEADER_SIZE_def)
  show ?thesis using c1 c2 c3 c4 by blast
qed

theorem from_tun_read_stops_witness:
  "from_tun_read (\<lparr>ev_readv = Frame ''1234'', ev_again = True, ev_select = 1, ev_isset = True\<rparr> # [])
      \<lparr>used = True, idx = 0, psize = 0, maxSize = 8, buf = 0\<rparr> (replicate 16 (CHR ''x'')) True =
   Inr (0, replicate 16 (CHR ''x''), False)"
  by (rule from_tun_read_stops [where f = "''1234''", THEN conjunct1, THEN mp]) simp_all

end
