(* ===== verification/Ext_Text.thy ===== *)
theory Ext_Text
  imports Ext_Api
begin

text \<open>
  The two third-party libraries the program uses on text: \<open>boost::tokenizer\<close> with a
  \<open>char_separator\<close> that drops its separators, and \<open>ipaddress::IPAddress\<close>. As in
  \<open>Ext_Api\<close>, each is a parameter with a predicate for its documented behaviour and an
  instance for the closed examples.
\<close>

section \<open>boost::tokenizer\<close>

text \<open>
  \<open>tok seps s\<close> is the list of tokens of \<open>s\<close>: the maximal non-empty runs of characters
  that are not separators.
\<close>

definition char_separator_laws :: "(string \<Rightarrow> string \<Rightarrow> string list) \<Rightarrow> bool" where
  "char_separator_laws tok \<longleftrightarrow>
     (\<forall>seps. tok seps [] = []) \<and>
     (\<forall>seps c s. c \<in> set seps \<longrightarrow> tok seps (c # s) = tok seps s) \<and>
     (\<forall>seps w. w \<noteq> [] \<longrightarrow> set w \<inter> set seps = {} \<longrightarrow> tok seps w = [w]) \<and>
     (\<forall>seps w c s. w \<noteq> [] \<longrightarrow> set w \<inter> set seps = {} \<longrightarrow> c \<in> set seps \<longrightarrow>
        tok seps (w @ c # s) = w # tok seps s)"

lemma tok_laws:
  assumes "char_separator_laws tok"
  shows "tok seps [] = []" "c \<in> set seps \<Longrightarrow> tok seps (c # s) = tok seps s"
    "w \<noteq> [] \<Longrightarrow> set w \<inter> set seps = {} \<Longrightarrow> tok seps w = [w]"
    "w \<noteq> [] \<Longrightarrow> set w \<inter> set seps = {} \<Longrightarrow> c \<in> set seps \<Longrightarrow>
       tok seps (w @ c # s) = w # tok seps s"
  using assms unfolding char_separator_laws_def by blast+

text \<open>Text written as words each followed by one separator, or joined by one.\<close>

fun sep_by :: "string \<Rightarrow> string list \<Rightarrow> string" where
  "sep_by sp [] = []"
| "sep_by sp [w] = w"
| "sep_by sp (w # ws) = w @ sp @ sep_by sp ws"

lemma tok_sep_by:
  assumes T: "char_separator_laws tok" and c: "c \<in> set seps"
  shows "\<forall>w \<in> set ws. w \<noteq> [] \<and> set w \<inter> set seps = {} \<Longrightarrow> tok seps (sep_by [c] ws) = ws"
  using tok_laws [OF T] c by (induction "[c]" ws rule: sep_by.induct) auto

lemma tok_lines:
  assumes T: "char_separator_laws tok" and c: "c \<in> set seps"
  shows "\<forall>w \<in> set ws. w \<noteq> [] \<and> set w \<inter> set seps = {} \<Longrightarrow>
    tok seps (concat (map (\<lambda>w. w @ [c]) ws)) = ws"
  using tok_laws [OF T] c by (induction ws) auto

subsection \<open>An instance\<close>

fun tok_loop :: "string \<Rightarrow> string \<Rightarrow> string \<Rightarrow> string list" where
  "tok_loop seps cur [] = (if cur = [] then [] else [cur])"
| "tok_loop seps cur (c # s) =
     (if c \<in> set seps then (if cur = [] then tok_loop seps [] s else cur # tok_loop seps [] s)
      else tok_loop seps (cur @ [c]) s)"

definition tokens :: "string \<Rightarrow> string \<Rightarrow> string list" where
  "tokens seps s = tok_loop seps [] s"

lemma tok_loop_word:
  "set w \<inter> set seps = {} \<Longrightarrow> tok_loop seps cur (w @ s) = tok_loop seps (cur @ w) s"
  by (induction w arbitrary: cur) auto

lemma tokens_laws: "char_separator_laws tokens"
  unfolding char_separator_laws_def tokens_def
  using tok_loop_word [where cur = "[]"] tok_loop_word [where cur = "[]" and s = "[]"] by auto

section \<open>ipaddress::IPAddress\<close>

text \<open>
  \<open>ip_to_string\<close> prints address and prefix, \<open>ip_to_s\<close> the address alone;
  \<open>ip_prefix\<close> is \<open>prefix.num\<close>, \<open>ip_bits\<close> is \<open>ip_bits->bits\<close>, \<open>ip_none\<close> is the
  value of the default constructor. \<open>ip_valid\<close> marks what \<open>parse\<close> can return and
  occurs in the laws only.
\<close>

record 'ip ip_api =
  ip_parse :: "string \<Rightarrow> string + 'ip"
  ip_to_string :: "'ip \<Rightarrow> string"
  ip_to_s :: "'ip \<Rightarrow> string"
  ip_same_kind :: "'ip \<Rightarrow> 'ip \<Rightarrow> bool"
  ip_includes :: "'ip \<Rightarrow> 'ip \<Rightarrow> bool"
  ip_prefix :: "'ip \<Rightarrow> nat"
  ip_bits :: "'ip \<Rightarrow> nat"
  ip_none :: 'ip
  ip_valid :: "'ip \<Rightarrow> bool"

definition is_word :: "string \<Rightarrow> bool" where
  "is_word w \<longleftrightarrow> w \<noteq> [] \<and> set w \<inter> {CHR 0x09, CHR '' '', CHR 0x0A, CHR 0x0D} = {}"

definition ip_host :: "'ip ip_api \<Rightarrow> 'ip \<Rightarrow> bool" where
  "ip_host P a \<longleftrightarrow> ip_prefix P a = ip_bits P a"

definition ip_laws :: "'ip ip_api \<Rightarrow> bool" where
  "ip_laws P \<longleftrightarrow>
     (\<forall>s a. ip_parse P s = Inr a \<longrightarrow> ip_valid P a) \<and>
     (\<forall>a. ip_valid P a \<longrightarrow> ip_parse P (ip_to_string P a) = Inr a) \<and>
     (\<forall>a. ip_valid P a \<longrightarrow> ip_host P a \<longrightarrow> ip_parse P (ip_to_s P a) = Inr a) \<and>
     (\<forall>a. ip_valid P a \<longrightarrow> is_word (ip_to_string P a) \<and> is_word (ip_to_s P a)) \<and>
     (\<forall>a. ip_valid P a \<longrightarrow> ip_to_string P a \<noteq> ''default'')"

lemma ip_lawsD:
  assumes "ip_laws P"
  shows "ip_parse P s = Inr a \<Longrightarrow> ip_valid P a"
    "ip_valid P a \<Longrightarrow> ip_parse P (ip_to_string P a) = Inr a"
    "ip_valid P a \<Longrightarrow> ip_host P a \<Longrightarrow> ip_parse P (ip_to_s P a) = Inr a"
    "ip_valid P a \<Longrightarrow> is_word (ip_to_string P a)" "ip_valid P a \<Longrightarrow> is_word (ip_to_s P a)"
    "ip_valid P a \<Longrightarrow> ip_to_string P a \<noteq> ''default''"
  using assms unfolding ip_laws_def by blast+

subsection \<open>An instance\<close>

text \<open>IPv4 addresses in dotted notation, with an optional prefix length.\<close>

datatype v4 = V4 nat nat nat nat nat

fun v4_valid :: "v4 \<Rightarrow> bool" where
  "v4_valid (V4 a b c d p) \<longleftrightarrow> a < 256 \<and> b < 256 \<and> c < 256 \<and> d < 256 \<and> p \<le> 32"

fun v4_value :: "v4 \<Rightarrow> nat" where
  "v4_value (V4 a b c d p) = ((a * 256 + b) * 256 + c) * 256 + d"

fun v4_prefix :: "v4 \<Rightarrow> nat" where
  "v4_prefix (V4 a b c d p) = p"

fun v4_to_s :: "v4 \<Rightarrow> string" where
  "v4_to_s (V4 a b c d p) = sep_by ''.'' [show_nat a, show_nat b, show_nat c, show_nat d]"

definition v4_to_string :: "v4 \<Rightarrow> string" where
  "v4_to_string a = sep_by ''/'' [v4_to_s a, show_nat (v4_prefix a)]"

definition v4_includes :: "v4 \<Rightarrow> v4 \<Rightarrow> bool" where
  "v4_includes a b \<longleftrightarrow> v4_prefix a \<le> v4_prefix b \<and>
     v4_value a div 2 ^ (32 - v4_prefix a) = v4_value b div 2 ^ (32 - v4_prefix a)"

definition number :: "nat \<Rightarrow> string \<Rightarrow> nat option" where
  "number bound s =
     (if list_all is_digit s \<and> digits_val s < bound then Some (digits_val s) else None)"

definition v4_quad :: "string \<Rightarrow> nat \<Rightarrow> string + v4" where
  "v4_quad s p =
     (case map (number 256) (tokens ''.'' s) of
        [Some a, Some b, Some c, Some d] \<Rightarrow> Inr (V4 a b c d p)
      | _ \<Rightarrow> Inl ''not an address'')"

definition v4_parse :: "string \<Rightarrow> string + v4" where
  "v4_parse s =
     (case tokens ''/'' s of
        [h] \<Rightarrow> v4_quad h 32
      | [h, n] \<Rightarrow> (case number 33 n of Some p \<Rightarrow> v4_quad h p | None \<Rightarrow> Inl ''not a prefix'')
      | _ \<Rightarrow> Inl ''not an address'')"

definition v4_api :: "v4 ip_api" where
  "v4_api = \<lparr>ip_parse = v4_parse, ip_to_string = v4_to_string, ip_to_s = v4_to_s,
     ip_same_kind = (\<lambda>_ _. True), ip_includes = v4_includes, ip_prefix = v4_prefix,
     ip_bits = (\<lambda>_. 32), ip_none = V4 0 0 0 0 0, ip_valid = v4_valid\<rparr>"

lemma number_show_nat: "number bound (show_nat n) = (if n < bound then Some n else None)"
  using show_nat_digits [of n] by (simp add: number_def list_all_iff)

lemma show_nat_no_sep: "c \<in> set (show_nat n) \<Longrightarrow> is_digit c"
  using show_nat_digits by blast

lemma v4_tokens:
  "tokens ''.'' (v4_to_s (V4 a b c d p)) = [show_nat a, show_nat b, show_nat c, show_nat d]"
  unfolding v4_to_s.simps
  by (rule tok_sep_by [OF tokens_laws]) (auto dest!: show_nat_no_sep is_digit_facts)

lemma v4_to_s_chars: "c \<in> set (v4_to_s a) \<Longrightarrow> is_digit c \<or> c = CHR ''.''"
  by (cases a) (auto dest: show_nat_no_sep)

lemma v4_to_s_nonempty: "v4_to_s a \<noteq> []"
  by (cases a) auto

lemma v4_quad_to_s: "v4_valid (V4 a b c d q) \<Longrightarrow> v4_quad (v4_to_s (V4 a b c d q)) p = Inr (V4 a b c d p)"
  unfolding v4_quad_def v4_tokens by (simp add: number_show_nat)

lemma v4_prefix_tokens:
  "tokens ''/'' (v4_to_string a) = [v4_to_s a, show_nat (v4_prefix a)]"
  "tokens ''/'' (v4_to_s a) = [v4_to_s a]"
proof -
  have s: "set (v4_to_s a) \<inter> set ''/'' = {}" "set (show_nat (v4_prefix a)) \<inter> set ''/'' = {}"
    by (auto dest!: v4_to_s_chars show_nat_no_sep is_digit_facts)
  show "tokens ''/'' (v4_to_s a) = [v4_to_s a]"
    by (rule tok_laws(3) [OF tokens_laws v4_to_s_nonempty s(1)])
  show "tokens ''/'' (v4_to_string a) = [v4_to_s a, show_nat (v4_prefix a)]"
    unfolding v4_to_string_def
    by (rule tok_sep_by [OF tokens_laws]) (use s v4_to_s_nonempty in auto)
qed

lemma v4_parse_valid: "v4_parse s = Inr a \<Longrightarrow> v4_valid a"
proof -
  have q: "v4_valid a" if "v4_quad h p = Inr a" "p \<le> 32" for h p
    using that by (auto simp: v4_quad_def number_def split: list.splits option.splits if_splits)
  have n: "p \<le> 32" if "number 33 t = Some p" for t p
    using that by (auto simp: number_def split: if_splits)
  show "v4_parse s = Inr a \<Longrightarrow> v4_valid a"
    by (auto simp: v4_parse_def split: list.splits option.splits dest!: n intro: q)
qed

lemma is_word_digits: "w \<noteq> [] \<Longrightarrow> \<forall>c \<in> set w. is_digit c \<or> c = CHR ''.'' \<or> c = CHR ''/'' \<Longrightarrow> is_word w"
  unfolding is_word_def is_digit_def by auto

lemma v4_laws: "ip_laws v4_api"
  unfolding ip_laws_def
proof (intro conjI allI impI)
  fix a assume v: "ip_valid v4_api a"
  obtain q1 q2 q3 q4 p where a: "a = V4 q1 q2 q3 q4 p" by (cases a)
  show "ip_parse v4_api (ip_to_string v4_api a) = Inr a"
    using v a v4_quad_to_s [of q1 q2 q3 q4 p]
    by (simp add: v4_api_def v4_parse_def v4_prefix_tokens number_show_nat)
  show "ip_parse v4_api (ip_to_s v4_api a) = Inr a" if "ip_host v4_api a"
  proof -
    have "v4_parse (v4_to_s a) = v4_quad (v4_to_s a) 32"
      by (simp add: v4_parse_def v4_prefix_tokens(2))
    also have "\<dots> = Inr a"
      using v a that v4_quad_to_s [of q1 q2 q3 q4 p 32] by (simp add: v4_api_def ip_host_def)
    finally show ?thesis by (simp add: v4_api_def)
  qed
  have c: "\<forall>c \<in> set (v4_to_string a). is_digit c \<or> c = CHR ''.'' \<or> c = CHR ''/''"
    by (auto simp: v4_to_string_def dest: v4_to_s_chars show_nat_no_sep)
  show "is_word (ip_to_string v4_api a)"
    using is_word_digits [OF _ c] by (simp add: v4_api_def v4_to_string_def)
  show "is_word (ip_to_s v4_api a)"
    using v4_to_s_chars [of _ a] v4_to_s_nonempty [of a]
    by (intro is_word_digits) (auto simp: v4_api_def)
  show "ip_to_string v4_api a \<noteq> ''default''"
    using c by (auto simp: v4_api_def is_digit_def)
next
  show "ip_valid v4_api a" if "ip_parse v4_api s = Inr a" for s a
    using that v4_parse_valid by (simp add: v4_api_def)
qed

end
