(* ===== verification/If_Addrs.thy ===== *)
theory If_Addrs
  imports Ext_Text System_Cmd
begin

text \<open>
  \<open>if_addrs.hpp\<close>, \<open>if_addrs_linux.cpp\<close> and \<open>if_addrs_macos.cpp\<close>: the addresses and
  routes a client asks for, their JSON form, and the commands that configure the
  interface on either platform. An operation on an \<open>IfAddrs\<close> object returns the
  object afterwards, also when it reports failure: \<open>fromJson\<close> fills its output
  argument as far as it got.
\<close>

section \<open>Routes\<close>

record 'ip RouteVia =
  rv_dest :: 'ip
  rv_via :: 'ip

definition RouteVia_new :: "'ip ip_api \<Rightarrow> 'ip RouteVia" where
  "RouteVia_new P = \<lparr>rv_dest = ip_none P, rv_via = ip_none P\<rparr>"

definition RouteVia_create :: "'ip ip_api \<Rightarrow> string \<Rightarrow> string \<Rightarrow> string + 'ip RouteVia" where
  "RouteVia_create P dest_s via_s =
     (case ip_parse P dest_s of
        Inl e \<Rightarrow> Inl e
      | Inr dest \<Rightarrow>
          (case ip_parse P via_s of
             Inl e \<Rightarrow> Inl e
           | Inr via \<Rightarrow>
               if \<not> ip_same_kind P via dest then Inl ''is not the same_kind''
               else if ip_prefix P via \<noteq> ip_bits P via then Inl ''is not a hostaddress''
               else Inr ((RouteVia_new P)\<lparr>rv_dest := dest, rv_via := via\<rparr>)))"

definition RouteVia_isValid :: "'ip RouteVia \<Rightarrow> bool" where
  "RouteVia_isValid rv = True"

definition RouteVia_asJson :: "'j json_api \<Rightarrow> 'ip ip_api \<Rightarrow> 'ip RouteVia \<Rightarrow> 'j \<Rightarrow> 'j exec" where
  "RouteVia_asJson J P rv val =
     j_puts J val [(''dest'', j_str J (ip_to_string P (rv_dest rv))),
                   (''via'', j_str J (ip_to_s P (rv_via rv)))]"

definition RouteVia_fromJson ::
  "'j json_api \<Rightarrow> 'ip ip_api \<Rightarrow> 'j \<Rightarrow> 'ip RouteVia \<Rightarrow> (bool \<times> 'ip RouteVia) exec" where
  "RouteVia_fromJson J P val rv =
     ebind (j_at J val ''dest'') (\<lambda>jd. ebind (j_asString J jd) (\<lambda>sd.
     ebind (j_at J val ''via'') (\<lambda>jv. ebind (j_asString J jv) (\<lambda>sv.
       (case (ip_parse P sd, ip_parse P sv) of
          (Inr dest, Inr via) \<Rightarrow> Inr (True, rv\<lparr>rv_dest := dest, rv_via := via\<rparr>)
        | _ \<Rightarrow> Inr (False, rv))))))"

section \<open>Addresses\<close>

record 'ip IfAddrs =
  ia_mtu :: size_t
  ia_dests :: "'ip list"
  ia_addrs :: "'ip list"
  ia_routes :: "'ip RouteVia list"

definition IfAddrs_new :: "'ip IfAddrs" where
  "IfAddrs_new = \<lparr>ia_mtu = 1360, ia_dests = [], ia_addrs = [], ia_routes = []\<rparr>"

text \<open>The getters.\<close>

definition getDests :: "'ip IfAddrs \<Rightarrow> 'ip list" where
  [simp]: "getDests ia = ia_dests ia"

definition getAddrs :: "'ip IfAddrs \<Rightarrow> 'ip list" where
  [simp]: "getAddrs ia = ia_addrs ia"

definition getRoutes :: "'ip IfAddrs \<Rightarrow> 'ip RouteVia list" where
  [simp]: "getRoutes ia = ia_routes ia"

definition getMtu :: "'ip IfAddrs \<Rightarrow> size_t" where
  [simp]: "getMtu ia = ia_mtu ia"

definition setMtu :: "size_t \<Rightarrow> 'ip IfAddrs \<Rightarrow> 'ip IfAddrs" where
  "setMtu m ia = ia\<lparr>ia_mtu := m\<rparr>"

definition isEcho :: "'ip IfAddrs \<Rightarrow> bool" where
  "isEcho ia \<longleftrightarrow> ia_addrs ia = []"

definition addDest :: "'ip ip_api \<Rightarrow> string \<Rightarrow> 'ip IfAddrs \<Rightarrow> bool \<times> 'ip IfAddrs" where
  "addDest P dest ia =
     (case ip_parse P dest of
        Inl e \<Rightarrow> (False, ia)
      | Inr a \<Rightarrow> (True, ia\<lparr>ia_dests := ia_dests ia @ [a]\<rparr>))"

definition addAddr :: "'ip ip_api \<Rightarrow> string \<Rightarrow> 'ip IfAddrs \<Rightarrow> bool \<times> 'ip IfAddrs" where
  "addAddr P addr ia =
     (case ip_parse P addr of
        Inl e \<Rightarrow> (False, ia)
      | Inr a \<Rightarrow> (True, ia\<lparr>ia_addrs := ia_addrs ia @ [a]\<rparr>))"

definition addRoute :: "'ip RouteVia \<Rightarrow> 'ip IfAddrs \<Rightarrow> bool \<times> 'ip IfAddrs" where
  "addRoute route ia =
     (if \<not> RouteVia_isValid route then (False, ia)
      else (True, ia\<lparr>ia_routes := ia_routes ia @ [route]\<rparr>))"

section \<open>JSON\<close>

definition j_list :: "'j json_api \<Rightarrow> 'j list \<Rightarrow> 'j" where
  "j_list J xs = foldl (j_append J) (j_array J) xs"

text \<open>The loop over \<open>routes\<close>, which fills \<open>res\<close>.\<close>

fun routes_json :: "'j json_api \<Rightarrow> 'ip ip_api \<Rightarrow> 'ip RouteVia list \<Rightarrow> 'j \<Rightarrow> 'j exec" where
  "routes_json J P [] res = Inr res"
| "routes_json J P (v # vs) res =
     ebind (RouteVia_asJson J P v (j_null J)) (\<lambda>route. routes_json J P vs (j_append J res route))"

definition IfAddrs_asJson :: "'j json_api \<Rightarrow> 'ip ip_api \<Rightarrow> 'ip IfAddrs \<Rightarrow> 'j \<Rightarrow> 'j exec" where
  "IfAddrs_asJson J P ia val =
     ebind (j_put J val ''mtu'' (j_uint J (ia_mtu ia))) (\<lambda>val1.
     ebind (j_put J val1 ''dests'' (j_list J (map (\<lambda>v. j_str J (ip_to_string P v)) (ia_dests ia))))
       (\<lambda>val2.
     ebind (j_put J val2 ''addrs'' (j_list J (map (\<lambda>v. j_str J (ip_to_string P v)) (ia_addrs ia))))
       (\<lambda>val3.
     ebind (routes_json J P (ia_routes ia) (j_array J)) (\<lambda>res.
     j_put J val3 ''routes'' res))))"

fun add_strings ::
  "'j json_api \<Rightarrow> (string \<Rightarrow> 'ip IfAddrs \<Rightarrow> bool \<times> 'ip IfAddrs) \<Rightarrow> 'j list \<Rightarrow> 'ip IfAddrs \<Rightarrow>
   (bool \<times> 'ip IfAddrs) exec" where
  "add_strings J add [] ia = Inr (True, ia)"
| "add_strings J add (v # vs) ia =
     ebind (j_asString J v) (\<lambda>s.
       let (ok, ia') = add s ia in
       if ok then add_strings J add vs ia' else Inr (False, ia'))"

fun add_routes ::
  "'j json_api \<Rightarrow> 'ip ip_api \<Rightarrow> 'j list \<Rightarrow> 'ip IfAddrs \<Rightarrow> (bool \<times> 'ip IfAddrs) exec" where
  "add_routes J P [] ia = Inr (True, ia)"
| "add_routes J P (item # items) ia =
     ebind (RouteVia_fromJson J P item (RouteVia_new P)) (\<lambda>(ok, rv).
       if \<not> ok then Inr (False, ia)
       else let (ok', ia') = addRoute rv ia in
            if ok' then add_routes J P items ia' else Inr (False, ia'))"

definition IfAddrs_fromJson ::
  "'j json_api \<Rightarrow> 'ip ip_api \<Rightarrow> 'j \<Rightarrow> 'ip IfAddrs \<Rightarrow> (bool \<times> 'ip IfAddrs) exec" where
  "IfAddrs_fromJson J P val ia =
     ebind (j_at J val ''dests'') (\<lambda>jd.
     ebind (add_strings J (addDest P) (j_elems J jd) ia) (\<lambda>(ok1, ia1).
       if \<not> ok1 then Inr (False, ia1) else
     ebind (j_get J val ''mtu'' (j_uint J (ia_mtu ia1))) (\<lambda>jm.
     ebind (j_asInt J jm) (\<lambda>m.
       let ia2 = setMtu (word_of_int m) ia1 in
     ebind (j_at J val ''addrs'') (\<lambda>ja.
     ebind (add_strings J (addAddr P) (j_elems J ja) ia2) (\<lambda>(ok3, ia3).
       if \<not> ok3 then Inr (False, ia3) else
     ebind (j_at J val ''routes'') (\<lambda>jr.
     add_routes J P (j_elems J jr) ia3)))))))"

section \<open>Commands\<close>

definition linux_asCommands :: "'ip ip_api \<Rightarrow> 'ip IfAddrs \<Rightarrow> string \<Rightarrow> SystemCmd list" where
  "linux_asCommands P ia dev =
     map (\<lambda>addr. args [''addr'', ''add'', ip_to_string P addr, ''dev'', dev]
                   (SystemCmd_new ''/sbin/ip'')) (ia_addrs ia) @
     map (\<lambda>route. args [''route'', ''add'', ip_to_string P (rv_dest route), ''via'',
                        ip_to_s P (rv_via route), ''dev'', dev]
                   (SystemCmd_new ''/sbin/ip'')) (ia_routes ia) @
     [arg ''up'' (arg_num (ia_mtu ia)
        (args [''link'', ''set'', ''dev'', dev, ''mtu''] (SystemCmd_new ''/sbin/ip'')))]"

text \<open>The body of the nested loop over destinations and addresses on macOS.\<close>

fun macos_addr_cmds :: "'ip ip_api \<Rightarrow> string \<Rightarrow> 'ip \<Rightarrow> 'ip list \<Rightarrow> SystemCmd list" where
  "macos_addr_cmds P dev dst [] = []"
| "macos_addr_cmds P dev dst (addr # addrs) =
     (if \<not> ip_same_kind P dst addr then macos_addr_cmds P dev dst addrs
      else if ip_includes P addr dst
      then args [dev, ip_to_s P addr, ip_to_s P dst] (SystemCmd_new ''/sbin/ifconfig'')
             # macos_addr_cmds P dev dst addrs
      else args [dev, ''alias'', ip_to_string P addr] (SystemCmd_new ''/sbin/ifconfig'')
             # macos_addr_cmds P dev dst addrs)"

definition macos_asCommands :: "'ip ip_api \<Rightarrow> 'ip IfAddrs \<Rightarrow> string \<Rightarrow> SystemCmd list" where
  "macos_asCommands P ia dev =
     concat (map (\<lambda>dst. macos_addr_cmds P dev dst (ia_addrs ia)) (getDests ia)) @
     map (\<lambda>route. args [''add'', ip_to_string P (rv_dest route), ip_to_s P (rv_via route),
                        ''-ifscope'', dev] (SystemCmd_new ''/sbin/route'')) (ia_routes ia) @
     [arg ''up'' (arg_num (ia_mtu ia)
        (args [dev, ''mtu''] (SystemCmd_new ''/sbin/ifconfig'')))]"

text \<open>The commands that either file lists for the description of \<open>test/if_addrs_test.cpp\<close>.\<close>

definition linux_IfAddrsRef :: "string list" where
  "linux_IfAddrsRef = [
     ''/sbin/ip addr add 10.1.0.1/24 dev DEV'',
     ''/sbin/ip addr add fd00::1000/112 dev DEV'',
     ''/sbin/ip addr add 10.2.0.1/24 dev DEV'',
     ''/sbin/ip route add 172.16.0.1/24 via 172.16.0.254 dev DEV'',
     ''/sbin/ip route add 172.17.0.1/24 via 172.17.0.254 dev DEV'',
     ''/sbin/ip link set dev DEV mtu 1360 up'']"

definition macos_IfAddrsRef :: "string list" where
  "macos_IfAddrsRef = [
     ''/sbin/ifconfig DEV 10.1.0.1 10.1.0.254'',
     ''/sbin/ifconfig DEV alias 10.2.0.1/24'',
     ''/sbin/ifconfig DEV fd00::1000 fd00::1'',
     ''/sbin/route add 172.16.0.1/24 172.16.0.254 -ifscope DEV'',
     ''/sbin/route add 172.17.0.1/24 172.17.0.254 -ifscope DEV'',
     ''/sbin/ifconfig DEV mtu 1360 up'']"

section \<open>The contract of the platforms\<close>

text \<open>
  What \<open>TunDevice\<close> relies on, whichever of the two files it is linked with: the list
  of commands addresses only the device it is given, configures the routes in order
  after all addresses, and ends by setting the MTU and bringing the device up.
\<close>

locale if_config =
  fixes asCommands :: "'ip ip_api \<Rightarrow> 'ip IfAddrs \<Rightarrow> string \<Rightarrow> SystemCmd list"
    and addr_cmds :: "'ip ip_api \<Rightarrow> 'ip IfAddrs \<Rightarrow> string \<Rightarrow> SystemCmd list"
    and route_cmd :: "'ip ip_api \<Rightarrow> 'ip RouteVia \<Rightarrow> string \<Rightarrow> SystemCmd"
    and up_cmd :: "'ip IfAddrs \<Rightarrow> string \<Rightarrow> SystemCmd"
    and tools :: "string set"
  assumes parts: "asCommands P ia dev =
      addr_cmds P ia dev @ map (\<lambda>r. route_cmd P r dev) (ia_routes ia) @ [up_cmd ia dev]"
    and addr_dev: "c \<in> set (addr_cmds P ia dev) \<Longrightarrow> dev \<in> set (sc_args c) \<and> sc_exec c \<in> tools"
    and route_dev: "dev \<in> set (sc_args (route_cmd P r dev)) \<and> sc_exec (route_cmd P r dev) \<in> tools"
    and route_args: "ip_to_string P (rv_dest r) \<in> set (sc_args (route_cmd P r dev)) \<and>
      ip_to_s P (rv_via r) \<in> set (sc_args (route_cmd P r dev))"
    and up_dev: "dev \<in> set (sc_args (up_cmd ia dev)) \<and> sc_exec (up_cmd ia dev) \<in> tools"
    and up_args: "\<exists>pre. sc_args (up_cmd ia dev) = pre @ [''mtu'', to_string (ia_mtu ia), ''up'']"
begin

lemma commands_nonempty: "asCommands P ia dev \<noteq> []"
  by (simp add: parts)

lemma commands_last_up: "last (asCommands P ia dev) = up_cmd ia dev"
  by (simp add: parts)

lemma commands_dev: "c \<in> set (asCommands P ia dev) \<Longrightarrow> dev \<in> set (sc_args c) \<and> sc_exec c \<in> tools"
  using addr_dev route_dev up_dev by (auto simp: parts)

lemma commands_route_order:
  assumes "i < length (ia_routes ia)"
  shows "asCommands P ia dev ! (length (addr_cmds P ia dev) + i) = route_cmd P (ia_routes ia ! i) dev"
  using assms by (simp add: parts nth_append)

lemma commands_length:
  "length (asCommands P ia dev) = length (addr_cmds P ia dev) + length (ia_routes ia) + 1"
  by (simp add: parts)

lemma commands_up_mtu:
  "\<exists>pre. sc_args (last (asCommands P ia dev)) = pre @ [''mtu'', to_string (ia_mtu ia), ''up'']"
  using up_args by (simp add: commands_last_up)

end

definition linux_addr_cmds :: "'ip ip_api \<Rightarrow> 'ip IfAddrs \<Rightarrow> string \<Rightarrow> SystemCmd list" where
  "linux_addr_cmds P ia dev =
     map (\<lambda>addr. args [''addr'', ''add'', ip_to_string P addr, ''dev'', dev]
                   (SystemCmd_new ''/sbin/ip'')) (ia_addrs ia)"

definition linux_route_cmd :: "'ip ip_api \<Rightarrow> 'ip RouteVia \<Rightarrow> string \<Rightarrow> SystemCmd" where
  "linux_route_cmd P r dev =
     args [''route'', ''add'', ip_to_string P (rv_dest r), ''via'', ip_to_s P (rv_via r),
           ''dev'', dev] (SystemCmd_new ''/sbin/ip'')"

definition linux_up_cmd :: "'ip IfAddrs \<Rightarrow> string \<Rightarrow> SystemCmd" where
  "linux_up_cmd ia dev =
     arg ''up'' (arg_num (ia_mtu ia)
       (args [''link'', ''set'', ''dev'', dev, ''mtu''] (SystemCmd_new ''/sbin/ip'')))"

interpretation linux_if: if_config linux_asCommands linux_addr_cmds linux_route_cmd linux_up_cmd
  "{''/sbin/ip''}"
  by unfold_locales
    (auto simp: linux_asCommands_def linux_addr_cmds_def linux_route_cmd_def linux_up_cmd_def
      simp del: args_simps)

definition macos_all_addr_cmds :: "'ip ip_api \<Rightarrow> 'ip IfAddrs \<Rightarrow> string \<Rightarrow> SystemCmd list" where
  "macos_all_addr_cmds P ia dev =
     concat (map (\<lambda>dst. macos_addr_cmds P dev dst (ia_addrs ia)) (ia_dests ia))"

definition macos_route_cmd :: "'ip ip_api \<Rightarrow> 'ip RouteVia \<Rightarrow> string \<Rightarrow> SystemCmd" where
  "macos_route_cmd P r dev =
     args [''add'', ip_to_string P (rv_dest r), ip_to_s P (rv_via r), ''-ifscope'', dev]
       (SystemCmd_new ''/sbin/route'')"

definition macos_up_cmd :: "'ip IfAddrs \<Rightarrow> string \<Rightarrow> SystemCmd" where
  "macos_up_cmd ia dev =
     arg ''up'' (arg_num (ia_mtu ia) (args [dev, ''mtu''] (SystemCmd_new ''/sbin/ifconfig'')))"

lemma macos_addr_cmds_dev:
  "c \<in> set (macos_addr_cmds P dev dst addrs) \<Longrightarrow>
     dev \<in> set (sc_args c) \<and> sc_exec c = ''/sbin/ifconfig''"
  by (induction addrs) (auto simp del: args_simps split: if_splits)

interpretation macos_if: if_config macos_asCommands macos_all_addr_cmds macos_route_cmd
  macos_up_cmd "{''/sbin/ifconfig'', ''/sbin/route''}"
  by unfold_locales
    (auto simp: macos_asCommands_def macos_all_addr_cmds_def macos_route_cmd_def macos_up_cmd_def
      simp del: args_simps dest!: macos_addr_cmds_dev)

section \<open>Facts about the JSON form\<close>

definition route_ok :: "'ip ip_api \<Rightarrow> 'ip RouteVia \<Rightarrow> bool" where
  "route_ok P r \<longleftrightarrow> ip_valid P (rv_dest r) \<and> ip_valid P (rv_via r) \<and> ip_host P (rv_via r)"

definition if_ok :: "'ip ip_api \<Rightarrow> 'ip IfAddrs \<Rightarrow> bool" where
  "if_ok P ia \<longleftrightarrow>
     (\<forall>a \<in> set (ia_dests ia). ip_valid P a) \<and> (\<forall>a \<in> set (ia_addrs ia). ip_valid P a) \<and>
     (\<forall>r \<in> set (ia_routes ia). route_ok P r)"

lemma RouteVia_create_ok:
  "ip_laws P \<Longrightarrow> RouteVia_create P d v = Inr r \<Longrightarrow>
     route_ok P r \<and> ip_same_kind P (rv_via r) (rv_dest r)"
  by (auto simp: RouteVia_create_def route_ok_def ip_host_def dest: ip_lawsD(1)
      split: sum.splits if_splits)

lemma j_list_elems:
  assumes "json_laws J"
  shows "j_arr J (j_list J xs) \<and> j_elems J (j_list J xs) = xs"
  using j_value_laws [OF assms] by (induction xs rule: rev_induct) (auto simp: j_list_def)

lemma RouteVia_json:
  assumes J: "json_laws J" and P: "ip_laws P" and r: "route_ok P r"
  shows "\<exists>v. RouteVia_asJson J P r (j_null J) = Inr v \<and>
    (\<forall>rv. RouteVia_fromJson J P v rv = Inr (True, r))"
proof -
  obtain v where v: "RouteVia_asJson J P r (j_null J) = Inr v"
    "\<And>k. j_at J v k = (case map_of (rev [(''dest'', j_str J (ip_to_string P (rv_dest r))),
       (''via'', j_str J (ip_to_s P (rv_via r)))]) k of Some x \<Rightarrow> Inr x | None \<Rightarrow> j_at J (j_null J) k)"
    using j_puts_obj [OF J j_null_obj(1) [OF J], of "[(''dest'', j_str J (ip_to_string P (rv_dest r))),
       (''via'', j_str J (ip_to_s P (rv_via r)))]"] unfolding RouteVia_asJson_def by blast
  have "RouteVia_fromJson J P v rv = Inr (True, r)" for rv
    using r
    by (cases r; cases rv)
      (simp add: RouteVia_fromJson_def v(2) route_ok_def ip_lawsD(2,3) [OF P] j_value_laws [OF J])
  with v(1) show ?thesis by blast
qed

lemma routes_json_ok:
  assumes J: "json_laws J" and P: "ip_laws P"
  shows "\<forall>r \<in> set rs. route_ok P r \<Longrightarrow> j_arr J res0 \<Longrightarrow>
    \<exists>res items. routes_json J P rs res0 = Inr res \<and> j_arr J res \<and>
      j_elems J res = j_elems J res0 @ items \<and>
      list_all2 (\<lambda>r item. \<forall>rv. RouteVia_fromJson J P item rv = Inr (True, r)) rs items"
proof (induction rs arbitrary: res0)
  case (Cons r rs)
  obtain v where v: "RouteVia_asJson J P r (j_null J) = Inr v"
    "\<forall>rv. RouteVia_fromJson J P v rv = Inr (True, r)"
    using RouteVia_json [OF J P, of r] Cons.prems(1) by auto
  have arr: "j_arr J (j_append J res0 v)" "j_elems J (j_append J res0 v) = j_elems J res0 @ [v]"
    using Cons.prems(2) by (auto simp: j_value_laws(5,6) [OF J])
  from Cons.IH [OF _ arr(1)] Cons.prems(1) obtain res items where
    "routes_json J P rs (j_append J res0 v) = Inr res" "j_arr J res"
    "j_elems J res = j_elems J (j_append J res0 v) @ items"
    "list_all2 (\<lambda>r item. \<forall>rv. RouteVia_fromJson J P item rv = Inr (True, r)) rs items"
    by auto
  with v arr(2) show ?case by (intro exI [of _ res] exI [of _ "v # items"]) simp
qed simp

lemma add_routes_ok:
  "list_all2 (\<lambda>r item. \<forall>rv. RouteVia_fromJson J P item rv = Inr (True, r)) rs items \<Longrightarrow>
     add_routes J P items ia = Inr (True, ia\<lparr>ia_routes := ia_routes ia @ rs\<rparr>)"
proof (induction rs items arbitrary: ia rule: list_all2_induct)
  case (Cons r rs item items)
  then show ?case by (simp add: addRoute_def RouteVia_isValid_def)
qed simp

lemma add_dests_ok:
  assumes J: "json_laws J" and P: "ip_laws P"
  shows "\<forall>a \<in> set as. ip_valid P a \<Longrightarrow>
    add_strings J (addDest P) (map (\<lambda>v. j_str J (ip_to_string P v)) as) ia =
      Inr (True, ia\<lparr>ia_dests := ia_dests ia @ as\<rparr>)"
  using ip_lawsD(2) [OF P]
  by (induction as arbitrary: ia) (auto simp: addDest_def j_value_laws [OF J])

lemma add_addrs_ok:
  assumes J: "json_laws J" and P: "ip_laws P"
  shows "\<forall>a \<in> set as. ip_valid P a \<Longrightarrow>
    add_strings J (addAddr P) (map (\<lambda>v. j_str J (ip_to_string P v)) as) ia =
      Inr (True, ia\<lparr>ia_addrs := ia_addrs ia @ as\<rparr>)"
  using ip_lawsD(2) [OF P]
  by (induction as arbitrary: ia) (auto simp: addAddr_def j_value_laws [OF J])

text \<open>Writing a description never fails, whatever its addresses are.\<close>

lemma routes_json_total:
  assumes J: "json_laws J"
  shows "\<exists>res. routes_json J P rs res0 = Inr res"
proof (induction rs arbitrary: res0)
  case (Cons r rs)
  obtain v where "RouteVia_asJson J P r (j_null J) = Inr v"
    using j_puts_obj [OF J j_null_obj(1) [OF J]] unfolding RouteVia_asJson_def by blast
  then show ?case using Cons.IH by simp
qed simp

lemma IfAddrs_asJson_total:
  assumes J: "json_laws J"
  obtains v where "IfAddrs_asJson J P ia (j_null J) = Inr v"
proof -
  let ?l = "\<lambda>xs. j_list J (map (\<lambda>v. j_str J (ip_to_string P v)) xs)"
  obtain res where r: "routes_json J P (ia_routes ia) (j_array J) = Inr res"
    using routes_json_total [OF J] by blast
  obtain v1 where v1: "j_put J (j_null J) ''mtu'' (j_uint J (ia_mtu ia)) = Inr v1" "j_obj J v1"
    using j_put_obj [OF J j_null_obj(1) [OF J]] by blast
  obtain v2 where v2: "j_put J v1 ''dests'' (?l (ia_dests ia)) = Inr v2" "j_obj J v2"
    using j_put_obj [OF J v1(2)] by blast
  obtain v3 where v3: "j_put J v2 ''addrs'' (?l (ia_addrs ia)) = Inr v3" "j_obj J v3"
    using j_put_obj [OF J v2(2)] by blast
  obtain v4 where "j_put J v3 ''routes'' res = Inr v4" using j_put_obj [OF J v3(2)] by blast
  then show ?thesis using that by (simp add: IfAddrs_asJson_def v1 v2 v3 r)
qed

lemma IfAddrs_asJson_parts:
  assumes J: "json_laws J" and P: "ip_laws P" and ok: "if_ok P ia"
  obtains v res items where "IfAddrs_asJson J P ia (j_null J) = Inr v" "j_obj J v"
    "j_has J v ''mtu''"
    "j_at J v ''mtu'' = Inr (j_uint J (ia_mtu ia))"
    "j_at J v ''dests'' = Inr (j_list J (map (\<lambda>v. j_str J (ip_to_string P v)) (ia_dests ia)))"
    "j_at J v ''addrs'' = Inr (j_list J (map (\<lambda>v. j_str J (ip_to_string P v)) (ia_addrs ia)))"
    "j_at J v ''routes'' = Inr res" "j_elems J res = items"
    "list_all2 (\<lambda>r item. \<forall>rv. RouteVia_fromJson J P item rv = Inr (True, r)) (ia_routes ia) items"
proof -
  let ?l = "\<lambda>xs. j_list J (map (\<lambda>v. j_str J (ip_to_string P v)) xs)"
  obtain res items where r: "routes_json J P (ia_routes ia) (j_array J) = Inr res"
    "j_elems J res = items"
    "list_all2 (\<lambda>r item. \<forall>rv. RouteVia_fromJson J P item rv = Inr (True, r)) (ia_routes ia) items"
    using routes_json_ok [OF J P, of "ia_routes ia" "j_array J"] ok j_value_laws(1,3) [OF J]
    by (auto simp: if_ok_def)
  obtain v1 where v1: "j_put J (j_null J) ''mtu'' (j_uint J (ia_mtu ia)) = Inr v1" "j_obj J v1"
    "\<And>k. j_has J v1 k \<longleftrightarrow> k = ''mtu'' \<or> j_has J (j_null J) k"
    "\<And>k. j_at J v1 k = (if k = ''mtu'' then Inr (j_uint J (ia_mtu ia)) else j_at J (j_null J) k)"
    using j_put_obj [OF J j_null_obj(1) [OF J]] by blast
  obtain v2 where v2: "j_put J v1 ''dests'' (?l (ia_dests ia)) = Inr v2" "j_obj J v2"
    "\<And>k. j_has J v2 k \<longleftrightarrow> k = ''dests'' \<or> j_has J v1 k"
    "\<And>k. j_at J v2 k = (if k = ''dests'' then Inr (?l (ia_dests ia)) else j_at J v1 k)"
    using j_put_obj [OF J v1(2)] by blast
  obtain v3 where v3: "j_put J v2 ''addrs'' (?l (ia_addrs ia)) = Inr v3" "j_obj J v3"
    "\<And>k. j_has J v3 k \<longleftrightarrow> k = ''addrs'' \<or> j_has J v2 k"
    "\<And>k. j_at J v3 k = (if k = ''addrs'' then Inr (?l (ia_addrs ia)) else j_at J v2 k)"
    using j_put_obj [OF J v2(2)] by blast
  obtain v4 where v4: "j_put J v3 ''routes'' res = Inr v4" "j_obj J v4"
    "\<And>k. j_has J v4 k \<longleftrightarrow> k = ''routes'' \<or> j_has J v3 k"
    "\<And>k. j_at J v4 k = (if k = ''routes'' then Inr res else j_at J v3 k)"
    using j_put_obj [OF J v3(2)] by blast
  show ?thesis
    by (rule that [of v4 res items])
      (simp_all add: IfAddrs_asJson_def v1 v2 v3 v4 r)
qed

lemma IfAddrs_json_onto:
  assumes J: "json_laws J" and P: "ip_laws P" and ok: "if_ok P ia" and m: "unat (ia_mtu ia) < 2 ^ 31"
  shows "\<exists>v. IfAddrs_asJson J P ia (j_null J) = Inr v \<and>
    IfAddrs_fromJson J P v ia0 = Inr (True,
      \<lparr>ia_mtu = ia_mtu ia, ia_dests = ia_dests ia0 @ ia_dests ia,
       ia_addrs = ia_addrs ia0 @ ia_addrs ia, ia_routes = ia_routes ia0 @ ia_routes ia\<rparr>)"
proof -
  obtain v res items where v: "IfAddrs_asJson J P ia (j_null J) = Inr v" "j_obj J v"
    "j_has J v ''mtu''"
    "j_at J v ''mtu'' = Inr (j_uint J (ia_mtu ia))"
    "j_at J v ''dests'' = Inr (j_list J (map (\<lambda>v. j_str J (ip_to_string P v)) (ia_dests ia)))"
    "j_at J v ''addrs'' = Inr (j_list J (map (\<lambda>v. j_str J (ip_to_string P v)) (ia_addrs ia)))"
    "j_at J v ''routes'' = Inr res" "j_elems J res = items"
    "list_all2 (\<lambda>r item. \<forall>rv. RouteVia_fromJson J P item rv = Inr (True, r)) (ia_routes ia) items"
    by (rule IfAddrs_asJson_parts [OF J P ok])
  have valid: "\<forall>a \<in> set (ia_dests ia). ip_valid P a" "\<forall>a \<in> set (ia_addrs ia). ip_valid P a"
    using ok by (auto simp: if_ok_def)
  show ?thesis
    using v(1) m
    by (simp add: IfAddrs_fromJson_def v j_list_elems [OF J] add_dests_ok [OF J P valid(1)]
        add_addrs_ok [OF J P valid(2)] add_routes_ok [OF v(9)] j_get_obj [OF J v(2)]
        j_value_laws [OF J] setMtu_def Let_def)
qed

section \<open>Properties\<close>

lemma dump_args_new:
  "dump (args ps (SystemCmd_new x)) = x @ concat (map (\<lambda>v. '' '' @ v) ps)"
  by (simp add: dump_no_env del: args_simps)

lemma dump_up:
  "dump (arg ''up'' (arg_num n (args ps (SystemCmd_new x)))) =
     x @ concat (map (\<lambda>v. '' '' @ v) (ps @ [to_string n, ''up'']))"
  by (simp add: dump_no_env del: args_simps)

text \<open>C22: an interface description survives the trip through JSON. Writing it with \<open>asJson\<close>
  and reading the value into a fresh object with \<open>fromJson\<close> succeeds and gives back the
  same MTU, destinations, addresses and routes in the same order, for every description
  whose parts came from the address parser, whose gateways are host addresses and whose MTU
  fits an \<open>int\<close>.\<close>
theorem ifaddrs_json_roundtrip:
  assumes "json_laws J" "ip_laws P" "if_ok P ia" "unat (ia_mtu ia) < 2 ^ 31"
  shows "\<exists>v. IfAddrs_asJson J P ia (j_null J) = Inr v \<and>
    IfAddrs_fromJson J P v IfAddrs_new = Inr (True, ia)"
  using IfAddrs_json_onto [OF assms, of IfAddrs_new] by (cases ia) (simp add: IfAddrs_new_def)

theorem ifaddrs_json_roundtrip_witness:
  "\<exists>v. IfAddrs_asJson (jv_api (\<lambda>_. None)) v4_api
      \<lparr>ia_mtu = 1360, ia_dests = [V4 10 1 0 254 32], ia_addrs = [V4 10 1 0 1 24],
       ia_routes = [\<lparr>rv_dest = V4 172 16 0 1 24, rv_via = V4 172 16 0 254 32\<rparr>]\<rparr> JNull = Inr v \<and>
    IfAddrs_fromJson (jv_api (\<lambda>_. None)) v4_api v IfAddrs_new = Inr (True,
      \<lparr>ia_mtu = 1360, ia_dests = [V4 10 1 0 254 32], ia_addrs = [V4 10 1 0 1 24],
       ia_routes = [\<lparr>rv_dest = V4 172 16 0 1 24, rv_via = V4 172 16 0 254 32\<rparr>]\<rparr>)"
  using ifaddrs_json_roundtrip [OF jv_api_laws [of "\<lambda>_. None"] v4_laws,
      of "\<lparr>ia_mtu = 1360, ia_dests = [V4 10 1 0 254 32], ia_addrs = [V4 10 1 0 1 24],
       ia_routes = [\<lparr>rv_dest = V4 172 16 0 1 24, rv_via = V4 172 16 0 254 32\<rparr>]\<rparr>"]
  by (simp add: if_ok_def route_ok_def ip_host_def v4_api_def jv_api_def)

text \<open>What \<open>asJson\<close> writes is not always readable. A description with an MTU of
  \<open>2 ^ 31\<close> or more is written, but \<open>fromJson\<close> reads the member with \<open>asInt\<close>, so an
  exception leaves it.\<close>
theorem ifaddrs_json_big_mtu_throws:
  assumes "json_laws J" "ip_laws P" "if_ok P ia" "2 ^ 31 \<le> unat (ia_mtu ia)"
  shows "\<exists>v e. IfAddrs_asJson J P ia (j_null J) = Inr v \<and>
    IfAddrs_fromJson J P v ia0 = Inl (Throws e)"
proof -
  obtain v res items where v: "IfAddrs_asJson J P ia (j_null J) = Inr v" "j_obj J v"
    "j_has J v ''mtu''"
    "j_at J v ''mtu'' = Inr (j_uint J (ia_mtu ia))"
    "j_at J v ''dests'' = Inr (j_list J (map (\<lambda>v. j_str J (ip_to_string P v)) (ia_dests ia)))"
    by (rule IfAddrs_asJson_parts [OF assms(1-3)])
  have valid: "\<forall>a \<in> set (ia_dests ia). ip_valid P a" using assms(3) by (simp add: if_ok_def)
  obtain e where "j_asInt J (j_uint J (ia_mtu ia)) = Inl (Throws e)"
    using j_value_laws(11) [OF assms(1,4)] by blast
  then show ?thesis
    using v(1)
    by (simp add: IfAddrs_fromJson_def v j_list_elems [OF assms(1)] j_get_obj [OF assms(1) v(2)]
        add_dests_ok [OF assms(1,2) valid])
qed

theorem ifaddrs_json_big_mtu_throws_witness:
  "\<exists>v e. IfAddrs_asJson (jv_api (\<lambda>_. None)) v4_api (setMtu (2 ^ 31) IfAddrs_new) JNull = Inr v \<and>
    IfAddrs_fromJson (jv_api (\<lambda>_. None)) v4_api v IfAddrs_new = Inl (Throws e)"
  using ifaddrs_json_big_mtu_throws [OF jv_api_laws [of "\<lambda>_. None"] v4_laws,
      of "setMtu (2 ^ 31) IfAddrs_new" IfAddrs_new]
  by (simp add: if_ok_def setMtu_def IfAddrs_new_def jv_api_def)

text \<open>\<open>create\<close> accepts exactly the well-formed routes: both texts parse, destination and
  gateway are of one address family, and the gateway is a host address. \<open>fromJson\<close>, which
  the server uses, accepts every pair of texts that parse, so a route that \<open>create\<close>
  refuses for its family or its prefix passes.\<close>
theorem route_create_exact:
  "RouteVia_create P d v = Inr r \<longleftrightarrow>
     ip_parse P d = Inr (rv_dest r) \<and> ip_parse P v = Inr (rv_via r) \<and>
     ip_same_kind P (rv_via r) (rv_dest r) \<and> ip_host P (rv_via r)"
  by (cases r) (auto simp: RouteVia_create_def ip_host_def RouteVia_new_def split: sum.splits)

text \<open>The Linux commands, as the shell would see them. Every address is added to the
  device, then every route in order, and last the device gets its MTU and is brought up;
  an empty description still yields the last command.\<close>
theorem linux_commands_text:
  "map dump (linux_asCommands P ia dev) =
     map (\<lambda>a. ''/sbin/ip addr add '' @ ip_to_string P a @ '' dev '' @ dev) (ia_addrs ia) @
     map (\<lambda>r. ''/sbin/ip route add '' @ ip_to_string P (rv_dest r) @ '' via '' @
              ip_to_s P (rv_via r) @ '' dev '' @ dev) (ia_routes ia) @
     [''/sbin/ip link set dev '' @ dev @ '' mtu '' @ to_string (ia_mtu ia) @ '' up'']"
  unfolding linux_asCommands_def map_append map_map comp_def dump_args_new list.map dump_up
  by simp

text \<open>The macOS commands. Addresses are configured from the list of destinations only: for
  each destination, each address of its family is set as point-to-point peer when its
  network contains the destination and as an alias otherwise; so an address without a
  destination of its family is never configured.\<close>
theorem macos_commands_text:
  "map dump (macos_asCommands P ia dev) =
     concat (map (\<lambda>dst. map (\<lambda>a. if ip_includes P a dst
         then ''/sbin/ifconfig '' @ dev @ '' '' @ ip_to_s P a @ '' '' @ ip_to_s P dst
         else ''/sbin/ifconfig '' @ dev @ '' alias '' @ ip_to_string P a)
       (filter (ip_same_kind P dst) (ia_addrs ia))) (ia_dests ia)) @
     map (\<lambda>r. ''/sbin/route add '' @ ip_to_string P (rv_dest r) @ '' '' @ ip_to_s P (rv_via r) @
              '' -ifscope '' @ dev) (ia_routes ia) @
     [''/sbin/ifconfig '' @ dev @ '' mtu '' @ to_string (ia_mtu ia) @ '' up'']"
proof -
  have a: "map dump (macos_addr_cmds P dev dst as) =
      map (\<lambda>a. if ip_includes P a dst
         then ''/sbin/ifconfig '' @ dev @ '' '' @ ip_to_s P a @ '' '' @ ip_to_s P dst
         else ''/sbin/ifconfig '' @ dev @ '' alias '' @ ip_to_string P a)
       (filter (ip_same_kind P dst) as)" for dst as
    by (induction as) (simp_all add: dump_args_new del: args_simps)
  show ?thesis
    unfolding macos_asCommands_def map_append map_concat map_map comp_def dump_args_new list.map
      dump_up a
    by simp
qed

text \<open>
  The description of the test: two destinations, three addresses and two routes. When the
  address library prints them as they were written and tells their families and networks
  apart, either platform's commands are the listed ones.
\<close>

theorem reference_commands:
  assumes strs: "map (ip_to_string P) [a1, a2, a3] = [''10.1.0.1/24'', ''fd00::1000/112'', ''10.2.0.1/24'']"
      "map (ip_to_s P) [a1, a2, d1, d2] = [''10.1.0.1'', ''fd00::1000'', ''10.1.0.254'', ''fd00::1'']"
    and routes: "map (ip_to_string P \<circ> rv_dest) rs = [''172.16.0.1/24'', ''172.17.0.1/24'']"
      "map (ip_to_s P \<circ> rv_via) rs = [''172.16.0.254'', ''172.17.0.254'']"
    and nets: "map (ip_same_kind P d1) [a1, a2, a3] = [True, False, True]"
      "map (ip_same_kind P d2) [a1, a2, a3] = [False, True, False]"
      "ip_includes P a1 d1" "ip_includes P a2 d2" "\<not> ip_includes P a3 d1"
  defines "ia \<equiv> \<lparr>ia_mtu = 1360, ia_dests = [d1, d2], ia_addrs = [a1, a2, a3], ia_routes = rs\<rparr>"
  shows "map dump (linux_asCommands P ia ''DEV'') = linux_IfAddrsRef"
    "map dump (macos_asCommands P ia ''DEV'') = macos_IfAddrsRef"
proof -
  have n: "to_string 1360 = ''1360''" by code_simp
  obtain r1 r2 where rs: "rs = [r1, r2]"
    using arg_cong [OF routes(1), of length] by (auto simp: length_Suc_conv eval_nat_numeral)
  note facts = strs [simplified] routes [unfolded rs, simplified] nets [simplified]
  show "map dump (linux_asCommands P ia ''DEV'') = linux_IfAddrsRef"
    unfolding linux_commands_text by (simp add: ia_def rs n facts linux_IfAddrsRef_def)
  show "map dump (macos_asCommands P ia ''DEV'') = macos_IfAddrsRef"
    unfolding macos_commands_text by (simp add: ia_def rs n facts macos_IfAddrsRef_def)
qed

text \<open>On either platform the device start only ever configures the device it allocated. Every
  command runs one of the platform's two tools and names the device, and the last one sets
  the requested MTU and brings the device up.\<close>
theorem platform_commands_contract:
  "(c \<in> set (linux_asCommands P ia dev) \<longrightarrow> dev \<in> set (sc_args c) \<and> sc_exec c = ''/sbin/ip'') \<and>
    (c \<in> set (macos_asCommands P ia dev) \<longrightarrow> dev \<in> set (sc_args c) \<and>
     sc_exec c \<in> {''/sbin/ifconfig'', ''/sbin/route''}) \<and>
    (\<exists>pre. sc_args (last (linux_asCommands P ia dev)) = pre @ [''mtu'', to_string (ia_mtu ia), ''up'']) \<and>
    (\<exists>pre. sc_args (last (macos_asCommands P ia dev)) = pre @ [''mtu'', to_string (ia_mtu ia), ''up''])"
  using linux_if.commands_dev macos_if.commands_dev linux_if.commands_up_mtu macos_if.commands_up_mtu
  by blast+

theorem platform_commands_contract_witness:
  "dump (hd (linux_asCommands v4_api (setMtu 1360 IfAddrs_new) ''tun0'')) =
     ''/sbin/ip link set dev tun0 mtu 1360 up'' \<and>
   sc_exec (hd (linux_asCommands v4_api (setMtu 1360 IfAddrs_new) ''tun0'')) = ''/sbin/ip''"
proof -
  let ?cs = "linux_asCommands v4_api (setMtu 1360 IfAddrs_new) ''tun0''"
  have cs: "?cs = [arg ''up'' (arg_num 1360
      (args [''link'', ''set'', ''dev'', ''tun0'', ''mtu''] (SystemCmd_new ''/sbin/ip'')))]"
    by (simp add: linux_asCommands_def setMtu_def IfAddrs_new_def del: args_simps)
  have n: "to_string 1360 = ''1360''" by code_simp
  have "hd ?cs \<in> set ?cs" by (simp add: cs del: args_simps)
  with platform_commands_contract [of "hd ?cs"] have
    "sc_exec (hd ?cs) = ''/sbin/ip''" by blast
  then show ?thesis
    unfolding cs list.sel dump_up n by simp
qed

end
