(* ===== verification/Tun_Device.thy ===== *)
theory Tun_Device
  imports Tun_Io If_Addrs
begin

text \<open>
  \<open>tun_device.hpp\<close> and \<open>tun_alloc\<close> of \<open>tun_device.cpp\<close>: a device with its two packet
  queues, its life cycle (start in echo or tun mode, stop, join), its JSON form and the
  bodies of its threads. What the system answers is an argument of the operation, and so is
  the platform's \<open>asCommands\<close>. A \<open>std::thread\<close> is known by whether it was joined;
  destroying one that was not ends the program, which is \<open>Throws ''terminate''\<close>.
\<close>

section \<open>Allocating the tun descriptor\<close>

text \<open>
  The result is what \<open>tun_alloc\<close> returns, the string it leaves in \<open>dev\<close>, and the
  descriptors it opened and did not close. The loop over \<open>tun0\<close> to \<open>tun254\<close>:
  \<open>tunsetiff name\<close> is the result of the \<open>ioctl\<close> and the name it wrote back.
\<close>

type_synonym tun_alloc_result = "int \<times> string \<times> int list"

function tun_alloc_loop :: "(string \<Rightarrow> int \<times> string) \<Rightarrow> nat \<Rightarrow> int \<Rightarrow> string \<Rightarrow> tun_alloc_result" where
  "tun_alloc_loop tunsetiff i fd dev =
     (if i < 255 then
        (let (err, name) = tunsetiff (''tun'' @ show_nat i) in
         if 0 \<le> err then (fd, name, [fd]) else tun_alloc_loop tunsetiff (Suc i) fd dev)
      else (- 1, dev, []))"
  by pat_completeness auto
termination
  by (relation "measure (\<lambda>(t, i, fd, dev). 255 - i)") auto

declare tun_alloc_loop.simps [simp del]

definition linux_tun_alloc :: "int \<Rightarrow> (string \<Rightarrow> int \<times> string) \<Rightarrow> string \<Rightarrow> tun_alloc_result" where
  "linux_tun_alloc fd tunsetiff dev =
     (if fd < 0 then (- 1, dev, []) else tun_alloc_loop tunsetiff 0 fd dev)"

text \<open>
  On macOS: the results of \<open>socket\<close>, of the length check on the control name, of \<open>ioctl\<close>
  and of \<open>connect\<close>. The name is made from the unit number 2.
\<close>

definition apple_tun_alloc :: "int \<Rightarrow> bool \<Rightarrow> int \<Rightarrow> int \<Rightarrow> string \<Rightarrow> tun_alloc_result" where
  "apple_tun_alloc fd name_fits ioctl_ret connect_ret dev =
     (if fd = - 1 then (- 1, dev, [])
      else if \<not> name_fits then (- 1, dev, [])
      else if ioctl_ret = - 1 then (- 1, dev, [])
      else if connect_ret = - 1 then (- 1, dev, [])
      else (fd, ''utun'' @ show_nat (2 - 1), [fd]))"

section \<open>Data\<close>

datatype thread = Joinable | Joined

record ('ip, 'q) TunDevice =
  td_seq :: size_t
  td_ifAddrs :: "'ip IfAddrs"
  td_fromTun :: "'q PacketQueue"
  td_toTun :: "'q PacketQueue"
  td_running :: bool
  td_tunFd :: int
  td_tunDevName :: string
  td_fromTunThread :: "thread option"
  td_toTunThread :: "thread option"
  td_recvThread :: "thread option"
  td_statThread :: "thread option"

text \<open>\<open>raw\<close> and \<open>raw'\<close> are the indeterminate bytes of the two pools.\<close>

definition TunDevice_default ::
  "'q ring_api \<Rightarrow> (nat \<Rightarrow> char) \<Rightarrow> (nat \<Rightarrow> char) \<Rightarrow> time_point \<Rightarrow> ('ip, 'q) TunDevice" where
  "TunDevice_default R raw raw' now =
     \<lparr>td_seq = 4711, td_ifAddrs = IfAddrs_new, td_fromTun = PacketQueue_new R raw now 100 5 100,
      td_toTun = PacketQueue_new R raw' now 100 5 100, td_running = False, td_tunFd = - 1,
      td_tunDevName = ''defaultInit'', td_fromTunThread = None, td_toTunThread = None,
      td_recvThread = None, td_statThread = None\<rparr>"

definition TunDevice_new ::
  "'q ring_api \<Rightarrow> (nat \<Rightarrow> char) \<Rightarrow> (nat \<Rightarrow> char) \<Rightarrow> time_point \<Rightarrow> 'ip IfAddrs \<Rightarrow> size_t \<Rightarrow> size_t \<Rightarrow>
   ('ip, 'q) TunDevice" where
  "TunDevice_new R raw raw' now ifAddrs mtu qSize =
     \<lparr>td_seq = 0, td_ifAddrs = ifAddrs, td_fromTun = PacketQueue_new R raw now mtu qSize 100,
      td_toTun = PacketQueue_new R raw' now mtu qSize 100, td_running = False, td_tunFd = - 1,
      td_tunDevName = [], td_fromTunThread = None, td_toTunThread = None,
      td_recvThread = None, td_statThread = None\<rparr>"

text \<open>The getters.\<close>

definition getSeq :: "('ip, 'q) TunDevice \<Rightarrow> size_t" where
  [simp]: "getSeq tun = td_seq tun"

definition getRunning :: "('ip, 'q) TunDevice \<Rightarrow> bool" where
  [simp]: "getRunning tun = td_running tun"

definition getTunDevName :: "('ip, 'q) TunDevice \<Rightarrow> string" where
  [simp]: "getTunDevName tun = td_tunDevName tun"

definition getToTun :: "('ip, 'q) TunDevice \<Rightarrow> 'q PacketQueue" where
  [simp]: "getToTun tun = td_toTun tun"

definition getFromTun :: "('ip, 'q) TunDevice \<Rightarrow> 'q PacketQueue" where
  [simp]: "getFromTun tun = td_fromTun tun"

section \<open>Starting\<close>

text \<open>Assigning a new thread to one of the \<open>unique_ptr\<close> members destroys the old one.\<close>

definition new_thread :: "thread option \<Rightarrow> thread option exec" where
  "new_thread old = (if old = Some Joinable then Inl (Throws ''terminate'') else Inr (Some Joinable))"

definition setRecvThread :: "('ip, 'q) TunDevice \<Rightarrow> ('ip, 'q) TunDevice exec" where
  "setRecvThread tun = ebind (new_thread (td_recvThread tun)) (\<lambda>t. Inr (tun\<lparr>td_recvThread := t\<rparr>))"

definition setStatThread :: "('ip, 'q) TunDevice \<Rightarrow> ('ip, 'q) TunDevice exec" where
  "setStatThread tun = ebind (new_thread (td_statThread tun)) (\<lambda>t. Inr (tun\<lparr>td_statThread := t\<rparr>))"

text \<open>
  The system during \<open>startOnTun\<close>: the result of \<open>tun_alloc\<close>, one script per command, and
  the two \<open>fcntl\<close> calls (\<open>None\<close> and \<open>False\<close> for \<open>-1\<close>).
\<close>

record tun_os =
  to_alloc :: "string \<Rightarrow> tun_alloc_result"
  to_junk :: SystemResult
  to_runs :: "os_script list"
  to_getfl :: "32 word option"
  to_setfl :: "32 word \<Rightarrow> bool"

fun run_commands :: "SystemResult \<Rightarrow> os_script list \<Rightarrow> SystemCmd list \<Rightarrow> unit exec" where
  "run_commands junk scripts [] = Inr ()"
| "run_commands junk [] (cmd # cmds) = Inl Blocked"
| "run_commands junk (os # scripts) (cmd # cmds) =
     ebind (run junk os cmd) (\<lambda>_. run_commands junk scripts cmds)"

definition startOnTun ::
  "('ip IfAddrs \<Rightarrow> string \<Rightarrow> SystemCmd list) \<Rightarrow> tun_os \<Rightarrow> ('ip, 'q) TunDevice \<Rightarrow>
   (bool \<times> ('ip, 'q) TunDevice) exec" where
  "startOnTun asCommands os tun =
     (let (fd, dev, _) = to_alloc os (td_tunDevName tun);
          tun1 = tun\<lparr>td_tunDevName := dev\<rparr>
      in if fd < 0 then Inr (False, tun1)
         else let tun2 = tun1\<lparr>td_tunFd := fd\<rparr> in
           ebind (run_commands (to_junk os) (to_runs os) (asCommands (td_ifAddrs tun2) dev)) (\<lambda>_.
             case to_getfl os of
               None \<Rightarrow> Inr (False, tun2)
             | Some flags \<Rightarrow>
                 if \<not> to_setfl os (set_nonblock flags) then Inr (False, tun2)
                 else ebind (new_thread (td_fromTunThread tun2)) (\<lambda>t1.
                      ebind (new_thread (td_toTunThread tun2)) (\<lambda>t2.
                        Inr (True, tun2\<lparr>td_fromTunThread := t1, td_toTunThread := t2\<rparr>)))))"

definition startEcho :: "('ip, 'q) TunDevice \<Rightarrow> (bool \<times> ('ip, 'q) TunDevice) exec" where
  "startEcho tun =
     (let tun1 = tun\<lparr>td_tunDevName := ''echo''\<rparr> in
      ebind (new_thread (td_fromTunThread tun1)) (\<lambda>t1.
      ebind (new_thread (td_toTunThread tun1)) (\<lambda>t2.
        Inr (True, tun1\<lparr>td_fromTunThread := t1, td_toTunThread := t2\<rparr>))))"

definition start ::
  "('ip IfAddrs \<Rightarrow> string \<Rightarrow> SystemCmd list) \<Rightarrow> tun_os \<Rightarrow> ('ip, 'q) TunDevice \<Rightarrow>
   (bool \<times> ('ip, 'q) TunDevice) exec" where
  "start asCommands os tun =
     (if td_running tun then Inr (False, tun)
      else if getMtu (td_ifAddrs tun) > pb_getMtu (getPacketBuffer (td_fromTun tun)) then Inr (False, tun)
      else if getMtu (td_ifAddrs tun) > pb_getMtu (getPacketBuffer (td_toTun tun)) then Inr (False, tun)
      else let tun1 = tun\<lparr>td_running := True\<rparr> in
           if isEcho (td_ifAddrs tun1) then startEcho tun1
           else startOnTun asCommands os tun1)"

section \<open>Stopping\<close>

definition join_thread :: "thread option \<Rightarrow> thread option exec" where
  "join_thread t =
     (case t of None \<Rightarrow> Inr None
      | Some Joinable \<Rightarrow> Inr (Some Joined)
      | Some Joined \<Rightarrow> Inl (Throws ''system_error''))"

definition join :: "('ip, 'q) TunDevice \<Rightarrow> ('ip, 'q) TunDevice exec" where
  "join tun =
     ebind (join_thread (td_fromTunThread tun)) (\<lambda>t1.
     ebind (join_thread (td_toTunThread tun)) (\<lambda>t2.
     ebind (join_thread (td_recvThread tun)) (\<lambda>t3.
     ebind (join_thread (td_statThread tun)) (\<lambda>t4.
       Inr (tun\<lparr>td_fromTunThread := t1, td_toTunThread := t2, td_recvThread := t3,
                td_statThread := t4\<rparr>)))))"

text \<open>The second component lists the descriptors that were closed.\<close>

definition stop :: "('ip, 'q) TunDevice \<Rightarrow> (('ip, 'q) TunDevice \<times> int list) exec" where
  "stop tun =
     ebind (join (tun\<lparr>td_running := False\<rparr>)) (\<lambda>tun1.
       Inr (tun1, if 0 \<le> td_tunFd tun1 then [td_tunFd tun1] else []))"

section \<open>JSON\<close>

definition TunDevice_fromJson ::
  "'j json_api \<Rightarrow> 'ip ip_api \<Rightarrow> 'j \<Rightarrow> ('ip, 'q) TunDevice \<Rightarrow> ('ip, 'q) TunDevice exec" where
  "TunDevice_fromJson J P json tun =
     ebind (j_get J json ''seq'' (j_uint J (td_seq tun))) (\<lambda>js.
     ebind (j_asUInt64 J js) (\<lambda>s.
       let tun1 = tun\<lparr>td_seq := s\<rparr> in
     ebind (j_get J json ''running'' (j_bool J (td_running tun1))) (\<lambda>jr.
     ebind (j_asBool J jr) (\<lambda>r.
       let tun2 = tun1\<lparr>td_running := r\<rparr> in
     ebind (j_get J json ''tunDevName'' (j_str J (td_tunDevName tun2))) (\<lambda>jn.
     ebind (j_asString J jn) (\<lambda>n.
       let tun3 = tun2\<lparr>td_tunDevName := n\<rparr> in
     ebind (j_at J json ''ifAddrs'') (\<lambda>ji.
     ebind (IfAddrs_fromJson J P ji (td_ifAddrs tun3)) (\<lambda>(_, ia).
       Inr (tun3\<lparr>td_ifAddrs := ia\<rparr>)))))))))"

text \<open>\<open>queue.getStatistic().collect()\<close>: the statistic is collected, and so is the copy.\<close>

definition statistic_report ::
  "time_point \<Rightarrow> time_point \<Rightarrow> 'q PacketQueue \<Rightarrow> PacketStatistic \<times> 'q PacketQueue" where
  "statistic_report now now' pq =
     (let (ret, pq') = getStatistic now pq in (fst (collect now' ret), pq'))"

text \<open>\<open>time_here\<close> is the formatted local time, \<open>clock\<close> the successive clock readings.\<close>

definition TunDevice_asJson ::
  "'j json_api \<Rightarrow> 'ip ip_api \<Rightarrow> string \<Rightarrow> (nat \<Rightarrow> time_point) \<Rightarrow> 'j \<Rightarrow> ('ip, 'q) TunDevice \<Rightarrow>
   ('j \<times> ('ip, 'q) TunDevice) exec" where
  "TunDevice_asJson J P time_here clock val tun =
     (let tun1 = tun\<lparr>td_seq := td_seq tun + 1\<rparr> in
      ebind (j_puts J val [(''type'', j_str J ''TunDevice''), (''seq'', j_uint J (td_seq tun1)),
        (''timeHere'', j_str J time_here), (''running'', j_bool J (td_running tun1)),
        (''tunDevName'', j_str J (td_tunDevName tun1))]) (\<lambda>val1.
      ebind (IfAddrs_asJson J P (td_ifAddrs tun1) (j_null J)) (\<lambda>ji.
      ebind (j_put J val1 ''ifAddrs'' ji) (\<lambda>val2.
      let (sf, fromTun') = statistic_report (clock 0) (clock 1) (td_fromTun tun1) in
      ebind (PacketStatistic_asJson J sf (j_null J)) (\<lambda>jf.
      ebind (j_put J val2 ''fromTun'' jf) (\<lambda>val3.
      let (st, toTun') = statistic_report (clock 2) (clock 3) (td_toTun tun1) in
      ebind (PacketStatistic_asJson J st (j_null J)) (\<lambda>jt.
      ebind (j_put J val3 ''toTun'' jt) (\<lambda>val4.
        Inr (val4, tun1\<lparr>td_fromTun := fromTun', td_toTun := toTun'\<rparr>)))))))))"

section \<open>The bodies of the threads\<close>

text \<open>
  One turn of each loop. The echo closure runs inside \<open>toTun.pop\<close> and captures the queue
  \<open>fromTun\<close>, on which it calls \<open>push\<close>.
\<close>

definition echo_copy :: "Packet \<Rightarrow> bytes \<Rightarrow> unit action" where
  "echo_copy inPkt mIn outPkt m e =
     ebind (mem_read mIn (unat (buf inPkt)) (unat (psize inPkt))) (\<lambda>bs.
     ebind (mem_write m (unat (buf outPkt)) bs) (\<lambda>m'. Inr (psize inPkt, m', e)))"

definition echo_action :: "'q ring_api \<Rightarrow> 'q sleeps \<Rightarrow> 'q PacketQueue action" where
  "echo_action R script inPkt m fromTun =
     ebind (push R (echo_copy inPkt m) script fromTun ()) (\<lambda>(ret, fromTun', _).
       Inr (if ret then 1 else - 1, m, fromTun'))"

definition echo_step ::
  "'q ring_api \<Rightarrow> 'q sleeps \<Rightarrow> 'q waits \<Rightarrow> ('ip, 'q) TunDevice \<Rightarrow> ('ip, 'q) TunDevice exec" where
  "echo_step R script waits tun =
     ebind (pop R (echo_action R script) waits (td_toTun tun) (td_fromTun tun))
       (\<lambda>(_, toTun', fromTun'). Inr (tun\<lparr>td_toTun := toTun', td_fromTun := fromTun'\<rparr>))"

definition from_tun_step ::
  "'q ring_api \<Rightarrow> tun_event list \<Rightarrow> 'q sleeps \<Rightarrow> ('ip, 'q) TunDevice \<Rightarrow> ('ip, 'q) TunDevice exec" where
  "from_tun_step R evs script tun =
     ebind (push R (from_tun_read evs) script (td_fromTun tun) (td_running tun))
       (\<lambda>(_, fromTun', running'). Inr (tun\<lparr>td_fromTun := fromTun', td_running := running'\<rparr>))"

definition to_tun_step ::
  "'q ring_api \<Rightarrow> (bytes \<Rightarrow> bytes \<Rightarrow> bytes) \<Rightarrow> int \<Rightarrow> 'q waits \<Rightarrow> ('ip, 'q) TunDevice \<Rightarrow>
   (('ip, 'q) TunDevice \<times> bytes list list) exec" where
  "to_tun_step R tun_header ret waits tun =
     ebind (pop R (to_tun_write tun_header ret) waits (td_toTun tun) [])
       (\<lambda>(_, toTun', out). Inr (tun\<lparr>td_toTun := toTun'\<rparr>, out))"

section \<open>Invariant\<close>

definition dev_ok :: "'q ring_api \<Rightarrow> ('ip, 'q) TunDevice \<Rightarrow> bool" where
  "dev_ok R tun \<longleftrightarrow> pq_inv R (td_fromTun tun) \<and> pq_inv R (td_toTun tun) \<and>
     pb_mtu (pq_pb (td_fromTun tun)) = pb_mtu (pq_pb (td_toTun tun))"

lemma pb_new_sel [simp]:
  "pb_mtu (PacketBuffer_new raw mtu n) = mtu" "pb_size (PacketBuffer_new raw mtu n) = n"
  by (simp_all add: PacketBuffer_new_def Let_def)

lemma dev_ok_new:
  fixes mtu n :: "16 word"
  assumes "ring_laws R"
  shows "dev_ok R (TunDevice_new R raw raw' now ia (ucast mtu) (ucast n))"
  using pq_inv_new16 [OF assms] by (simp add: dev_ok_def TunDevice_new_def)

lemma echo_copy_store:
  assumes "mem_read m (unat (buf p)) (unat (psize p)) = Inr bs"
  shows "echo_copy p m = mem_store bs"
proof -
  have "length bs = unat (psize p)" using assms by (auto simp: mem_read_def split: if_splits)
  then show ?thesis by (simp add: echo_copy_def mem_store_def assms fun_eq_iff)
qed

lemma mem_store_contract:
  assumes "length bs \<le> unat n"
  shows "push_contract (only_size n (mem_store bs))"
proof -
  have "length bs < 2 ^ 64" using assms unsigned_less [of n, where 'a = nat] by simp
  then have len: "unat (of_nat (length bs) :: size_t) = length bs" by (simp add: unat_of_nat)
  show ?thesis
    unfolding push_contract_def
  proof (intro allI impI)
    fix p m e ret m' and e' :: 'a
    assume "only_size n (mem_store bs) p m e = Inr (ret, m', e')"
    then have p: "maxSize p = n" "mem_write m (unat (buf p)) bs = Inr m'" "ret = of_nat (length bs)"
      by (auto simp: only_size_def mem_store_def ebind_eq_Inr split: if_splits)
    show "length m' = length m \<and>
        (\<forall>k < length m. k < unat (buf p) \<or> unat (buf p) + unat (maxSize p) \<le> k \<longrightarrow> m' ! k = m ! k) \<and>
        (0 < sint ret \<longrightarrow> unat ret \<le> unat (maxSize p))"
      using mem_write_length [OF p(2)] mem_write_nth [OF p(2)] p(1,3) assms len by auto
  qed
qed

lemma echo_copy_contract:
  assumes "unat (psize p) \<le> unat n"
  shows "push_contract (only_size n (echo_copy p m))"
proof (cases "mem_read m (unat (buf p)) (unat (psize p))")
  case (Inl x)
  then show ?thesis by (simp add: push_contract_def only_size_def echo_copy_def)
next
  case (Inr bs)
  then have "length bs = unat (psize p)" by (auto simp: mem_read_def split: if_splits)
  then show ?thesis using assms by (simp add: echo_copy_store [OF Inr] mem_store_contract)
qed

lemma echo_action_contract: "pop_contract (echo_action R script)"
  by (auto simp: pop_contract_def echo_action_def ebind_eq_Inr)

lemma echo_step_ok:
  assumes R: "ring_laws R" and ok: "dev_ok R tun" and s: "sleeps_ok R script" and w: "waits_ok R waits"
    and st: "echo_step R script waits tun = Inr tun'"
  shows "dev_ok R tun'"
proof -
  let ?to = "td_toTun tun" and ?from = "td_fromTun tun"
  from st obtain r to' from' where
    pop: "pop R (echo_action R script) waits ?to ?from = Inr (r, to', from')"
    and tun': "tun' = tun\<lparr>td_toTun := to', td_fromTun := from'\<rparr>"
    by (auto simp: echo_step_def ebind_eq_Inr)
  have inv: "pq_inv R ?to" "pq_inv R ?from" and mtu: "pb_mtu (pq_pb ?from) = pb_mtu (pq_pb ?to)"
    using ok by (auto simp: dev_ok_def)
  have res: "pop_result R (echo_action R script) ?from (pq_queue R ?to) (pb_mtu (pq_pb ?to)) (r, to', from')"
    using pop_loop_result [OF R echo_action_contract inv(1) w] pop by (simp add: pop_def)
  show ?thesis
  proof (cases r)
    case False
    then show ?thesis using res inv mtu tun' by (simp add: pop_result_def dev_ok_def)
  next
    case True
    with res obtain p m ret where a: "echo_action R script p m ?from = Inr (ret, m, from')"
      and sz: "unat (psize p) \<le> unat (pb_mtu (pq_pb ?to))"
      and to: "pq_inv R to'" "pb_mtu (pq_pb to') = pb_mtu (pq_pb ?to)"
      by (auto simp: pop_result_def)
    from a obtain pr where pr: "push R (echo_copy p m) script ?from () = Inr pr" "fst (snd pr) = from'"
      by (auto simp: echo_action_def ebind_eq_Inr)
    have c: "push_contract (only_size (pb_mtu (pq_pb ?from)) (echo_copy p m))"
      using sz mtu by (intro echo_copy_contract) simp
    from push_result_only_size [OF R inv(2) s c pr(1)] pr(2)
    show ?thesis using to mtu tun' by (auto simp: push_result_def dev_ok_def split: prod.splits)
  qed
qed

lemma from_tun_step_ok:
  assumes R: "ring_laws R" and ok: "dev_ok R tun" and s: "sleeps_ok R script"
    and st: "from_tun_step R evs script tun = Inr tun'"
  shows "dev_ok R tun'"
proof -
  from st obtain r from' running' where
    p: "push_loop R (from_tun_read evs) (pq_blockWait (td_fromTun tun)) script 0 0 (td_fromTun tun)
      (td_running tun) = Inr (r, from', running')"
    and tun': "tun' = tun\<lparr>td_fromTun := from', td_running := running'\<rparr>"
    by (auto simp: from_tun_step_def ebind_eq_Inr push_def)
  have inv: "pq_inv R (td_fromTun tun)" using ok by (simp add: dev_ok_def)
  from push_loop_result [OF R from_tun_read_contract inv s p] ok tun'
  show ?thesis by (simp add: dev_ok_def push_result_def)
qed

lemma to_tun_step_ok:
  assumes R: "ring_laws R" and ok: "dev_ok R tun" and w: "waits_ok R waits"
    and st: "to_tun_step R th ret waits tun = Inr (tun', out)"
  shows "dev_ok R tun'"
proof -
  from st obtain r to' where
    p: "pop_loop R (to_tun_write th ret) waits (td_toTun tun) [] = Inr (r, to', out)"
    and tun': "tun' = tun\<lparr>td_toTun := to'\<rparr>"
    by (auto simp: to_tun_step_def ebind_eq_Inr pop_def)
  have inv: "pq_inv R (td_toTun tun)" using ok by (simp add: dev_ok_def)
  from pop_loop_result [OF R to_tun_write_contract inv w p] ok tun'
  show ?thesis by (simp add: dev_ok_def pop_result_def)
qed

lemma echo_turn_step:
  assumes R: "ring_laws R" and ok: "dev_ok R tun"
    and q: "pq_queue R (td_toTun tun) = bs # rest" "bs \<noteq> []"
      "length (pq_queue R (td_fromTun tun)) < capacity (pq_pb (td_fromTun tun))"
    and bw: "0 < pq_blockWait (td_fromTun tun)"
    and len: "length bs \<le> unat (pb_mtu (pq_pb (td_fromTun tun)))" "length bs < 2 ^ 63"
  shows "\<exists>tun'. echo_step R script waits tun = Inr tun' \<and> dev_ok R tun' \<and>
    pq_queue R (td_toTun tun') = rest \<and>
    pq_queue R (td_fromTun tun') = pq_queue R (td_fromTun tun) @ [bs]"
proof -
  let ?to = "td_toTun tun" and ?from = "td_fromTun tun"
  have inv: "pq_inv R ?to" "pq_inv R ?from" and mtu: "pb_mtu (pq_pb ?from) = pb_mtu (pq_pb ?to)"
    using ok by (auto simp: dev_ok_def)
  have "\<exists>from'. push R (mem_store bs) script ?from () = Inr (True, from', ()) \<and> pq_inv R from' \<and>
      pq_queue R from' = pq_queue R ?from @ [bs] \<and> pb_mtu (pq_pb from') = pb_mtu (pq_pb ?from)"
    by (rule push_store [OF R inv(2) bw q(3,2) len]) simp
  then obtain from' where f: "push R (mem_store bs) script ?from () = Inr (True, from', ())"
    "pq_inv R from'" "pq_queue R from' = pq_queue R ?from @ [bs]"
    "pb_mtu (pq_pb from') = pb_mtu (pq_pb ?from)"
    by blast
  have a: "echo_action R script p m ?from = Inr (1, m, from')"
    if "unat (psize p) = length bs" "mem_read m (unat (buf p)) (length bs) = Inr bs" for p m
  proof -
    have "echo_copy p m = mem_store bs" by (rule echo_copy_store) (simp add: that)
    then show ?thesis by (simp add: echo_action_def f(1))
  qed
  have "\<exists>to'. pop R (echo_action R script) waits ?to ?from = Inr (True, to', from') \<and> pq_inv R to' \<and>
      pq_queue R to' = rest \<and> pb_mtu (pq_pb to') = pb_mtu (pq_pb ?to)"
    by (rule pop_head [OF R inv(1) q(1)]) (rule a)
  then obtain to' where t: "pop R (echo_action R script) waits ?to ?from = Inr (True, to', from')"
    "pq_inv R to'" "pq_queue R to' = rest" "pb_mtu (pq_pb to') = pb_mtu (pq_pb ?to)"
    by blast
  have "dev_ok R (tun\<lparr>td_toTun := to', td_fromTun := from'\<rparr>)"
    using t(2,4) f(2,4) mtu by (simp add: dev_ok_def)
  then show ?thesis using t f(3) by (simp add: echo_step_def)
qed

section \<open>Properties\<close>

lemma echo_turn_example:
  "\<exists>tun tun' :: (v4, nat \<times> nat list) TunDevice.
     pq_queue list_ring (td_toTun tun) = [''ping''] \<and> echo_step list_ring [] [] tun = Inr tun' \<and>
     pq_queue list_ring (td_toTun tun') = [] \<and> pq_queue list_ring (td_fromTun tun') = [''ping'']"
proof -
  let ?new = "PacketQueue_new list_ring (\<lambda>_. CHR 0x00) 0 1500 64 100"
  let ?t = "TunDevice_new list_ring (\<lambda>_. CHR 0x00) (\<lambda>_. CHR 0x00) 0 IfAddrs_new 1500 64
    :: (v4, nat \<times> nat list) TunDevice"
  have e: "pq_queue list_ring ?new = []" "capacity (pq_pb ?new) = 64"
    by (simp_all add: pq_queue_def list_ring_def)
  have "\<exists>q. push list_ring (mem_store ''ping'') [] ?new () = Inr (True, q, ()) \<and> pq_inv list_ring q \<and>
      pq_queue list_ring q = pq_queue list_ring ?new @ [''ping''] \<and>
      pb_mtu (pq_pb q) = pb_mtu (pq_pb ?new)"
    by (rule push_store [OF list_ring_laws list_ring_default]) (simp_all add: e)
  then obtain q where q: "pq_inv list_ring q" "pq_queue list_ring q = [''ping'']"
    "pb_mtu (pq_pb q) = 1500"
    using e by auto
  let ?u = "?t\<lparr>td_toTun := q\<rparr>"
  have "td_fromTun ?u = ?new" by (simp add: TunDevice_new_def)
  then have "\<exists>tun'. echo_step list_ring [] [] ?u = Inr tun' \<and> dev_ok list_ring tun' \<and>
      pq_queue list_ring (td_toTun tun') = [] \<and>
      pq_queue list_ring (td_fromTun tun') = pq_queue list_ring (td_fromTun ?u) @ [''ping'']"
    by (intro echo_turn_step [OF list_ring_laws])
      (simp_all add: dev_ok_def q list_ring_default e)
  then obtain u' where "echo_step list_ring [] [] ?u = Inr u'" "pq_queue list_ring (td_toTun u') = []"
    "pq_queue list_ring (td_fromTun u') = [''ping'']"
    using e(1) \<open>td_fromTun ?u = ?new\<close> by auto
  moreover have "pq_queue list_ring (td_toTun ?u) = [''ping'']" using q by simp
  ultimately show ?thesis by blast
qed

lemma new_thread_Inr: "new_thread t = Inr t' \<longleftrightarrow> t \<noteq> Some Joinable \<and> t' = Some Joinable"
  by (auto simp: new_thread_def)

text \<open>When \<open>start\<close> returns true, the device was not running before, its addresses' MTU fits
  the packets of both queues, and now it runs with both of its worker threads; the queues are
  as they were.\<close>
theorem start_success:
  assumes "start asCommands os tun = Inr (True, tun')"
  shows "\<not> td_running tun" "td_running tun'"
    "ia_mtu (td_ifAddrs tun) \<le> pb_mtu (pq_pb (td_fromTun tun))"
    "ia_mtu (td_ifAddrs tun) \<le> pb_mtu (pq_pb (td_toTun tun))"
    "td_fromTunThread tun' = Some Joinable" "td_toTunThread tun' = Some Joinable"
    "td_fromTun tun' = td_fromTun tun" "td_toTun tun' = td_toTun tun"
    "isEcho (td_ifAddrs tun) \<Longrightarrow> td_tunDevName tun' = ''echo'' \<and> td_tunFd tun' = td_tunFd tun"
    "\<not> isEcho (td_ifAddrs tun) \<Longrightarrow> 0 \<le> td_tunFd tun'"
  using assms
  by (auto simp: start_def startEcho_def startOnTun_def pb_getMtu_def getPacketBuffer_def Let_def
      ebind_eq_Inr new_thread_Inr split: if_splits prod.splits option.splits)

theorem start_success_witness:
  "ia_mtu (td_ifAddrs (TunDevice_new list_ring (\<lambda>_. CHR 0x00) (\<lambda>_. CHR 0x00) 0 IfAddrs_new 1500 64
     :: (v4, nat \<times> nat list) TunDevice)) \<le> 1500"
proof -
  let ?t = "TunDevice_new list_ring (\<lambda>_. CHR 0x00) (\<lambda>_. CHR 0x00) 0 IfAddrs_new 1500 64
    :: (v4, nat \<times> nat list) TunDevice"
  have "start (linux_asCommands v4_api) undefined ?t = Inr (True, ?t\<lparr>td_running := True,
      td_tunDevName := ''echo'', td_fromTunThread := Some Joinable, td_toTunThread := Some Joinable\<rparr>)"
    by (simp add: start_def startEcho_def TunDevice_new_def IfAddrs_new_def isEcho_def pb_getMtu_def
        getPacketBuffer_def new_thread_def Let_def)
  from start_success(3) [OF this] show ?thesis by (simp add: TunDevice_new_def)
qed

text \<open>C31: a refused \<open>start\<close> changes nothing, but a failed one leaves the device unusable. When
  the device is running or the MTU does not fit, \<open>start\<close> returns false and the device is as
  before. When tun mode fails later, the flag \<open>running\<close> stays set although no thread runs,
  so every further \<open>start\<close> is refused.\<close>
theorem start_failure:
  assumes "start asCommands os tun = Inr (False, tun')"
  defines "fits \<equiv> ia_mtu (td_ifAddrs tun) \<le> pb_mtu (pq_pb (td_fromTun tun)) \<and>
    ia_mtu (td_ifAddrs tun) \<le> pb_mtu (pq_pb (td_toTun tun))"
  shows "(td_running tun \<or> \<not> fits \<longrightarrow> tun' = tun) \<and>
    (\<not> td_running tun \<and> fits \<longrightarrow> td_running tun' \<and>
       td_fromTunThread tun' = td_fromTunThread tun \<and> td_toTunThread tun' = td_toTunThread tun \<and>
       start asCommands os' tun' = Inr (False, tun'))"
  using assms(1) unfolding fits_def
  by (auto simp: start_def startEcho_def startOnTun_def pb_getMtu_def getPacketBuffer_def Let_def
      ebind_eq_Inr new_thread_Inr split: if_splits prod.splits option.splits)

definition no_tun :: tun_os where
  "no_tun = \<lparr>to_alloc = linux_tun_alloc (- 1) (\<lambda>name. (0, name)),
     to_junk = \<lparr>sr_sout = [], sr_serr = [], sr_cmd = [], sr_ok = False, sr_statusCode = 0,
                sr_exitCode = 0, sr_waitPid = 0\<rparr>,
     to_runs = [], to_getfl = None, to_setfl = (\<lambda>_. True)\<rparr>"

theorem start_failure_witness:
  "\<exists>tun' :: (v4, nat \<times> nat list) TunDevice.
     start (linux_asCommands v4_api) no_tun (TunDevice_new list_ring (\<lambda>_. CHR 0x00) (\<lambda>_. CHR 0x00) 0
       (IfAddrs_new\<lparr>ia_addrs := [V4 10 0 0 1 24]\<rparr>) 1500 64) = Inr (False, tun') \<and> td_running tun'"
proof -
  let ?t = "TunDevice_new list_ring (\<lambda>_. CHR 0x00) (\<lambda>_. CHR 0x00) 0
    (IfAddrs_new\<lparr>ia_addrs := [V4 10 0 0 1 24]\<rparr>) 1500 64 :: (v4, nat \<times> nat list) TunDevice"
  have f: "start (linux_asCommands v4_api) no_tun ?t = Inr (False, ?t\<lparr>td_running := True\<rparr>)"
    by (simp add: start_def startOnTun_def no_tun_def linux_tun_alloc_def TunDevice_new_def
        IfAddrs_new_def isEcho_def pb_getMtu_def getPacketBuffer_def Let_def)
  from start_failure [OF this] show ?thesis
    using f by (simp add: TunDevice_new_def IfAddrs_new_def)
qed

text \<open>C30: \<open>stop\<close> undoes \<open>start\<close>, once. After a successful start and the start of the two server
  threads, \<open>stop\<close> returns with the flag cleared and all four threads joined and closes the
  tun descriptor, if there is one; the device can then be started again with success in echo
  mode, but a second \<open>stop\<close> without a start throws, as a joined thread is joined again.\<close>
theorem stop_after_start:
  assumes "start asCommands os tun = Inr (True, tun1)"
    "setStatThread tun1 = Inr tun2" "setRecvThread tun2 = Inr tun3"
  shows "\<exists>tun4. stop tun3 = Inr (tun4, if 0 \<le> td_tunFd tun1 then [td_tunFd tun1] else []) \<and>
    \<not> td_running tun4 \<and>
    {td_fromTunThread tun4, td_toTunThread tun4, td_recvThread tun4, td_statThread tun4} = {Some Joined} \<and>
    stop tun4 = Inl (Throws ''system_error'') \<and>
    (isEcho (td_ifAddrs tun4) \<longrightarrow> (\<exists>tun5. start asCommands os' tun4 = Inr (True, tun5)))"
proof -
  have mtu: "ia_mtu (td_ifAddrs tun) \<le> pb_mtu (pq_pb (td_fromTun tun))"
    "ia_mtu (td_ifAddrs tun) \<le> pb_mtu (pq_pb (td_toTun tun))"
    and th: "td_fromTunThread tun1 = Some Joinable" "td_toTunThread tun1 = Some Joinable"
    and q: "td_fromTun tun1 = td_fromTun tun" "td_toTun tun1 = td_toTun tun"
      "td_ifAddrs tun1 = td_ifAddrs tun"
    using assms(1)
    by (auto simp: start_def startEcho_def startOnTun_def pb_getMtu_def getPacketBuffer_def Let_def
        ebind_eq_Inr new_thread_Inr split: if_splits prod.splits option.splits)
  from assms(2,3) have t3: "tun3 = tun1\<lparr>td_statThread := Some Joinable, td_recvThread := Some Joinable\<rparr>"
    by (auto simp: setStatThread_def setRecvThread_def ebind_eq_Inr new_thread_Inr)
  let ?t4 = "tun3\<lparr>td_running := False, td_fromTunThread := Some Joined, td_toTunThread := Some Joined,
    td_recvThread := Some Joined, td_statThread := Some Joined\<rparr>"
  have "stop tun3 = Inr (?t4, if 0 \<le> td_tunFd tun1 then [td_tunFd tun1] else [])"
    using th by (simp add: stop_def join_def join_thread_def t3)
  moreover have "stop ?t4 = Inl (Throws ''system_error'')"
    by (simp add: stop_def join_def join_thread_def)
  moreover have "\<exists>tun5. start asCommands os' ?t4 = Inr (True, tun5)" if "isEcho (td_ifAddrs ?t4)"
    using that mtu q
    by (simp add: start_def startEcho_def pb_getMtu_def getPacketBuffer_def new_thread_def t3 Let_def
        not_less)
  ultimately show ?thesis by (intro exI [of _ ?t4]) simp
qed

theorem stop_after_start_witness:
  "\<exists>tun4 :: (v4, nat \<times> nat list) TunDevice. \<not> td_running tun4 \<and>
     stop tun4 = Inl (Throws ''system_error'')"
proof -
  let ?t = "TunDevice_new list_ring (\<lambda>_. CHR 0x00) (\<lambda>_. CHR 0x00) 0 IfAddrs_new 1500 64
    :: (v4, nat \<times> nat list) TunDevice"
  let ?t1 = "?t\<lparr>td_running := True, td_tunDevName := ''echo'', td_fromTunThread := Some Joinable,
    td_toTunThread := Some Joinable\<rparr>"
  have a: "start (linux_asCommands v4_api) no_tun ?t = Inr (True, ?t1)"
    by (simp add: start_def startEcho_def TunDevice_new_def IfAddrs_new_def isEcho_def pb_getMtu_def
        getPacketBuffer_def new_thread_def Let_def)
  have b: "setStatThread ?t1 = Inr (?t1\<lparr>td_statThread := Some Joinable\<rparr>)"
    by (simp add: setStatThread_def new_thread_def TunDevice_new_def)
  have c: "setRecvThread (?t1\<lparr>td_statThread := Some Joinable\<rparr>) =
      Inr (?t1\<lparr>td_statThread := Some Joinable, td_recvThread := Some Joinable\<rparr>)"
    by (simp add: setRecvThread_def new_thread_def TunDevice_new_def)
  from stop_after_start [OF a b c, of no_tun] show ?thesis by blast
qed

text \<open>C33: the statistic that a device reports counts the last window twice in its totals. The
  object written to JSON is collected a second time, so for each counter its total is what
  the queue has counted in its life plus the window just closed, while the queue itself goes
  on with the right totals and an empty window.\<close>
theorem device_report_counts_twice:
  assumes "statistic_report now now' pq = (s, pq')"
  shows "cval k (getTotal s) = lifetime (pq_ps pq) k + cval k (st_current (pq_ps pq)) \<and>
    cval k (getCurrent s) = cval k (st_current (pq_ps pq)) \<and>
    cval k (getTotal (pq_ps pq')) = lifetime (pq_ps pq) k \<and>
    getCurrent (pq_ps pq') = Data_new \<and>
    pq_queue R pq' = pq_queue R pq"
  using assms
  by (auto simp: statistic_report_def getStatistic_def split_beta getTotal_def getCurrent_def
      collect_parts lifetime_def pq_queue_def)

theorem device_report_counts_twice_witness:
  "cval PushOk (getTotal (fst (statistic_report 1 2 ((PacketQueue_new list_ring (\<lambda>_. CHR 0x00) 0 100 5 100)
     \<lparr>pq_ps := incPushOk (PacketStatistic_new 0)\<rparr>)))) = 2"
  using device_report_counts_twice [OF surjective_pairing, where now = 1 and now' = 2 and k = PushOk
      and pq = "(PacketQueue_new list_ring (\<lambda>_. CHR 0x00) 0 100 5 100)
        \<lparr>pq_ps := incPushOk (PacketStatistic_new 0)\<rparr>"]
  by (simp add: lifetime_def inc_defs PacketStatistic_new_def Data_new_def)

text \<open>Allocating the tun descriptor. On Linux the first of \<open>tun0\<close> to \<open>tun254\<close> whose
  \<open>ioctl\<close> succeeds is taken, with the name the kernel wrote back, and when all fail the
  descriptor is closed again. On macOS each of the four calls can fail; then the result is
  \<open>-1\<close>, the name is untouched and no descriptor stays open, and otherwise the name is always
  \<open>utun1\<close>, as the unit number is fixed.\<close>
theorem tun_alloc_outcomes:
  "linux_tun_alloc fd tunsetiff dev =
     (if fd < 0 then (- 1, dev, [])
      else case find (\<lambda>i. 0 \<le> fst (tunsetiff (''tun'' @ show_nat i))) [0..<255] of
        None \<Rightarrow> (- 1, dev, [])
      | Some i \<Rightarrow> (fd, snd (tunsetiff (''tun'' @ show_nat i)), [fd])) \<and>
    apple_tun_alloc fd fits i c dev =
     (if fd \<noteq> - 1 \<and> fits \<and> i \<noteq> - 1 \<and> c \<noteq> - 1 then (fd, ''utun1'', [fd]) else (- 1, dev, [])) \<and>
    (fst (linux_tun_alloc fd tunsetiff dev) < 0 \<longleftrightarrow> snd (snd (linux_tun_alloc fd tunsetiff dev)) = [])"
proof -
  have "tun_alloc_loop tunsetiff i fd dev =
      (case find (\<lambda>i. 0 \<le> fst (tunsetiff (''tun'' @ show_nat i))) [i..<255] of
        None \<Rightarrow> (- 1, dev, [])
      | Some i \<Rightarrow> (fd, snd (tunsetiff (''tun'' @ show_nat i)), [fd]))" for i
    by (induction tunsetiff i fd dev rule: tun_alloc_loop.induct)
      (subst tun_alloc_loop.simps, auto simp: upt_conv_Cons split: prod.splits)
  from this [of 0] have c1: "linux_tun_alloc fd tunsetiff dev =
     (if fd < 0 then (- 1, dev, [])
      else case find (\<lambda>i. 0 \<le> fst (tunsetiff (''tun'' @ show_nat i))) [0..<255] of
        None \<Rightarrow> (- 1, dev, [])
      | Some i \<Rightarrow> (fd, snd (tunsetiff (''tun'' @ show_nat i)), [fd]))"
    by (simp add: linux_tun_alloc_def)
  then have c2: "fst (linux_tun_alloc fd tunsetiff dev) < 0 \<longleftrightarrow>
      snd (snd (linux_tun_alloc fd tunsetiff dev)) = []"
    by (auto split: option.splits)
  have "''utun'' @ show_nat (2 - 1) = ''utun1''" by code_simp
  then have c3: "apple_tun_alloc fd fits i c dev =
     (if fd \<noteq> - 1 \<and> fits \<and> i \<noteq> - 1 \<and> c \<noteq> - 1 then (fd, ''utun1'', [fd]) else (- 1, dev, []))"
    by (simp add: apple_tun_alloc_def)
  show ?thesis using c1 c2 c3 by blast
qed

section \<open>The JSON form of a device\<close>

text \<open>What \<open>asJson\<close> leaves in the value, member by member.\<close>

lemma PacketStatistic_asJson_ok:
  assumes J: "json_laws J" and v: "j_obj J v"
  shows "\<exists>v'. PacketStatistic_asJson J s v = Inr v' \<and> j_obj J v'"
proof -
  have d: "\<exists>t. Data_asJson J x (j_null J) = Inr t" for x
    using j_puts_obj [OF J j_null_obj(1) [OF J]] unfolding Data_asJson_def by blast
  obtain t c where t: "Data_asJson J (st_total s) (j_null J) = Inr t"
    and c: "Data_asJson J (st_current s) (j_null J) = Inr c" using d by metis
  obtain v1 where v1: "j_put J v ''total'' t = Inr v1" "j_obj J v1" using j_put_obj [OF J v] by blast
  obtain v2 where v2: "j_put J v1 ''current'' c = Inr v2" "j_obj J v2"
    using j_put_obj [OF J v1(2)] by blast
  show ?thesis using v2 by (simp add: PacketStatistic_asJson_def t c v1)
qed

lemma TunDevice_asJson_parts:
  assumes J: "json_laws J"
  obtains v ji where "TunDevice_asJson J P time_here clock (j_null J) tun = Inr (v,
      tun\<lparr>td_seq := td_seq tun + 1,
          td_fromTun := snd (statistic_report (clock 0) (clock 1) (td_fromTun tun)),
          td_toTun := snd (statistic_report (clock 2) (clock 3) (td_toTun tun))\<rparr>)"
    "j_obj J v" "\<forall>k \<in> {''seq'', ''running'', ''tunDevName'', ''ifAddrs''}. j_has J v k"
    "j_at J v ''seq'' = Inr (j_uint J (td_seq tun + 1))"
    "j_at J v ''running'' = Inr (j_bool J (td_running tun))"
    "j_at J v ''tunDevName'' = Inr (j_str J (td_tunDevName tun))"
    "j_at J v ''ifAddrs'' = Inr ji" "IfAddrs_asJson J P (td_ifAddrs tun) (j_null J) = Inr ji"
proof -
  let ?ps = "[(''type'', j_str J ''TunDevice''), (''seq'', j_uint J (td_seq tun + 1)),
        (''timeHere'', j_str J time_here), (''running'', j_bool J (td_running tun)),
        (''tunDevName'', j_str J (td_tunDevName tun))]"
  let ?rf = "statistic_report (clock 0) (clock 1) (td_fromTun tun)"
  let ?rt = "statistic_report (clock 2) (clock 3) (td_toTun tun)"
  obtain v1 where v1: "j_puts J (j_null J) ?ps = Inr v1" "j_obj J v1"
    "\<And>k. j_has J v1 k \<longleftrightarrow> k \<in> fst ` set ?ps \<or> j_has J (j_null J) k"
    "\<And>k. j_at J v1 k = (case map_of (rev ?ps) k of Some x \<Rightarrow> Inr x | None \<Rightarrow> j_at J (j_null J) k)"
    using j_puts_obj [OF J j_null_obj(1) [OF J], of ?ps] by blast
  obtain ji where ji: "IfAddrs_asJson J P (td_ifAddrs tun) (j_null J) = Inr ji"
    by (rule IfAddrs_asJson_total [OF J])
  obtain v2 where v2: "j_put J v1 ''ifAddrs'' ji = Inr v2" "j_obj J v2"
    "\<And>k. j_has J v2 k \<longleftrightarrow> k = ''ifAddrs'' \<or> j_has J v1 k"
    "\<And>k. j_at J v2 k = (if k = ''ifAddrs'' then Inr ji else j_at J v1 k)"
    using j_put_obj [OF J v1(2)] by blast
  obtain jf jt where jf: "PacketStatistic_asJson J (fst ?rf) (j_null J) = Inr jf"
    and jt: "PacketStatistic_asJson J (fst ?rt) (j_null J) = Inr jt"
    using PacketStatistic_asJson_ok [OF J j_null_obj(1) [OF J]] by metis
  obtain v3 where v3: "j_put J v2 ''fromTun'' jf = Inr v3" "j_obj J v3"
    "\<And>k. j_has J v3 k \<longleftrightarrow> k = ''fromTun'' \<or> j_has J v2 k"
    "\<And>k. j_at J v3 k = (if k = ''fromTun'' then Inr jf else j_at J v2 k)"
    using j_put_obj [OF J v2(2)] by blast
  obtain v4 where v4: "j_put J v3 ''toTun'' jt = Inr v4" "j_obj J v4"
    "\<And>k. j_has J v4 k \<longleftrightarrow> k = ''toTun'' \<or> j_has J v3 k"
    "\<And>k. j_at J v4 k = (if k = ''toTun'' then Inr jt else j_at J v3 k)"
    using j_put_obj [OF J v3(2)] by blast
  show ?thesis
  proof (rule that [of v4 ji])
    show "TunDevice_asJson J P time_here clock (j_null J) tun = Inr (v4,
      tun\<lparr>td_seq := td_seq tun + 1, td_fromTun := snd ?rf, td_toTun := snd ?rt\<rparr>)"
      using v1(1) by (simp add: TunDevice_asJson_def Let_def split_beta ji v2(1)
          jf [unfolded One_nat_def] v3(1) jt v4(1))
  qed (simp_all add: v4 v3 v2 v1 ji)
qed

text \<open>A device's report can be read back. Writing a device with \<open>asJson\<close> and reading the
  value into a default-constructed device, as the client does, gives that device the
  reported number, flag, name and interface description (its fresh address lists take the
  reported ones); the number reported is one more than that of the last report.\<close>
theorem device_json_roundtrip:
  fixes tun0 :: "('ip, 'q) TunDevice"
  assumes "json_laws J" "ip_laws P" "if_ok P (td_ifAddrs tun)" "unat (ia_mtu (td_ifAddrs tun)) < 2 ^ 31"
    "td_ifAddrs tun0 = IfAddrs_new"
  shows "\<exists>v tun'. TunDevice_asJson J P time_here clock (j_null J) tun = Inr (v, tun') \<and>
    td_seq tun' = td_seq tun + 1 \<and>
    TunDevice_fromJson J P v tun0 = Inr (tun0\<lparr>td_seq := td_seq tun', td_running := td_running tun,
      td_tunDevName := td_tunDevName tun, td_ifAddrs := td_ifAddrs tun\<rparr>)"
proof -
  obtain v ji where v: "TunDevice_asJson J P time_here clock (j_null J) tun = Inr (v,
      tun\<lparr>td_seq := td_seq tun + 1,
          td_fromTun := snd (statistic_report (clock 0) (clock 1) (td_fromTun tun)),
          td_toTun := snd (statistic_report (clock 2) (clock 3) (td_toTun tun))\<rparr>)"
    "j_obj J v" "\<forall>k \<in> {''seq'', ''running'', ''tunDevName'', ''ifAddrs''}. j_has J v k"
    "j_at J v ''seq'' = Inr (j_uint J (td_seq tun + 1))"
    "j_at J v ''running'' = Inr (j_bool J (td_running tun))"
    "j_at J v ''tunDevName'' = Inr (j_str J (td_tunDevName tun))"
    "j_at J v ''ifAddrs'' = Inr ji" "IfAddrs_asJson J P (td_ifAddrs tun) (j_null J) = Inr ji"
    by (rule TunDevice_asJson_parts [OF assms(1), where time_here = time_here and clock = clock])
  have "IfAddrs_fromJson J P ji IfAddrs_new = Inr (True, td_ifAddrs tun)"
    using IfAddrs_json_onto [OF assms(1-4), of IfAddrs_new] v(8)
    by (cases "td_ifAddrs tun") (simp add: IfAddrs_new_def)
  then show ?thesis
    using v(1) v(3)
    by (simp add: TunDevice_fromJson_def j_get_obj [OF assms(1) v(2)] v(4-7) assms(5)
        j_value_laws [OF assms(1)] Let_def)
qed

theorem device_json_roundtrip_witness:
  "\<exists>v tun'. TunDevice_asJson (jv_api (\<lambda>_. None)) v4_api ''now'' (\<lambda>n. int n) JNull
      (TunDevice_new list_ring (\<lambda>_. CHR 0x00) (\<lambda>_. CHR 0x00) 0
        (IfAddrs_new\<lparr>ia_addrs := [V4 10 0 0 1 24]\<rparr>) 1500 64) = Inr (v, tun') \<and> td_seq tun' = 1"
proof -
  let ?t = "TunDevice_new list_ring (\<lambda>_. CHR 0x00) (\<lambda>_. CHR 0x00) 0
    (IfAddrs_new\<lparr>ia_addrs := [V4 10 0 0 1 24]\<rparr>) 1500 64"
  have "if_ok v4_api (td_ifAddrs ?t)" "unat (ia_mtu (td_ifAddrs ?t)) < 2 ^ 31"
    by (simp_all add: TunDevice_new_def IfAddrs_new_def if_ok_def v4_api_def)
  from device_json_roundtrip [OF jv_api_laws [of "\<lambda>_. None"] v4_laws this,
      of "TunDevice_default list_ring (\<lambda>_. CHR 0x00) (\<lambda>_. CHR 0x00) 0" "''now''" "\<lambda>n. int n"]
  show ?thesis by (auto simp: TunDevice_default_def jv_api_def TunDevice_new_def)
qed

end
