(* ===== verification/Ws_Packet.thy ===== *)
theory Ws_Packet
  imports Packet_Queue
begin

text \<open>
  \<open>ws_packet.hpp\<close> and \<open>message.hpp\<close>: a websocket message is four bytes of header and a
  payload; \<open>WsPacket\<close> splits it, \<open>MessageRef\<close> wraps an object's JSON form together with
  an action. A message is its bytes and the read position of its stream buffer; \<open>size()\<close>
  is the number of bytes received, whatever was read.
\<close>

section \<open>Messages\<close>

record ws_message =
  ms_data :: bytes
  ms_pos :: nat

definition ms_size :: "ws_message \<Rightarrow> size_t" where
  "ms_size msg = of_nat (length (ms_data msg))"

text \<open>\<open>sgetn\<close>: as many of the requested bytes as there are, and the position behind them.\<close>

definition sgetn :: "ws_message \<Rightarrow> nat \<Rightarrow> bytes \<times> ws_message" where
  "sgetn msg n =
     (let bs = take n (drop (ms_pos msg) (ms_data msg))
      in (bs, msg\<lparr>ms_pos := ms_pos msg + length bs\<rparr>))"

definition pubseekpos :: "ws_message \<Rightarrow> nat \<Rightarrow> ws_message" where
  "pubseekpos msg p = msg\<lparr>ms_pos := p\<rparr>"

section \<open>WsPacket\<close>

definition getHeader :: "ws_message \<Rightarrow> size_t \<Rightarrow> string \<times> ws_message" where
  "getHeader message headerLen =
     (if ms_size message < headerLen then ([], message)
      else let (bs, msg1) = sgetn message (unat headerLen);
               msg2 = pubseekpos msg1 (unat headerLen)
           in (c_string bs, msg2))"

record WsPacket =
  wp_message :: ws_message
  wp_header :: string
  wp_headerLen :: size_t
  wp_packetLen :: size_t

definition WsPacket_new :: "ws_message \<Rightarrow> string \<Rightarrow> size_t \<Rightarrow> WsPacket" where
  "WsPacket_new message header headerLen =
     \<lparr>wp_message = message, wp_header = header, wp_headerLen = headerLen,
      wp_packetLen = ms_size message - headerLen\<rparr>"

text \<open>\<open>from\<close> with its default header length \<open>sizeof("BUFF") - 1\<close>.\<close>

definition WsPacket_from :: "ws_message \<Rightarrow> WsPacket" where
  "WsPacket_from message =
     (let (header, message') = getHeader message 4 in WsPacket_new message' header 4)"

text \<open>
  \<open>copyOut\<close> returns the requested length, however many bytes the stream delivered; the
  second component are the bytes written to \<open>dst\<close>.
\<close>

definition copyOut :: "WsPacket \<Rightarrow> size_t \<Rightarrow> ssize_t \<times> bytes \<times> WsPacket" where
  "copyOut p lenDst =
     (let plen = min lenDst (wp_packetLen p);
          (bs, msg) = sgetn (wp_message p) (unat plen)
      in (plen, bs, p\<lparr>wp_message := msg\<rparr>))"

text \<open>The closure of \<open>TunaServer::processPacket\<close>; it captures the packet.\<close>

definition copy_out_action :: "WsPacket action" where
  "copy_out_action pkt m p =
     (let (ret, bs, p') = copyOut p (maxSize pkt) in
      ebind (mem_write m (unat (buf pkt)) bs) (\<lambda>m'. Inr (ret, m', p')))"

section \<open>MessageRef\<close>

text \<open>
  The wrapped object's \<open>asJson\<close> and \<open>fromJson\<close> are the template's; \<open>asJson\<close> may change
  the object.
\<close>

record 'd MessageRef =
  mr_action :: string
  mr_data :: 'd

definition MessageRef_new :: "string \<Rightarrow> 'd \<Rightarrow> 'd MessageRef" where
  [simp]: "MessageRef_new action data = \<lparr>mr_action = action, mr_data = data\<rparr>"

definition getAction :: "'d MessageRef \<Rightarrow> string" where
  [simp]: "getAction msg = mr_action msg"

definition getData :: "'d MessageRef \<Rightarrow> 'd" where
  [simp]: "getData msg = mr_data msg"

text \<open>\<open>Message\<close> owns what its base class refers to: a default constructed \<open>realData\<close>.\<close>

definition Message_new :: "'d \<Rightarrow> string \<Rightarrow> 'd MessageRef" where
  "Message_new realData action = MessageRef_new action realData"

definition MessageRef_asJson ::
  "'j json_api \<Rightarrow> ('j \<Rightarrow> 'd \<Rightarrow> ('j \<times> 'd) exec) \<Rightarrow> 'j \<Rightarrow> 'd MessageRef \<Rightarrow> ('j \<times> 'd MessageRef) exec" where
  "MessageRef_asJson J data_asJson val msg =
     ebind (j_put J val ''action'' (j_str J (mr_action msg))) (\<lambda>val1.
     ebind (data_asJson (j_null J) (mr_data msg)) (\<lambda>(jsData, d).
     ebind (j_put J val1 ''data'' jsData) (\<lambda>val2.
       Inr (val2, msg\<lparr>mr_data := d\<rparr>))))"

definition MessageRef_fromJson ::
  "'j json_api \<Rightarrow> ('j \<Rightarrow> 'd \<Rightarrow> 'd exec) \<Rightarrow> 'j \<Rightarrow> 'd MessageRef \<Rightarrow> (bool \<times> 'd MessageRef) exec" where
  "MessageRef_fromJson J data_fromJson val msg =
     ebind (j_get J val ''action'' (j_str J [])) (\<lambda>ja.
     ebind (j_asString J ja) (\<lambda>a.
     ebind (j_at J val ''data'') (\<lambda>jd.
     ebind (data_fromJson jd (mr_data msg)) (\<lambda>d.
       Inr (True, msg\<lparr>mr_action := a, mr_data := d\<rparr>)))))"

section \<open>Facts\<close>

lemma from_header:
  assumes "length hdr = 4" "CHR 0x00 \<notin> set hdr" "length hdr + length bs < 2 ^ 64"
  shows "WsPacket_from \<lparr>ms_data = hdr @ bs, ms_pos = 0\<rparr> =
    \<lparr>wp_message = \<lparr>ms_data = hdr @ bs, ms_pos = 4\<rparr>, wp_header = hdr, wp_headerLen = 4,
     wp_packetLen = of_nat (length bs)\<rparr>"
proof -
  have u: "unat (of_nat (4 + length bs) :: size_t) = 4 + length bs"
    using assms(1,3) by (simp only: unat_of_nat) (simp add: take_bit_nat_eq_self)
  then have "\<not> (of_nat (4 + length bs) :: size_t) < 4" by (simp add: word_less_nat_alt)
  moreover have "c_string hdr = hdr" using assms(2) by (auto simp: c_string_def takeWhile_eq_all_conv)
  ultimately show ?thesis
    using assms(1)
    by (simp add: WsPacket_from_def getHeader_def ms_size_def sgetn_def pubseekpos_def
        WsPacket_new_def Let_def)
qed

lemma from_short:
  assumes "length data < 4"
  shows "wp_header (WsPacket_from \<lparr>ms_data = data, ms_pos = 0\<rparr>) = []"
proof -
  have "(of_nat (length data) :: size_t) < 4"
    using assms by (simp add: word_less_nat_alt unat_of_nat)
  then show ?thesis by (simp add: WsPacket_from_def getHeader_def ms_size_def WsPacket_new_def)
qed

lemma copyOut_payload:
  assumes "ms_data (wp_message p) = hdr @ bs" "ms_pos (wp_message p) = length hdr"
    "wp_packetLen p = of_nat (length bs)" "length bs < 2 ^ 64"
  shows "fst (copyOut p n) = of_nat (min (unat n) (length bs))"
    "fst (snd (copyOut p n)) = take (unat n) bs"
proof -
  have u: "unat (of_nat (length bs) :: size_t) = length bs" using assms(4) by (simp add: unat_of_nat)
  have m: "min n (of_nat (length bs)) = of_nat (min (unat n) (length bs))"
    using u by (simp add: min_def word_le_nat_alt)
  have um: "unat (of_nat (min (unat n) (length bs)) :: size_t) = min (unat n) (length bs)"
    using assms(4) by (simp add: unat_of_nat min_def)
  show "fst (copyOut p n) = of_nat (min (unat n) (length bs))"
    by (simp add: copyOut_def assms(3) m split_beta Let_def)
  show "fst (snd (copyOut p n)) = take (unat n) bs"
    by (simp only: copyOut_def assms(3) m Let_def sgetn_def um prod.case fst_conv snd_conv assms(1,2))
      (simp add: min_def)
qed

section \<open>Properties\<close>

text \<open>A packet message is taken apart exactly. From a message of four header bytes without a
  NUL and a payload, \<open>from\<close> takes the header, and a following \<open>copyOut\<close> into a buffer of
  \<open>n\<close> bytes delivers the first \<open>n\<close> bytes of the payload and returns how many that are; the
  payload is cut, never padded.\<close>
theorem ws_packet_splits:
  assumes "length hdr = 4" "CHR 0x00 \<notin> set hdr" "length hdr + length bs < 2 ^ 64"
  defines "p \<equiv> WsPacket_from \<lparr>ms_data = hdr @ bs, ms_pos = 0\<rparr>"
  shows "wp_header p = hdr \<and>
    fst (copyOut p n) = of_nat (min (unat n) (length bs)) \<and>
    fst (snd (copyOut p n)) = take (unat n) bs"
proof -
  have p: "p = \<lparr>wp_message = \<lparr>ms_data = hdr @ bs, ms_pos = 4\<rparr>, wp_header = hdr, wp_headerLen = 4,
     wp_packetLen = of_nat (length bs)\<rparr>"
    unfolding p_def by (rule from_header [OF assms(1-3)])
  then have c1: "wp_header p = hdr" by simp
  have c2: "fst (copyOut p n) = of_nat (min (unat n) (length bs))" "fst (snd (copyOut p n)) = take (unat n) bs"
    by (rule copyOut_payload [where hdr = hdr]; use assms(1,3) p in simp)+
  show ?thesis using c1 c2 by blast
qed

theorem ws_packet_splits_witness:
  "fst (snd (copyOut (WsPacket_from \<lparr>ms_data = ''PAKT'' @ ''payload'', ms_pos = 0\<rparr>) 3)) = ''pay''"
  by (subst ws_packet_splits [THEN conjunct2, THEN conjunct2]) simp_all

text \<open>A message shorter than its header. It gets the empty header, so no branch of the
  server handles it; its \<open>packetLen\<close> has wrapped around to a huge number, so that a
  \<open>copyOut\<close> would claim to have filled the whole buffer while copying the few bytes there
  are.\<close>
theorem ws_packet_short:
  assumes "length data < 4"
  defines "p \<equiv> WsPacket_from \<lparr>ms_data = data, ms_pos = 0\<rparr>"
  shows "wp_header p = []" "unat (wp_packetLen p) = 2 ^ 64 - 4 + length data"
    "unat n \<le> 2 ^ 64 - 4 \<Longrightarrow> fst (copyOut p n) = n" "length (fst (snd (copyOut p n))) \<le> length data"
proof -
  have l: "(of_nat (length data) :: size_t) < 4"
    using assms(1) by (simp add: word_less_nat_alt unat_of_nat)
  then have p: "p = \<lparr>wp_message = \<lparr>ms_data = data, ms_pos = 0\<rparr>, wp_header = [], wp_headerLen = 4,
      wp_packetLen = of_nat (length data) - 4\<rparr>"
    by (simp add: p_def WsPacket_from_def getHeader_def ms_size_def WsPacket_new_def)
  then show "wp_header p = []" by simp
  have "length data = 0 \<or> length data = 1 \<or> length data = 2 \<or> length data = 3"
    using assms(1) by linarith
  then have w: "unat (of_nat (length data) - 4 :: size_t) = 2 ^ 64 - 4 + length data"
    by (elim disjE) (simp_all add: unsigned_minus_1_eq_mask mask_eq_exp_minus_1)
  with p show "unat (wp_packetLen p) = 2 ^ 64 - 4 + length data" by simp
  show "fst (copyOut p n) = n" if "unat n \<le> 2 ^ 64 - 4"
  proof -
    have "n \<le> of_nat (length data) - 4" unfolding word_le_nat_alt w using that by simp
    then show ?thesis by (simp add: copyOut_def p split_beta Let_def min_def)
  qed
  show "length (fst (snd (copyOut p n))) \<le> length data"
    by (simp add: copyOut_def p split_beta Let_def sgetn_def)
qed

theorem ws_packet_short_witness:
  "fst (copyOut (WsPacket_from \<lparr>ms_data = ''PA'', ms_pos = 0\<rparr>) 1500) = 1500"
  by (rule ws_packet_short(3)) simp_all

end
