(* ===== verification/Tunator.thy ===== *)
theory Tunator
  imports Cpp_Std
begin

unbundle bit_operations_syntax

text \<open>
  \<open>tunator.hpp\<close>, \<open>tunator.cpp\<close> and \<open>main.cpp\<close>: the options of the server, read from the command line
  through \<open>getopt_long\<close>, the string hash that the dispatches switch on, and the choice of
  the server that is started. The results of the successive calls of \<open>getopt_long\<close> are an
  argument: an index into the table of long options with the option's argument, or \<open>None\<close>
  for any return value other than 0 and -1.
\<close>

section \<open>The string hash\<close>

text \<open>
  \<open>*str == 0 ? hash : 101 * HashStringToInt(str + 1) + *str\<close> with \<open>hash = 0\<close> and a signed
  \<open>char\<close>, in \<open>unsigned long long\<close>. The argument is the text before the NUL.
\<close>

definition signed_char :: "char \<Rightarrow> 64 word" where
  "signed_char c = word_of_int (sint (of_char c :: 8 word))"

fun HashStringToInt :: "string \<Rightarrow> 64 word" where
  "HashStringToInt [] = 0"
| "HashStringToInt (c # str) = 101 * HashStringToInt str + signed_char c"

section \<open>Options\<close>

text \<open>The two server pointers are kept as whether they were set.\<close>

record TunaTor =
  tt_tunaServerWSS :: bool
  tt_tunaServerWS :: bool
  tt_mtu :: "16 word"
  tt_qSize :: "16 word"
  tt_address :: string
  tt_port :: "16 word"
  tt_threads :: size_t
  tt_cert :: "string option"
  tt_key :: "string option"
  tt_statFrequence :: size_t

definition TunaTor_new :: TunaTor where
  "TunaTor_new = \<lparr>tt_tunaServerWSS = False, tt_tunaServerWS = False, tt_mtu = 1500, tt_qSize = 64,
     tt_address = ''127.0.0.1'', tt_port = 4711, tt_threads = 4, tt_cert = None, tt_key = None,
     tt_statFrequence = 5000\<rparr>"

text \<open>The getters.\<close>

definition TunaTor_getMtu :: "TunaTor \<Rightarrow> 16 word" where
  [simp]: "TunaTor_getMtu t = tt_mtu t"

definition TunaTor_getQsize :: "TunaTor \<Rightarrow> 16 word" where
  [simp]: "TunaTor_getQsize t = tt_qSize t"

definition TunaTor_getPort :: "TunaTor \<Rightarrow> 16 word" where
  [simp]: "TunaTor_getPort t = tt_port t"

definition TunaTor_getAddress :: "TunaTor \<Rightarrow> string" where
  [simp]: "TunaTor_getAddress t = tt_address t"

definition TunaTor_getThreads :: "TunaTor \<Rightarrow> size_t" where
  [simp]: "TunaTor_getThreads t = tt_threads t"

definition TunaTor_getCert :: "TunaTor \<Rightarrow> string option" where
  [simp]: "TunaTor_getCert t = tt_cert t"

definition TunaTor_getKey :: "TunaTor \<Rightarrow> string option" where
  [simp]: "TunaTor_getKey t = tt_key t"

definition TunaTor_getStatFrequence :: "TunaTor \<Rightarrow> size_t" where
  [simp]: "TunaTor_getStatFrequence t = tt_statFrequence t"

definition isSsl :: "TunaTor \<Rightarrow> bool" where
  "isSsl t \<longleftrightarrow> TunaTor_getCert t \<noteq> None \<and> TunaTor_getKey t \<noteq> None"

definition TunaTor_dump :: "TunaTor \<Rightarrow> string" where
  "TunaTor_dump t =
     ''mtu='' @ show_nat (unat (tt_mtu t)) @ '' qsize='' @ show_nat (unat (tt_qSize t)) @
     '' address='' @ tt_address t @ '' port='' @ show_nat (unat (tt_port t)) @
     '' threads='' @ to_string (tt_threads t) @
     '' cert='' @ (case tt_cert t of None \<Rightarrow> [] | Some s \<Rightarrow> s) @
     '' key='' @ (case tt_key t of None \<Rightarrow> [] | Some s \<Rightarrow> s) @
     '' statFrequence='' @ to_string (tt_statFrequence t)"

definition long_options :: "string list" where
  "long_options = [''mtu'', ''qsize'', ''address'', ''port'', ''threads'', ''cert'', ''key'',
     ''statFrequence'']"

text \<open>
  The \<open>switch\<close> on the hash of the option's name. Assigning an \<open>int\<close> to an
  \<open>unsigned short\<close> or a \<open>size_t\<close> reduces it modulo the width.
\<close>

definition put_option :: "string \<Rightarrow> string \<Rightarrow> TunaTor \<Rightarrow> TunaTor exec" where
  "put_option name optarg t =
     (let h = HashStringToInt name in
      if h = HashStringToInt ''mtu'' then ebind (stoi optarg) (\<lambda>i. Inr (t\<lparr>tt_mtu := word_of_int i\<rparr>))
      else if h = HashStringToInt ''qsize'' then ebind (stoi optarg) (\<lambda>i. Inr (t\<lparr>tt_qSize := word_of_int i\<rparr>))
      else if h = HashStringToInt ''address'' then Inr (t\<lparr>tt_address := optarg\<rparr>)
      else if h = HashStringToInt ''port'' then ebind (stoi optarg) (\<lambda>i. Inr (t\<lparr>tt_port := word_of_int i\<rparr>))
      else if h = HashStringToInt ''threads'' then ebind (stoi optarg) (\<lambda>i. Inr (t\<lparr>tt_threads := word_of_int i\<rparr>))
      else if h = HashStringToInt ''statFrequence''
        then ebind (stoi optarg) (\<lambda>i. Inr (t\<lparr>tt_statFrequence := word_of_int i\<rparr>))
      else if h = HashStringToInt ''cert'' then Inr (t\<lparr>tt_cert := Some optarg\<rparr>)
      else if h = HashStringToInt ''key'' then Inr (t\<lparr>tt_key := Some optarg\<rparr>)
      else Inr t)"

fun args_loop :: "(nat \<times> string) option list \<Rightarrow> TunaTor \<Rightarrow> TunaTor exec" where
  "args_loop [] ret = Inr ret"
| "args_loop (None # cs) ret = args_loop cs ret"
| "args_loop (Some (option_index, optarg) # cs) ret =
     ebind (put_option (long_options ! option_index) optarg ret) (args_loop cs)"

definition TunaTor_args :: "(nat \<times> string) option list \<Rightarrow> TunaTor exec" where
  "TunaTor_args cs = args_loop cs TunaTor_new"

section \<open>Starting and stopping\<close>

text \<open>The server that \<open>start\<close> constructs, with the arguments it passes.\<close>

datatype ws_server =
    WssServer "16 word" size_t string string string
  | WsServer "16 word" size_t string

definition TunaTor_start :: "TunaTor \<Rightarrow> ws_server \<times> TunaTor" where
  "TunaTor_start t =
     (case (TunaTor_getCert t, TunaTor_getKey t) of
        (Some cert, Some key) \<Rightarrow>
          (WssServer (TunaTor_getPort t) (TunaTor_getThreads t) cert key (TunaTor_getAddress t),
           t\<lparr>tt_tunaServerWSS := True\<rparr>)
      | _ \<Rightarrow>
          (WsServer (TunaTor_getPort t) (TunaTor_getThreads t) (TunaTor_getAddress t),
           t\<lparr>tt_tunaServerWS := True\<rparr>))"

text \<open>
  The destructor deletes the servers that were created; the result says which ones, the
  plain server first.
\<close>

definition TunaTor_delete :: "TunaTor \<Rightarrow> bool \<times> bool" where
  "TunaTor_delete t = (tt_tunaServerWS t, tt_tunaServerWSS t)"

text \<open>
  \<open>main\<close> of \<open>main.cpp\<close>: read the options, log them, start the server; what it returns is what
  was logged, the server that was started, and, once \<open>start\<close> is over, the servers that the
  end of \<open>main\<close> deletes.
\<close>

definition tunator_main :: "(nat \<times> string) option list \<Rightarrow> (string \<times> ws_server \<times> bool \<times> bool) exec" where
  "tunator_main cs =
     ebind (TunaTor_args cs) (\<lambda>tunaTor.
       let (server, tunaTor') = TunaTor_start tunaTor
       in Inr (TunaTor_dump tunaTor, server, TunaTor_delete tunaTor'))"

text \<open>
  \<open>waitGraceFull\<close> of \<open>tuna_server.hpp\<close> polls the number of connected devices; the
  argument lists what it sees.
\<close>

fun waitGraceFull :: "nat list \<Rightarrow> unit exec" where
  "waitGraceFull [] = Inl Blocked"
| "waitGraceFull (n # ns) = (if n \<noteq> 0 then waitGraceFull ns else Inr ())"

text \<open>The result of \<open>stop\<close> says which of the two servers was stopped.\<close>

definition TunaTor_stop :: "nat list \<Rightarrow> nat list \<Rightarrow> TunaTor \<Rightarrow> (bool \<times> bool) exec" where
  "TunaTor_stop ws wss t =
     ebind (if tt_tunaServerWS t then waitGraceFull ws else Inr ()) (\<lambda>_.
     ebind (if tt_tunaServerWSS t then waitGraceFull wss else Inr ()) (\<lambda>_.
       Inr (tt_tunaServerWS t, tt_tunaServerWSS t)))"

section \<open>Facts about the hash\<close>

definition printable :: "string \<Rightarrow> bool" where
  "printable s \<longleftrightarrow> (\<forall>c \<in> set s. 32 \<le> (of_char c :: nat) \<and> (of_char c :: nat) < 127)"

text \<open>The hash without the wrap-around.\<close>

fun hash_nat :: "string \<Rightarrow> nat" where
  "hash_nat [] = 0"
| "hash_nat (c # s) = 101 * hash_nat s + of_char c"

lemma hash_nat_inj:
  "printable a \<Longrightarrow> printable b \<Longrightarrow> hash_nat a = hash_nat b \<Longrightarrow> a = b"
proof (induction a arbitrary: b)
  case Nil
  then show ?case by (cases b) (auto simp: printable_def)
next
  case (Cons c a)
  then obtain d b' where b: "b = d # b'" by (cases b) (auto simp: printable_def)
  let ?c = "of_char c :: nat" and ?d = "of_char d :: nat"
  have r: "32 \<le> ?c" "?c < 127" "32 \<le> ?d" "?d < 127"
    using Cons.prems(1,2) b by (auto simp: printable_def)
  have e: "101 * hash_nat a + ?c = 101 * hash_nat b' + ?d" using Cons.prems(3) b by simp
  have "hash_nat a = hash_nat b'" "?c = ?d"
  proof -
    show "hash_nat a = hash_nat b'"
    proof (rule ccontr)
      assume "hash_nat a \<noteq> hash_nat b'"
      then have "hash_nat a + 1 \<le> hash_nat b' \<or> hash_nat b' + 1 \<le> hash_nat a" by linarith
      with e r show False by (elim disjE) linarith+
    qed
    with e show "?c = ?d" by simp
  qed
  then have "c = d" by simp
  moreover have "a = b'"
    using Cons.IH [of b'] Cons.prems(1,2) b \<open>hash_nat a = hash_nat b'\<close> by (auto simp: printable_def)
  ultimately show ?case using b by simp
qed

lemma signed_char_printable:
  assumes "(of_char c :: nat) < 127"
  shows "signed_char c = of_nat (of_char c)"
proof -
  obtain n where n: "(of_char c :: nat) = n" by simp
  have w: "(of_char c :: 8 word) = of_nat n" using n by (metis of_nat_of_char)
  have "n < 127" using assms n by simp
  then have "signed_take_bit 7 (int n) = int n" by (intro signed_take_bit_int_eq_self) auto
  then have "sint (of_nat n :: 8 word) = int n" by (simp add: signed_of_nat)
  then show ?thesis by (simp add: signed_char_def w n)
qed

lemma hash_of_nat: "printable s \<Longrightarrow> HashStringToInt s = of_nat (hash_nat s)"
  by (induction s) (auto simp: printable_def signed_char_printable)

lemma hash_nat_bound: "printable s \<Longrightarrow> hash_nat s + 2 \<le> 2 * 101 ^ length s"
  by (induction s) (auto simp: printable_def)

lemma hash_exact_aux:
  assumes "printable a" "printable b" "length a \<le> 9" "length b \<le> 9"
    "HashStringToInt a = HashStringToInt b"
  shows "a = b"
proof -
  have small: "hash_nat s < 2 ^ 64" if "printable s" "length s \<le> 9" for s
  proof -
    have "hash_nat s + 2 \<le> 2 * 101 ^ length s" by (rule hash_nat_bound [OF that(1)])
    also have "\<dots> \<le> 2 * 101 ^ 9" using that(2) by (intro mult_le_mono2 power_increasing) auto
    finally show ?thesis by simp
  qed
  have "unat (of_nat (hash_nat a) :: 64 word) = unat (of_nat (hash_nat b) :: 64 word)"
    using assms(5) by (simp only: hash_of_nat [OF assms(1)] hash_of_nat [OF assms(2)])
  then have "hash_nat a = hash_nat b"
    using small [OF assms(1,3)] small [OF assms(2,4)] by (simp add: unat_of_nat take_bit_nat_eq_self)
  then show ?thesis by (rule hash_nat_inj [OF assms(1,2)])
qed

text \<open>The hashes that the two dispatches compare with.\<close>

lemma option_hashes:
  "HashStringToInt ''mtu'' = 1205342"
  "HashStringToInt ''qsize'' = 10636880056"
  "HashStringToInt ''address'' = 123294107461842"
  "HashStringToInt ''port'' = 120689153"
  "HashStringToInt ''threads'' = 123136026462047"
  "HashStringToInt ''cert'' = 120688130"
  "HashStringToInt ''key'' = 1244629"
  "HashStringToInt ''statFrequence'' = 9019999558443744374"
  "HashStringToInt ''init'' = 120597236"
  "HashStringToInt ''pong'' = 107254436"
  by code_simp+

lemma args_loop_snoc: "args_loop (cs @ [c]) t = ebind (args_loop cs t) (args_loop [c])"
proof (induction cs t rule: args_loop.induct)
  case (3 i optarg cs ret)
  then show ?case by (simp add: ebind_assoc cong: ebind_cong)
qed simp_all

lemma args_loop_one:
  "args_loop [Some (i, s)] = put_option (long_options ! i) s" "args_loop [None] = Inr"
proof -
  have e: "args_loop [] = Inr" by (rule ext) simp
  have "ebind m Inr = m" for m :: "TunaTor exec" by (cases m) auto
  then show "args_loop [Some (i, s)] = put_option (long_options ! i) s" "args_loop [None] = Inr"
    by (auto simp: fun_eq_iff e)
qed

text \<open>Reading the options leaves the server pointers alone.\<close>

lemma put_option_servers:
  "put_option name s t = Inr t' \<Longrightarrow>
    tt_tunaServerWS t' = tt_tunaServerWS t \<and> tt_tunaServerWSS t' = tt_tunaServerWSS t"
  by (auto simp: put_option_def Let_def ebind_eq_Inr split: if_splits)

lemma args_servers:
  "args_loop cs t = Inr t' \<Longrightarrow>
    tt_tunaServerWS t' = tt_tunaServerWS t \<and> tt_tunaServerWSS t' = tt_tunaServerWSS t"
proof (induction cs t rule: args_loop.induct)
  case (3 i optarg cs ret)
  then obtain t1 where "put_option (long_options ! i) optarg ret = Inr t1" "args_loop cs t1 = Inr t'"
    by (auto simp: ebind_eq_Inr)
  with 3(1) put_option_servers [of "long_options ! i" optarg ret t1] show ?case by simp
qed simp_all

text \<open>
  The program serves with TLS exactly when both a certificate and a key were given, and a
  stop later waits for that server only.
\<close>

lemma start_serves_one:
  assumes "TunaTor_start t = (server, t')" "\<not> tt_tunaServerWS t" "\<not> tt_tunaServerWSS t"
  shows "tt_tunaServerWSS t' \<longleftrightarrow> isSsl t" "tt_tunaServerWS t' \<longleftrightarrow> \<not> isSsl t"
    "(\<exists>cert key. server = WssServer (tt_port t) (tt_threads t) cert key (tt_address t)) \<longleftrightarrow> isSsl t"
    "0 \<in> set seen \<Longrightarrow> TunaTor_stop (if isSsl t then [] else seen) (if isSsl t then seen else []) t' =
       Inr (\<not> isSsl t, isSsl t)"
proof -
  have w: "0 \<in> set seen \<Longrightarrow> waitGraceFull seen = Inr ()" for seen
    by (induction seen rule: waitGraceFull.induct) auto
  show "tt_tunaServerWSS t' \<longleftrightarrow> isSsl t" "tt_tunaServerWS t' \<longleftrightarrow> \<not> isSsl t"
    "(\<exists>cert key. server = WssServer (tt_port t) (tt_threads t) cert key (tt_address t)) \<longleftrightarrow> isSsl t"
    "0 \<in> set seen \<Longrightarrow> TunaTor_stop (if isSsl t then [] else seen) (if isSsl t then seen else []) t' =
       Inr (\<not> isSsl t, isSsl t)"
    using assms w
    by (auto simp: TunaTor_start_def isSsl_def TunaTor_stop_def split: option.splits)
qed

text \<open>The program deletes the one server it started.\<close>

lemma main_deletes_started:
  assumes "tunator_main cs = Inr (log, server, ws, wss)"
  shows "ws \<noteq> wss" "wss \<longleftrightarrow> (\<exists>port threads cert key address. server = WssServer port threads cert key address)"
proof -
  from assms obtain t t' where t: "TunaTor_args cs = Inr t" "TunaTor_start t = (server, t')"
    "(ws, wss) = TunaTor_delete t'"
    by (fastforce simp: tunator_main_def ebind_eq_Inr case_prod_beta Let_def prod_eq_iff)
  have "tt_tunaServerWS t = False \<and> tt_tunaServerWSS t = False"
    using args_servers [OF t(1) [unfolded TunaTor_args_def]] by (simp add: TunaTor_new_def)
  with t(2,3) show "ws \<noteq> wss"
    "wss \<longleftrightarrow> (\<exists>port threads cert key address. server = WssServer port threads cert key address)"
    by (auto simp: TunaTor_start_def TunaTor_delete_def split: option.splits)
qed

section \<open>Properties\<close>

text \<open>C40: the dispatch on hashes distinguishes ordinary names. Two strings of printable ASCII of
  at most nine characters have the same \<open>HashStringToInt\<close> only if they are equal, so no such
  action name is taken for another one; the hash of a control character can be absorbed by its
  neighbour, and \<open>"init"\<close> with its middle two characters replaced by a tab and a \<open>j\<close> has the
  hash of \<open>"init"\<close>.\<close>
theorem hash_dispatch_exact:
  assumes "printable a" "printable b" "length a \<le> 9" "length b \<le> 9"
  shows "(HashStringToInt a = HashStringToInt b \<longleftrightarrow> a = b) \<and>
    HashStringToInt ''init'' = HashStringToInt [CHR ''i'', CHR 0x09, CHR ''j'', CHR ''t'']"
proof -
  have c1: "HashStringToInt a = HashStringToInt b \<longleftrightarrow> a = b" using hash_exact_aux [OF assms] by blast
  have c2: "HashStringToInt ''init'' = HashStringToInt [CHR ''i'', CHR 0x09, CHR ''j'', CHR ''t'']"
    by code_simp
  show ?thesis using c1 c2 by blast
qed

theorem hash_dispatch_exact_witness:
  "HashStringToInt ''pong'' \<noteq> HashStringToInt ''init''"
  by (subst hash_dispatch_exact [THEN conjunct1]) (simp_all add: printable_def)

text \<open>What the command line means. Each of the eight options sets exactly its own field of the
  options read so far, so the last occurrence counts; anything else on the line is skipped; a
  number that is not one makes the start throw, and a number too large for the 16 bit fields
  is reduced modulo \<open>65536\<close> without notice.\<close>
theorem args_set_options:
  shows "TunaTor_args (cs @ [Some (0, s)]) =
      ebind (TunaTor_args cs) (\<lambda>t. ebind (stoi s) (\<lambda>k. Inr (t\<lparr>tt_mtu := word_of_int k\<rparr>))) \<and>
    TunaTor_args (cs @ [Some (1, s)]) =
      ebind (TunaTor_args cs) (\<lambda>t. ebind (stoi s) (\<lambda>k. Inr (t\<lparr>tt_qSize := word_of_int k\<rparr>))) \<and>
    TunaTor_args (cs @ [Some (2, s)]) =
      ebind (TunaTor_args cs) (\<lambda>t. Inr (t\<lparr>tt_address := s\<rparr>)) \<and>
    TunaTor_args (cs @ [Some (3, s)]) =
      ebind (TunaTor_args cs) (\<lambda>t. ebind (stoi s) (\<lambda>k. Inr (t\<lparr>tt_port := word_of_int k\<rparr>))) \<and>
    TunaTor_args (cs @ [Some (4, s)]) =
      ebind (TunaTor_args cs) (\<lambda>t. ebind (stoi s) (\<lambda>k. Inr (t\<lparr>tt_threads := word_of_int k\<rparr>))) \<and>
    TunaTor_args (cs @ [Some (5, s)]) =
      ebind (TunaTor_args cs) (\<lambda>t. Inr (t\<lparr>tt_cert := Some s\<rparr>)) \<and>
    TunaTor_args (cs @ [Some (6, s)]) =
      ebind (TunaTor_args cs) (\<lambda>t. Inr (t\<lparr>tt_key := Some s\<rparr>)) \<and>
    TunaTor_args (cs @ [Some (7, s)]) =
      ebind (TunaTor_args cs) (\<lambda>t. ebind (stoi s) (\<lambda>k. Inr (t\<lparr>tt_statFrequence := word_of_int k\<rparr>))) \<and>
    TunaTor_args (cs @ [None]) = TunaTor_args cs \<and>
    uint (word_of_int k :: 16 word) = k mod 65536"
proof -
  have e: "ebind m Inr = m" for m :: "TunaTor exec" by (cases m) auto
  note s = TunaTor_args_def args_loop_snoc args_loop_one put_option_def [abs_def] long_options_def
    option_hashes Let_def e
  have c1: "TunaTor_args (cs @ [Some (0, s)]) =
      ebind (TunaTor_args cs) (\<lambda>t. ebind (stoi s) (\<lambda>k. Inr (t\<lparr>tt_mtu := word_of_int k\<rparr>)))"
    by (simp add: s del: HashStringToInt.simps)
  have c2: "TunaTor_args (cs @ [Some (1, s)]) =
      ebind (TunaTor_args cs) (\<lambda>t. ebind (stoi s) (\<lambda>k. Inr (t\<lparr>tt_qSize := word_of_int k\<rparr>)))"
    by (simp add: s del: HashStringToInt.simps)
  have c3: "TunaTor_args (cs @ [Some (2, s)]) =
      ebind (TunaTor_args cs) (\<lambda>t. Inr (t\<lparr>tt_address := s\<rparr>))"
    by (simp add: s del: HashStringToInt.simps)
  have c4: "TunaTor_args (cs @ [Some (3, s)]) =
      ebind (TunaTor_args cs) (\<lambda>t. ebind (stoi s) (\<lambda>k. Inr (t\<lparr>tt_port := word_of_int k\<rparr>)))"
    by (simp add: s del: HashStringToInt.simps)
  have c5: "TunaTor_args (cs @ [Some (4, s)]) =
      ebind (TunaTor_args cs) (\<lambda>t. ebind (stoi s) (\<lambda>k. Inr (t\<lparr>tt_threads := word_of_int k\<rparr>)))"
    by (simp add: s del: HashStringToInt.simps)
  have c6: "TunaTor_args (cs @ [Some (5, s)]) =
      ebind (TunaTor_args cs) (\<lambda>t. Inr (t\<lparr>tt_cert := Some s\<rparr>))"
    by (simp add: s del: HashStringToInt.simps)
  have c7: "TunaTor_args (cs @ [Some (6, s)]) =
      ebind (TunaTor_args cs) (\<lambda>t. Inr (t\<lparr>tt_key := Some s\<rparr>))"
    by (simp add: s del: HashStringToInt.simps)
  have c8: "TunaTor_args (cs @ [Some (7, s)]) =
      ebind (TunaTor_args cs) (\<lambda>t. ebind (stoi s) (\<lambda>k. Inr (t\<lparr>tt_statFrequence := word_of_int k\<rparr>)))"
    by (simp add: s del: HashStringToInt.simps)
  have c9: "TunaTor_args (cs @ [None]) = TunaTor_args cs" by (simp add: s del: HashStringToInt.simps)
  have c10: "uint (word_of_int k :: 16 word) = k mod 65536"
    by (simp add: unsigned_of_int take_bit_eq_mod)
  show ?thesis using c1 c2 c3 c4 c5 c6 c7 c8 c9 c10 by blast
qed

end
