(* ===== verification/Tuna_Server.thy ===== *)
theory Tuna_Server
  imports Tun_Device Ws_Packet Tunator
begin

text \<open>
  \<open>tuna_server.hpp\<close>: the websocket server. Its state is the map from connections to
  devices, the devices themselves (a \<open>shared_ptr<TunDevice>\<close> is an index into a heap, as
  the stat and recv threads share ownership with the map), and the frames it has sent. The
  handlers are whole: parsing, dispatch, device start, map update and answer. The turns of
  the two threads the server starts per device are operations of their own.
\<close>

section \<open>Data\<close>

text \<open>The libraries and the platform the server is built with.\<close>

record ('j, 'ip, 'q) platform =
  pf_json :: "'j json_api"
  pf_ip :: "'ip ip_api"
  pf_ring :: "'q ring_api"
  pf_asCommands :: "'ip IfAddrs \<Rightarrow> string \<Rightarrow> SystemCmd list"

text \<open>
  What the system supplies during a handler: clocks, the bytes of new pools, the system
  calls of \<open>start\<close>, and \<open>ev_freed\<close>: in \<open>processJson\<close> the pointer \<open>action\<close> outlives the
  temporary string it points into, so the code dispatches on whatever that memory then
  holds, given what it held.
\<close>

record server_env =
  ev_now :: time_point
  ev_raw :: "nat \<Rightarrow> char"
  ev_raw' :: "nat \<Rightarrow> char"
  ev_time :: string
  ev_clock :: "nat \<Rightarrow> time_point"
  ev_os :: tun_os
  ev_freed :: "string \<Rightarrow> string"

text \<open>A sent frame: connection, bytes, and the opcode when one is given (130 for binary).\<close>

type_synonym 'c frame = "'c \<times> bytes \<times> nat option"

record ('c, 'ip, 'q) TunaServer =
  ts_tunaTor :: TunaTor
  ts_tunDevices :: "'c \<rightharpoonup> nat"
  ts_heap :: "('ip, 'q) TunDevice list"
  ts_sent :: "'c frame list"

definition TunaServer_new :: "TunaTor \<Rightarrow> ('c, 'ip, 'q) TunaServer" where
  "TunaServer_new t = \<lparr>ts_tunaTor = t, ts_tunDevices = Map.empty, ts_heap = [], ts_sent = []\<rparr>"

section \<open>Answers\<close>

definition sendTun ::
  "('j, 'ip, 'q) platform \<Rightarrow> server_env \<Rightarrow> string \<Rightarrow> ('ip, 'q) TunDevice \<Rightarrow> 'c \<Rightarrow>
   ('c, 'ip, 'q) TunaServer \<Rightarrow> (('ip, 'q) TunDevice \<times> ('c, 'ip, 'q) TunaServer) exec" where
  "sendTun L ev msg tun connection srv =
     ebind (MessageRef_asJson (pf_json L)
         (TunDevice_asJson (pf_json L) (pf_ip L) (ev_time ev) (ev_clock ev))
         (j_null (pf_json L)) \<lparr>mr_action = msg, mr_data = tun\<rparr>) (\<lambda>(out, m).
       Inr (mr_data m,
            srv\<lparr>ts_sent := ts_sent srv @ [(connection, ''JSON'' @ j_write (pf_json L) out, None)]\<rparr>))"

section \<open>The actions\<close>

text \<open>
  The two threads of the server for a device. Their loops are \<open>stat_turn\<close> and \<open>recv_turn\<close>
  below.
\<close>

definition startStatThread :: "('ip, 'q) TunDevice \<Rightarrow> (bool \<times> ('ip, 'q) TunDevice) exec" where
  "startStatThread tun = ebind (setStatThread tun) (\<lambda>tun1. Inr (True, tun1))"

definition startRecvThread :: "('ip, 'q) TunDevice \<Rightarrow> (bool \<times> ('ip, 'q) TunDevice) exec" where
  "startRecvThread tun = ebind (setRecvThread tun) (\<lambda>tun1. Inr (True, tun1))"

text \<open>
  \<open>tunDevices.insert\<close> leaves an existing entry alone. A device that is not put into the
  map is destroyed with its last owner.
\<close>

definition actionInit ::
  "('j, 'ip, 'q) platform \<Rightarrow> server_env \<Rightarrow> 'j \<Rightarrow> 'c \<Rightarrow> ('c, 'ip, 'q) TunaServer \<Rightarrow>
   ('c, 'ip, 'q) TunaServer exec" where
  "actionInit L ev data connection srv =
     ebind (IfAddrs_fromJson (pf_json L) (pf_ip L) data IfAddrs_new) (\<lambda>(ok, ifAddrs).
       if \<not> ok then Inr srv else
       let tun = TunDevice_new (pf_ring L) (ev_raw ev) (ev_raw' ev) (ev_now ev) ifAddrs
             (ucast (TunaTor_getMtu (ts_tunaTor srv))) (ucast (TunaTor_getQsize (ts_tunaTor srv)))
       in ebind (start (pf_asCommands L) (ev_os ev) tun) (\<lambda>(started, tun1).
         if \<not> started then
           ebind (sendTun L ev ''init-res'' tun1 connection srv) (\<lambda>(_, srv1). Inr srv1)
         else ebind (startStatThread tun1) (\<lambda>(stat, tun2).
         if \<not> stat then
           ebind (stop tun2) (\<lambda>(tun3, _).
           ebind (sendTun L ev ''init-res'' tun3 connection srv) (\<lambda>(_, srv1). Inr srv1))
         else ebind (startRecvThread tun2) (\<lambda>(recv, tun3).
         if \<not> recv then
           ebind (stop tun3) (\<lambda>(tun4, _).
           ebind (sendTun L ev ''init-res'' tun4 connection srv) (\<lambda>(_, srv1). Inr srv1))
         else
           let i = length (ts_heap srv);
               srv1 = srv\<lparr>ts_tunDevices := (if connection \<in> dom (ts_tunDevices srv)
                                             then ts_tunDevices srv
                                             else (ts_tunDevices srv)(connection \<mapsto> i))\<rparr>
           in ebind (sendTun L ev ''init-res'' tun3 connection srv1) (\<lambda>(tun4, srv2).
                Inr (srv2\<lparr>ts_heap := ts_heap srv2 @ [tun4]\<rparr>))))))"

definition actionPong ::
  "('j, 'ip, 'q) platform \<Rightarrow> 'j \<Rightarrow> ('c, 'ip, 'q) TunaServer \<Rightarrow> ('c, 'ip, 'q) TunaServer exec" where
  "actionPong L data srv =
     ebind (IfAddrs_fromJson (pf_json L) (pf_ip L) data IfAddrs_new) (\<lambda>_. Inr srv)"

definition processJson ::
  "('j, 'ip, 'q) platform \<Rightarrow> server_env \<Rightarrow> 'c \<Rightarrow> WsPacket \<Rightarrow> ('c, 'ip, 'q) TunaServer \<Rightarrow>
   ('c, 'ip, 'q) TunaServer exec" where
  "processJson L ev connection packet srv =
     (case j_parse (pf_json L) (drop (ms_pos (wp_message packet)) (ms_data (wp_message packet))) of
        None \<Rightarrow> Inr srv
      | Some json \<Rightarrow>
          ebind (j_at (pf_json L) json ''action'') (\<lambda>ja.
          ebind (j_asString (pf_json L) ja) (\<lambda>s.
          let h = HashStringToInt (ev_freed ev (c_string s)) in
          if h = HashStringToInt ''init'' then
            ebind (j_at (pf_json L) json ''data'') (\<lambda>data. actionInit L ev data connection srv)
          else if h = HashStringToInt ''pong'' then
            ebind (j_at (pf_json L) json ''data'') (\<lambda>data. actionPong L data srv)
          else Inr srv)))"

definition processPacket ::
  "'q ring_api \<Rightarrow> 'q sleeps \<Rightarrow> nat \<Rightarrow> WsPacket \<Rightarrow> ('c, 'ip, 'q) TunaServer \<Rightarrow>
   ('c, 'ip, 'q) TunaServer exec" where
  "processPacket R script i packet srv =
     (let tun = ts_heap srv ! i in
      ebind (push R copy_out_action script (getToTun tun) packet) (\<lambda>(_, toTun', _).
        Inr (srv\<lparr>ts_heap := (ts_heap srv)[i := tun\<lparr>td_toTun := toTun'\<rparr>]\<rparr>)))"

section \<open>The handlers\<close>

definition onmessage ::
  "('j, 'ip, 'q) platform \<Rightarrow> server_env \<Rightarrow> 'q sleeps \<Rightarrow> 'c \<Rightarrow> ws_message \<Rightarrow>
   ('c, 'ip, 'q) TunaServer \<Rightarrow> ('c, 'ip, 'q) TunaServer exec" where
  "onmessage L ev script connection message srv =
     (let wsPacket = WsPacket_from message; tunDev = ts_tunDevices srv connection in
      if wp_header wsPacket = ''JSON'' then processJson L ev connection wsPacket srv
      else (case tunDev of
              None \<Rightarrow> Inr srv
            | Some i \<Rightarrow>
                if wp_header wsPacket = ''PAKT'' then processPacket (pf_ring L) script i wsPacket srv
                else Inr srv))"

text \<open>\<open>disconnect\<close>, which \<open>onclose\<close> and \<open>onerror\<close> call; also the descriptors it closes.\<close>

definition disconnect ::
  "'c \<Rightarrow> ('c, 'ip, 'q) TunaServer \<Rightarrow> (('c, 'ip, 'q) TunaServer \<times> int list) exec" where
  "disconnect connection srv =
     (case ts_tunDevices srv connection of
        None \<Rightarrow> Inr (srv, [])
      | Some i \<Rightarrow>
          ebind (stop (ts_heap srv ! i)) (\<lambda>(tun, closed).
            Inr (srv\<lparr>ts_heap := (ts_heap srv)[i := tun],
                     ts_tunDevices := (ts_tunDevices srv)(connection := None)\<rparr>, closed)))"

text \<open>
  What \<open>start\<close> registers at the endpoint: the library calls \<open>onmessage\<close>, \<open>onopen\<close>, which only
  logs, and for the end of a connection \<open>onclose\<close> with a status and a reason, or \<open>onerror\<close>.
  \<open>serve\<close> is a run of the server under such calls; its second result lists the closed
  descriptors.
\<close>

datatype 'q ws_event =
    OnMessage server_env "'q sleeps" ws_message
  | OnOpen
  | OnClose int string
  | OnError int

fun ws_call ::
  "('j, 'ip, 'q) platform \<Rightarrow> 'q ws_event \<Rightarrow> 'c \<Rightarrow> ('c, 'ip, 'q) TunaServer \<Rightarrow>
   (('c, 'ip, 'q) TunaServer \<times> int list) exec" where
  "ws_call L (OnMessage ev script message) connection srv =
     ebind (onmessage L ev script connection message srv) (\<lambda>srv1. Inr (srv1, []))"
| "ws_call L OnOpen connection srv = Inr (srv, [])"
| "ws_call L (OnClose status reason) connection srv = disconnect connection srv"
| "ws_call L (OnError ec) connection srv = disconnect connection srv"

fun serve ::
  "('j, 'ip, 'q) platform \<Rightarrow> ('c \<times> 'q ws_event) list \<Rightarrow> ('c, 'ip, 'q) TunaServer \<Rightarrow>
   (('c, 'ip, 'q) TunaServer \<times> int list) exec" where
  "serve L [] srv = Inr (srv, [])"
| "serve L ((connection, e) # es) srv =
     ebind (ws_call L e connection srv) (\<lambda>(srv1, fds).
     ebind (serve L es srv1) (\<lambda>(srv2, fds'). Inr (srv2, fds @ fds')))"

section \<open>The threads\<close>

text \<open>One turn of the recv thread, of the stat thread, and of a device's own threads.\<close>

definition recv_action :: "'c \<Rightarrow> 'c frame list action" where
  "recv_action connection pkt m sent =
     ebind (mem_read m (unat (buf pkt)) (unat (psize pkt))) (\<lambda>bs.
       Inr (1, m, sent @ [(connection, ''PAKT'' @ bs, Some 130)]))"

definition recv_turn ::
  "'q ring_api \<Rightarrow> 'q waits \<Rightarrow> nat \<Rightarrow> 'c \<Rightarrow> ('c, 'ip, 'q) TunaServer \<Rightarrow> ('c, 'ip, 'q) TunaServer exec" where
  "recv_turn R waits i connection srv =
     (let tun = ts_heap srv ! i in
      ebind (pop R (recv_action connection) waits (getFromTun tun) (ts_sent srv))
        (\<lambda>(_, fromTun', sent').
          Inr (srv\<lparr>ts_heap := (ts_heap srv)[i := tun\<lparr>td_fromTun := fromTun'\<rparr>], ts_sent := sent'\<rparr>)))"

definition stat_turn ::
  "('j, 'ip, 'q) platform \<Rightarrow> server_env \<Rightarrow> nat \<Rightarrow> 'c \<Rightarrow> ('c, 'ip, 'q) TunaServer \<Rightarrow>
   ('c, 'ip, 'q) TunaServer exec" where
  "stat_turn L ev i connection srv =
     (if \<not> getRunning (ts_heap srv ! i) then Inr srv
      else ebind (sendTun L ev ''stat-res'' (ts_heap srv ! i) connection srv) (\<lambda>(tun, srv1).
        Inr (srv1\<lparr>ts_heap := (ts_heap srv1)[i := tun]\<rparr>)))"

definition device_turn ::
  "nat \<Rightarrow> (('ip, 'q) TunDevice \<Rightarrow> ('ip, 'q) TunDevice exec) \<Rightarrow> ('c, 'ip, 'q) TunaServer \<Rightarrow>
   ('c, 'ip, 'q) TunaServer exec" where
  "device_turn i f srv =
     ebind (f (ts_heap srv ! i)) (\<lambda>tun. Inr (srv\<lparr>ts_heap := (ts_heap srv)[i := tun]\<rparr>))"

section \<open>What the parts of a handler keep\<close>

definition td_threads :: "('ip, 'q) TunDevice \<Rightarrow> thread option list" where
  "td_threads tun = [td_fromTunThread tun, td_toTunThread tun, td_recvThread tun, td_statThread tun]"

lemma start_keeps:
  assumes "start asCommands os tun = Inr (ok, tun')"
  shows "td_fromTun tun' = td_fromTun tun" "td_toTun tun' = td_toTun tun"
    "td_recvThread tun' = td_recvThread tun" "td_statThread tun' = td_statThread tun"
    "ok \<Longrightarrow> td_fromTunThread tun' = Some Joinable \<and> td_toTunThread tun' = Some Joinable"
  using assms
  by (auto simp: start_def startEcho_def startOnTun_def Let_def ebind_eq_Inr new_thread_Inr
      split: if_splits prod.splits option.splits)

lemma set_threads:
  assumes "setStatThread tun = Inr tun'" "setRecvThread tun' = Inr tun''"
  shows "tun'' = tun\<lparr>td_statThread := Some Joinable, td_recvThread := Some Joinable\<rparr>"
  using assms by (auto simp: setStatThread_def setRecvThread_def ebind_eq_Inr new_thread_Inr)

lemma TunDevice_asJson_keeps:
  assumes "TunDevice_asJson J P th clock val tun = Inr (v, tun')"
  shows "tun' = tun\<lparr>td_seq := td_seq tun + 1,
          td_fromTun := snd (statistic_report (clock 0) (clock 1) (td_fromTun tun)),
          td_toTun := snd (statistic_report (clock 2) (clock 3) (td_toTun tun))\<rparr>"
  using assms by (auto simp: TunDevice_asJson_def Let_def split_beta ebind_eq_Inr)

lemma statistic_report_keeps:
  assumes "pq_inv R pq"
  shows "pq_inv R (snd (statistic_report now now' pq))"
    "pq_queue R (snd (statistic_report now now' pq)) = pq_queue R pq"
    "pq_pb (snd (statistic_report now now' pq)) = pq_pb pq"
    "pq_blockWait (snd (statistic_report now now' pq)) = pq_blockWait pq"
  using getStatistic_inv [OF assms, of now]
  by (simp_all add: statistic_report_def getStatistic_def split_beta)

text \<open>What a report changes in a device.\<close>

definition reported :: "'q ring_api \<Rightarrow> ('ip, 'q) TunDevice \<Rightarrow> ('ip, 'q) TunDevice \<Rightarrow> bool" where
  "reported R tun tun' \<longleftrightarrow> dev_ok R tun' \<and> td_threads tun' = td_threads tun \<and>
     td_running tun' = td_running tun \<and> td_seq tun' = td_seq tun + 1 \<and>
     td_tunFd tun' = td_tunFd tun \<and> td_ifAddrs tun' = td_ifAddrs tun \<and>
     pq_queue R (td_fromTun tun') = pq_queue R (td_fromTun tun) \<and>
     pq_queue R (td_toTun tun') = pq_queue R (td_toTun tun) \<and>
     pq_pb (td_fromTun tun') = pq_pb (td_fromTun tun) \<and> pq_pb (td_toTun tun') = pq_pb (td_toTun tun) \<and>
     pq_blockWait (td_fromTun tun') = pq_blockWait (td_fromTun tun) \<and>
     pq_blockWait (td_toTun tun') = pq_blockWait (td_toTun tun)"

lemma sendTun_keeps:
  assumes "sendTun L ev msg tun c srv = Inr (tun', srv')" "dev_ok (pf_ring L) tun"
  shows "reported (pf_ring L) tun tun'"
    "\<exists>bs. srv' = srv\<lparr>ts_sent := ts_sent srv @ [(c, ''JSON'' @ bs, None)]\<rparr>"
proof -
  from assms(1) obtain v out where j: "TunDevice_asJson (pf_json L) (pf_ip L) (ev_time ev) (ev_clock ev)
      (j_null (pf_json L)) tun = Inr (v, tun')"
    and s: "srv' = srv\<lparr>ts_sent := ts_sent srv @ [(c, ''JSON'' @ j_write (pf_json L) out, None)]\<rparr>"
    by (auto simp: sendTun_def MessageRef_asJson_def ebind_eq_Inr)
  show "reported (pf_ring L) tun tun'"
    using statistic_report_keeps [where R = "pf_ring L" and pq = "td_fromTun tun"]
      statistic_report_keeps [where R = "pf_ring L" and pq = "td_toTun tun"] assms(2)
    unfolding TunDevice_asJson_keeps [OF j]
    by (simp add: reported_def dev_ok_def td_threads_def)
  show "\<exists>bs. srv' = srv\<lparr>ts_sent := ts_sent srv @ [(c, ''JSON'' @ bs, None)]\<rparr>" using s by blast
qed

lemma copy_out_contract: "push_contract copy_out_action"
  unfolding push_contract_def
proof (intro allI impI)
  fix p m e ret m' e'
  assume "copy_out_action p m e = Inr (ret, m', e')"
  then obtain bs where c: "copyOut e (maxSize p) = (ret, bs, e')"
    and w: "mem_write m (unat (buf p)) bs = Inr m'"
    by (auto simp: copy_out_action_def ebind_eq_Inr split: prod.splits)
  have ret: "ret = min (maxSize p) (wp_packetLen e)" "length bs \<le> unat ret"
    using c by (auto simp: copyOut_def sgetn_def Let_def)
  then have "unat ret \<le> unat (maxSize p)" by (simp add: min_def word_le_nat_alt)
  then show "length m' = length m \<and>
      (\<forall>k < length m. k < unat (buf p) \<or> unat (buf p) + unat (maxSize p) \<le> k \<longrightarrow> m' ! k = m ! k) \<and>
      (0 < sint ret \<longrightarrow> unat ret \<le> unat (maxSize p))"
    using mem_write_length [OF w] mem_write_nth [OF w] ret(2) by auto
qed

lemma recv_contract: "pop_contract (recv_action c)"
  by (auto simp: pop_contract_def recv_action_def ebind_eq_Inr)

section \<open>Invariant\<close>

text \<open>
  Every device is well formed, every connection in the map has a device of its own, and
  the four threads of such a device are there to be joined.
\<close>

definition srv_ok :: "'q ring_api \<Rightarrow> ('c, 'ip, 'q) TunaServer \<Rightarrow> bool" where
  "srv_ok R srv \<longleftrightarrow>
     (\<forall>tun \<in> set (ts_heap srv). dev_ok R tun) \<and>
     (\<forall>c i. ts_tunDevices srv c = Some i \<longrightarrow> i < length (ts_heap srv) \<and>
        td_threads (ts_heap srv ! i) = replicate 4 (Some Joinable)) \<and>
     (\<forall>c c' i. ts_tunDevices srv c = Some i \<longrightarrow> ts_tunDevices srv c' = Some i \<longrightarrow> c = c')"

lemma srv_ok_heap:
  assumes "srv_ok R srv" "i < length (ts_heap srv)" "dev_ok R tun"
    "td_threads tun = td_threads (ts_heap srv ! i)"
  shows "srv_ok R (srv\<lparr>ts_heap := (ts_heap srv)[i := tun]\<rparr>)"
    "srv_ok R (srv\<lparr>ts_heap := (ts_heap srv)[i := tun], ts_sent := xs\<rparr>)"
  using assms by (auto simp: srv_ok_def nth_update_if dest!: set_update_subset_insert [THEN subsetD])

lemma srv_ok_dev: "srv_ok R srv \<Longrightarrow> i < length (ts_heap srv) \<Longrightarrow> dev_ok R (ts_heap srv ! i)"
  by (auto simp: srv_ok_def)

lemma srv_ok_sent: "srv_ok R (srv\<lparr>ts_sent := xs\<rparr>) \<longleftrightarrow> srv_ok R srv"
  by (simp add: srv_ok_def)

lemma srv_ok_insert:
  assumes "srv_ok R srv" "dev_ok R tun" "td_threads tun = replicate 4 (Some Joinable)"
  shows "srv_ok R (srv\<lparr>ts_tunDevices := (if c \<in> dom (ts_tunDevices srv) then ts_tunDevices srv
      else (ts_tunDevices srv)(c \<mapsto> length (ts_heap srv))),
    ts_sent := xs, ts_heap := ts_heap srv @ [tun]\<rparr>)"
proof (cases "c \<in> dom (ts_tunDevices srv)")
  case True
  then show ?thesis using assms by (auto simp: srv_ok_def nth_append intro: less_SucI)
next
  case False
  have "i < length (ts_heap srv)" if "ts_tunDevices srv c' = Some i" for c' i
    using assms(1) that by (auto simp: srv_ok_def)
  then show ?thesis
    using False assms by (auto simp: srv_ok_def nth_append intro: less_SucI split: if_splits)
qed

text \<open>The two threads always start, so the branches that stop the device again are not reached.\<close>

lemma actionInit_eq:
  "actionInit L ev data connection srv =
     ebind (IfAddrs_fromJson (pf_json L) (pf_ip L) data IfAddrs_new) (\<lambda>(ok, ifAddrs).
       if \<not> ok then Inr srv else
       let tun = TunDevice_new (pf_ring L) (ev_raw ev) (ev_raw' ev) (ev_now ev) ifAddrs
             (ucast (tt_mtu (ts_tunaTor srv))) (ucast (tt_qSize (ts_tunaTor srv)))
       in ebind (start (pf_asCommands L) (ev_os ev) tun) (\<lambda>(started, tun1).
         if \<not> started then
           ebind (sendTun L ev ''init-res'' tun1 connection srv) (\<lambda>(_, srv1). Inr srv1)
         else
           ebind (setStatThread tun1) (\<lambda>tun2.
           ebind (setRecvThread tun2) (\<lambda>tun3.
             let i = length (ts_heap srv);
                 srv1 = srv\<lparr>ts_tunDevices := (if connection \<in> dom (ts_tunDevices srv)
                                               then ts_tunDevices srv
                                               else (ts_tunDevices srv)(connection \<mapsto> i))\<rparr>
             in ebind (sendTun L ev ''init-res'' tun3 connection srv1) (\<lambda>(tun4, srv2).
                  Inr (srv2\<lparr>ts_heap := ts_heap srv2 @ [tun4]\<rparr>))))))"
  unfolding actionInit_def startStatThread_def startRecvThread_def TunaTor_getMtu_def TunaTor_getQsize_def
    ebind_assoc ebind_Inr prod.case not_True_eq_False if_False ..

text \<open>
  What \<open>actionInit\<close> does, in cases: nothing, a report of a device that could not be
  started, or a new device.
\<close>

lemma actionInit_cases:
  assumes st: "actionInit L ev data c srv = Inr srv'"
  obtains (bad) "srv' = srv"
  | (failed) ia tun1 tun2 where
      "IfAddrs_fromJson (pf_json L) (pf_ip L) data IfAddrs_new = Inr (True, ia)"
      "start (pf_asCommands L) (ev_os ev) (TunDevice_new (pf_ring L) (ev_raw ev) (ev_raw' ev)
         (ev_now ev) ia (ucast (tt_mtu (ts_tunaTor srv))) (ucast (tt_qSize (ts_tunaTor srv))))
       = Inr (False, tun1)"
      "sendTun L ev ''init-res'' tun1 c srv = Inr (tun2, srv')"
  | (started) ia tun1 tun2 tun3 tun4 srv2 where
      "IfAddrs_fromJson (pf_json L) (pf_ip L) data IfAddrs_new = Inr (True, ia)"
      "start (pf_asCommands L) (ev_os ev) (TunDevice_new (pf_ring L) (ev_raw ev) (ev_raw' ev)
         (ev_now ev) ia (ucast (tt_mtu (ts_tunaTor srv))) (ucast (tt_qSize (ts_tunaTor srv))))
       = Inr (True, tun1)"
      "setStatThread tun1 = Inr tun2" "setRecvThread tun2 = Inr tun3"
      "sendTun L ev ''init-res'' tun3 c (srv\<lparr>ts_tunDevices := (if c \<in> dom (ts_tunDevices srv)
         then ts_tunDevices srv else (ts_tunDevices srv)(c \<mapsto> length (ts_heap srv)))\<rparr>) = Inr (tun4, srv2)"
      "srv' = srv2\<lparr>ts_heap := ts_heap srv2 @ [tun4]\<rparr>"
proof -
  from st obtain good ia where j: "IfAddrs_fromJson (pf_json L) (pf_ip L) data IfAddrs_new = Inr (good, ia)"
    unfolding actionInit_eq ebind_eq_Inr by (auto split del: if_split)
  show thesis
  proof (cases good)
    case False
    with st j show thesis by (intro bad) (simp add: actionInit_eq)
  next
    case True
    let ?tun = "TunDevice_new (pf_ring L) (ev_raw ev) (ev_raw' ev) (ev_now ev) ia
             (ucast (tt_mtu (ts_tunaTor srv))) (ucast (tt_qSize (ts_tunaTor srv)))"
    from st j True obtain started tun1 where s: "start (pf_asCommands L) (ev_os ev) ?tun = Inr (started, tun1)"
      by (auto simp: actionInit_eq ebind_eq_Inr Let_def split del: if_split)
    show thesis
    proof (cases started)
      case False
      with st j s True obtain tun2 where "sendTun L ev ''init-res'' tun1 c srv = Inr (tun2, srv')"
        by (auto simp: actionInit_eq ebind_eq_Inr Let_def split del: if_split)
      with failed [of ia tun1 tun2] j s True False show thesis by simp
    next
      case started: True
      with st j s True obtain tun2 tun3 tun4 srv2 where
        "setStatThread tun1 = Inr tun2" "setRecvThread tun2 = Inr tun3"
        "sendTun L ev ''init-res'' tun3 c (srv\<lparr>ts_tunDevices := (if c \<in> dom (ts_tunDevices srv)
         then ts_tunDevices srv else (ts_tunDevices srv)(c \<mapsto> length (ts_heap srv)))\<rparr>) = Inr (tun4, srv2)"
        "srv' = srv2\<lparr>ts_heap := ts_heap srv2 @ [tun4]\<rparr>"
        by (simp add: actionInit_eq ebind_eq_Inr Let_def split del: if_split) (elim exE conjE, simp split del: if_split)
      with that(3) [of ia tun1 tun2 tun3 tun4 srv2] j s True started show thesis by simp
    qed
  qed
qed

lemma actionInit_ok:
  assumes R: "ring_laws (pf_ring L)" and ok: "srv_ok (pf_ring L) srv"
    and st: "actionInit L ev data c srv = Inr srv'"
  shows "srv_ok (pf_ring L) srv'"
  using st
proof (cases rule: actionInit_cases)
  case bad
  then show ?thesis using ok by simp
next
  case (failed ia tun1 tun2)
  have "dev_ok (pf_ring L) tun1"
    using dev_ok_new [OF R] start_keeps(1,2) [OF failed(2)] by (simp add: dev_ok_def)
  from sendTun_keeps(2) [OF failed(3) this] ok show ?thesis by (auto simp: srv_ok_sent)
next
  case (started ia tun1 tun2 tun3 tun4 srv2)
  note k = start_keeps [OF started(2)]
  have t3: "tun3 = tun1\<lparr>td_statThread := Some Joinable, td_recvThread := Some Joinable\<rparr>"
    by (rule set_threads [OF started(3,4)])
  have d3: "dev_ok (pf_ring L) tun3" using dev_ok_new [OF R] k(1,2) by (simp add: dev_ok_def t3)
  have "td_threads tun3 = replicate 4 (Some Joinable)"
    using k(5) by (simp add: td_threads_def t3 eval_nat_numeral)
  with sendTun_keeps(1) [OF started(5) d3] have d4: "dev_ok (pf_ring L) tun4"
    "td_threads tun4 = replicate 4 (Some Joinable)"
    by (auto simp: reported_def)
  from sendTun_keeps(2) [OF started(5) d3] started(6) srv_ok_insert [OF ok d4]
  show ?thesis by (auto simp del: replicate.simps split del: if_split)
qed

lemma processPacket_cases:
  assumes "processPacket R script i packet srv = Inr srv'"
  obtains r toTun' p' where
    "push R copy_out_action script (td_toTun (ts_heap srv ! i)) packet = Inr (r, toTun', p')"
    "srv' = srv\<lparr>ts_heap := (ts_heap srv)[i := (ts_heap srv ! i)\<lparr>td_toTun := toTun'\<rparr>]\<rparr>"
  using assms by (auto simp: processPacket_def Let_def ebind_eq_Inr)

lemma processPacket_ok:
  assumes R: "ring_laws R" and ok: "srv_ok R srv" and i: "i < length (ts_heap srv)"
    and s: "sleeps_ok R script" and st: "processPacket R script i packet srv = Inr srv'"
  shows "srv_ok R srv'"
proof -
  let ?tun = "ts_heap srv ! i"
  from st obtain r toTun' p' where
    p: "push R copy_out_action script (td_toTun ?tun) packet = Inr (r, toTun', p')"
    and srv': "srv' = srv\<lparr>ts_heap := (ts_heap srv)[i := ?tun\<lparr>td_toTun := toTun'\<rparr>]\<rparr>"
    by (rule processPacket_cases)
  have d: "dev_ok R ?tun" by (rule srv_ok_dev [OF ok i])
  then have "pq_inv R (td_toTun ?tun)" by (simp add: dev_ok_def)
  from push_loop_result [OF R copy_out_contract this s] p
  have "push_result R copy_out_action packet (pq_queue R (td_toTun ?tun)) (pb_mtu (pq_pb (td_toTun ?tun)))
      (r, toTun', p')"
    unfolding push_def by blast
  then have "dev_ok R (?tun\<lparr>td_toTun := toTun'\<rparr>)" using d by (simp add: push_result_def dev_ok_def)
  then show ?thesis unfolding srv' by (rule srv_ok_heap(1) [OF ok i]) (simp add: td_threads_def)
qed

text \<open>The dispatch of \<open>processJson\<close> as a value that does not unfold.\<close>

lemma processJson_eq:
  assumes "j_parse (pf_json L) (drop (ms_pos (wp_message packet)) (ms_data (wp_message packet))) = Some json"
    "j_at (pf_json L) json ''action'' = Inr ja" "j_asString (pf_json L) ja = Inr t"
    "ev_freed ev (c_string t) = name"
  shows "processJson L ev c packet srv =
    (if HashStringToInt name = 120597236
     then ebind (j_at (pf_json L) json ''data'') (\<lambda>data. actionInit L ev data c srv)
     else if HashStringToInt name = 107254436
     then ebind (j_at (pf_json L) json ''data'') (\<lambda>data. actionPong L data srv)
     else Inr srv)"
  unfolding processJson_def assms Let_def option.case ebind_Inr option_hashes ..

lemma processJson_cases:
  assumes "processJson L ev c packet srv = Inr srv'"
  obtains (same) "srv' = srv" | (init) data where "actionInit L ev data c srv = Inr srv'"
proof (cases "j_parse (pf_json L) (drop (ms_pos (wp_message packet)) (ms_data (wp_message packet)))")
  case None
  with assms same show thesis by (simp add: processJson_def)
next
  case (Some json)
  obtain ja where ja: "j_at (pf_json L) json ''action'' = Inr ja"
    using assms by (cases "j_at (pf_json L) json ''action''") (simp_all add: processJson_def Some)
  obtain t where t: "j_asString (pf_json L) ja = Inr t"
    using assms by (cases "j_asString (pf_json L) ja") (simp_all add: processJson_def Some ja)
  define h where "h = HashStringToInt (ev_freed ev (c_string t))"
  have e: "(if h = 120597236 then ebind (j_at (pf_json L) json ''data'') (\<lambda>data. actionInit L ev data c srv)
     else if h = 107254436 then ebind (j_at (pf_json L) json ''data'') (\<lambda>data. actionPong L data srv)
     else Inr srv) = Inr srv'"
    using assms unfolding processJson_eq [OF Some ja t refl] h_def .
  show thesis
  proof (cases "h = 120597236")
    case True
    then show thesis using e init by (cases "j_at (pf_json L) json ''data''") simp_all
  next
    case False
    then have "srv' = srv"
      using e by (cases "h = 107254436") (auto simp: actionPong_def ebind_eq_Inr)
    then show thesis by (rule same)
  qed
qed

lemma onmessage_cases:
  assumes "onmessage L ev script c msg srv = Inr srv'"
  obtains (same) "srv' = srv" | (init) data where "actionInit L ev data c srv = Inr srv'"
  | (packet) i where "ts_tunDevices srv c = Some i"
      "processPacket (pf_ring L) script i (WsPacket_from msg) srv = Inr srv'"
proof (cases "wp_header (WsPacket_from msg) = ''JSON''")
  case True
  with assms have "processJson L ev c (WsPacket_from msg) srv = Inr srv'"
    by (simp add: onmessage_def Let_def)
  from processJson_cases [OF this] show thesis using same init by metis
next
  case json: False
  show thesis
  proof (cases "ts_tunDevices srv c")
    case None
    with assms json same show thesis by (simp add: onmessage_def Let_def)
  next
    case (Some i)
    with assms json same packet show thesis
      by (cases "wp_header (WsPacket_from msg) = ''PAKT''") (simp_all add: onmessage_def Let_def)
  qed
qed

lemma onmessage_ok:
  assumes R: "ring_laws (pf_ring L)" and ok: "srv_ok (pf_ring L) srv"
    and s: "sleeps_ok (pf_ring L) script" and st: "onmessage L ev script c msg srv = Inr srv'"
  shows "srv_ok (pf_ring L) srv'"
  using st
proof (cases rule: onmessage_cases)
  case same
  then show ?thesis using ok by simp
next
  case (init data)
  then show ?thesis by (rule actionInit_ok [OF R ok])
next
  case (packet i)
  then have "i < length (ts_heap srv)" using ok by (auto simp: srv_ok_def)
  then show ?thesis by (rule processPacket_ok [OF R ok _ s packet(2)])
qed

text \<open>\<open>disconnect\<close> on a well-formed server: the state it leaves.\<close>

definition stopped :: "('ip, 'q) TunDevice \<Rightarrow> ('ip, 'q) TunDevice" where
  "stopped tun = tun\<lparr>td_running := False, td_fromTunThread := Some Joined,
     td_toTunThread := Some Joined, td_recvThread := Some Joined, td_statThread := Some Joined\<rparr>"

lemma stop_threads:
  assumes "td_threads tun = replicate 4 (Some Joinable)"
  shows "stop tun = Inr (stopped tun, if 0 \<le> td_tunFd tun then [td_tunFd tun] else [])"
  using assms
  by (auto simp: td_threads_def stop_def join_def join_thread_def stopped_def eval_nat_numeral)

lemma disconnect_eq:
  assumes "srv_ok R srv" "ts_tunDevices srv c = Some i"
  shows "disconnect c srv = Inr (srv\<lparr>ts_heap := (ts_heap srv)[i := stopped (ts_heap srv ! i)],
      ts_tunDevices := (ts_tunDevices srv)(c := None)\<rparr>,
    if 0 \<le> td_tunFd (ts_heap srv ! i) then [td_tunFd (ts_heap srv ! i)] else [])"
proof -
  have "td_threads (ts_heap srv ! i) = replicate 4 (Some Joinable)"
    using assms by (auto simp: srv_ok_def)
  from stop_threads [OF this] show ?thesis by (simp add: disconnect_def assms(2))
qed

lemma disconnect_ok:
  assumes ok: "srv_ok R srv" and st: "disconnect c srv = Inr (srv', closed)"
  shows "srv_ok R srv'"
proof (cases "ts_tunDevices srv c")
  case None
  then show ?thesis using ok st by (simp add: disconnect_def)
next
  case (Some i)
  have i: "i < length (ts_heap srv)" using ok Some by (auto simp: srv_ok_def)
  have d: "dev_ok R (stopped (ts_heap srv ! i))"
    using srv_ok_dev [OF ok i] by (simp add: dev_ok_def stopped_def)
  have srv': "srv' = srv\<lparr>ts_heap := (ts_heap srv)[i := stopped (ts_heap srv ! i)],
      ts_tunDevices := (ts_tunDevices srv)(c := None)\<rparr>"
    using disconnect_eq [OF ok Some] st by simp
  have h: "dev_ok R tun" if "tun \<in> set ((ts_heap srv)[i := stopped (ts_heap srv ! i)])" for tun
    using set_update_subset_insert [THEN subsetD, OF that] d ok by (auto simp: srv_ok_def)
  have m: "j < length (ts_heap srv) \<and>
      td_threads ((ts_heap srv)[i := stopped (ts_heap srv ! i)] ! j) = replicate 4 (Some Joinable)"
    if "c' \<noteq> c" "ts_tunDevices srv c' = Some j" for c' j
  proof -
    have "j \<noteq> i" using ok that Some unfolding srv_ok_def by blast
    then show ?thesis using ok that by (auto simp: srv_ok_def)
  qed
  have inj: "c1 = c2" if "ts_tunDevices srv c1 = Some j" "ts_tunDevices srv c2 = Some j" for c1 c2 j
    using ok that unfolding srv_ok_def by blast
  show ?thesis
    unfolding srv' srv_ok_def
    using h m inj by (simp del: replicate.simps)
qed

lemma recv_turn_ok:
  assumes R: "ring_laws R" and ok: "srv_ok R srv" and i: "i < length (ts_heap srv)"
    and w: "waits_ok R waits" and st: "recv_turn R waits i c srv = Inr srv'"
  shows "srv_ok R srv'"
proof -
  let ?tun = "ts_heap srv ! i"
  from st obtain r fromTun' sent' where
    p: "pop_loop R (recv_action c) waits (td_fromTun ?tun) (ts_sent srv) = Inr (r, fromTun', sent')"
    and srv': "srv' = srv\<lparr>ts_heap := (ts_heap srv)[i := ?tun\<lparr>td_fromTun := fromTun'\<rparr>], ts_sent := sent'\<rparr>"
    by (auto simp: recv_turn_def Let_def ebind_eq_Inr pop_def)
  have d: "dev_ok R ?tun" by (rule srv_ok_dev [OF ok i])
  then have "pq_inv R (td_fromTun ?tun)" by (simp add: dev_ok_def)
  from pop_loop_result [OF R recv_contract this w p]
  have "dev_ok R (?tun\<lparr>td_fromTun := fromTun'\<rparr>)" using d by (simp add: pop_result_def dev_ok_def)
  then show ?thesis unfolding srv' by (rule srv_ok_heap(2) [OF ok i]) (simp add: td_threads_def)
qed

lemma stat_turn_ok:
  assumes ok: "srv_ok (pf_ring L) srv" and i: "i < length (ts_heap srv)"
    and st: "stat_turn L ev i c srv = Inr srv'"
  shows "srv_ok (pf_ring L) srv'"
proof (cases "td_running (ts_heap srv ! i)")
  case False
  then show ?thesis using ok st by (simp add: stat_turn_def)
next
  case True
  with st obtain tun srv1 where s: "sendTun L ev ''stat-res'' (ts_heap srv ! i) c srv = Inr (tun, srv1)"
    and srv': "srv' = srv1\<lparr>ts_heap := (ts_heap srv1)[i := tun]\<rparr>"
    by (auto simp: stat_turn_def ebind_eq_Inr)
  note k = sendTun_keeps [OF s srv_ok_dev [OF ok i]]
  from k(2) obtain xs where "srv1 = srv\<lparr>ts_sent := xs\<rparr>" by blast
  then have e: "srv' = srv\<lparr>ts_sent := xs\<rparr>\<lparr>ts_heap := (ts_heap (srv\<lparr>ts_sent := xs\<rparr>))[i := tun]\<rparr>"
    using srv' by simp
  have ok': "srv_ok (pf_ring L) (srv\<lparr>ts_sent := xs\<rparr>)" using ok by (simp add: srv_ok_sent)
  show ?thesis unfolding e
    by (rule srv_ok_heap(1) [OF ok']) (use i k(1) in \<open>simp_all add: reported_def\<close>)
qed

lemma device_turn_ok:
  assumes ok: "srv_ok R srv" and i: "i < length (ts_heap srv)"
    and f: "\<And>tun'. f (ts_heap srv ! i) = Inr tun' \<Longrightarrow>
      dev_ok R tun' \<and> td_threads tun' = td_threads (ts_heap srv ! i)"
    and st: "device_turn i f srv = Inr srv'"
  shows "srv_ok R srv'"
proof -
  from st obtain tun' where "f (ts_heap srv ! i) = Inr tun'"
    "srv' = srv\<lparr>ts_heap := (ts_heap srv)[i := tun']\<rparr>"
    by (auto simp: device_turn_def ebind_eq_Inr)
  then show ?thesis using f srv_ok_heap(1) [OF ok i] by blast
qed

lemma step_threads:
  "echo_step R script waits tun = Inr tun' \<Longrightarrow> td_threads tun' = td_threads tun"
  "from_tun_step R evs script tun = Inr tun' \<Longrightarrow> td_threads tun' = td_threads tun"
  "to_tun_step R th ret waits tun = Inr (tun', out) \<Longrightarrow> td_threads tun' = td_threads tun"
  by (auto simp: echo_step_def from_tun_step_def to_tun_step_def td_threads_def ebind_eq_Inr)

section \<open>The server as a state machine\<close>

text \<open>
  One step: a whole handler, or one turn of a thread of a device, with anything the system
  and the other side of a queue may do meanwhile.
\<close>

inductive srv_step ::
  "('j, 'ip, 'q) platform \<Rightarrow> ('c, 'ip, 'q) TunaServer \<Rightarrow> ('c, 'ip, 'q) TunaServer \<Rightarrow> bool"
  for L where
  message: "sleeps_ok (pf_ring L) script \<Longrightarrow> onmessage L ev script c msg srv = Inr srv' \<Longrightarrow>
    srv_step L srv srv'"
| close: "disconnect c srv = Inr (srv', closed) \<Longrightarrow> srv_step L srv srv'"
| recv: "i < length (ts_heap srv) \<Longrightarrow> waits_ok (pf_ring L) waits \<Longrightarrow>
    recv_turn (pf_ring L) waits i c srv = Inr srv' \<Longrightarrow> srv_step L srv srv'"
| stat: "i < length (ts_heap srv) \<Longrightarrow> stat_turn L ev i c srv = Inr srv' \<Longrightarrow> srv_step L srv srv'"
| echo: "i < length (ts_heap srv) \<Longrightarrow> sleeps_ok (pf_ring L) script \<Longrightarrow> waits_ok (pf_ring L) waits \<Longrightarrow>
    device_turn i (echo_step (pf_ring L) script waits) srv = Inr srv' \<Longrightarrow> srv_step L srv srv'"
| from_tun: "i < length (ts_heap srv) \<Longrightarrow> sleeps_ok (pf_ring L) script \<Longrightarrow>
    device_turn i (from_tun_step (pf_ring L) evs script) srv = Inr srv' \<Longrightarrow> srv_step L srv srv'"
| to_tun: "i < length (ts_heap srv) \<Longrightarrow> waits_ok (pf_ring L) waits \<Longrightarrow>
    device_turn i (\<lambda>tun. ebind (to_tun_step (pf_ring L) th ret waits tun) (\<lambda>(tun', _). Inr tun')) srv
    = Inr srv' \<Longrightarrow> srv_step L srv srv'"

inductive server_reach ::
  "('j, 'ip, 'q) platform \<Rightarrow> TunaTor \<Rightarrow> ('c, 'ip, 'q) TunaServer \<Rightarrow> bool"
  for L t where
  new: "server_reach L t (TunaServer_new t)"
| step: "server_reach L t srv \<Longrightarrow> srv_step L srv srv' \<Longrightarrow> server_reach L t srv'"

lemma srv_step_ok:
  assumes R: "ring_laws (pf_ring L)" and st: "srv_step L srv srv'" and ok: "srv_ok (pf_ring L) srv"
  shows "srv_ok (pf_ring L) srv'"
  using st
proof cases
  case message
  then show ?thesis using onmessage_ok [OF R ok] by blast
next
  case close
  then show ?thesis using disconnect_ok [OF ok] by blast
next
  case recv
  then show ?thesis using recv_turn_ok [OF R ok] by blast
next
  case stat
  then show ?thesis using stat_turn_ok [OF ok] by blast
next
  case (echo i script waits)
  have "dev_ok (pf_ring L) tun' \<and> td_threads tun' = td_threads (ts_heap srv ! i)"
    if "echo_step (pf_ring L) script waits (ts_heap srv ! i) = Inr tun'" for tun'
    using echo_step_ok [OF R srv_ok_dev [OF ok echo(1)] echo(2,3) that] step_threads(1) [OF that] ..
  from device_turn_ok [OF ok echo(1) this echo(4)] show ?thesis .
next
  case (from_tun i script evs)
  have "dev_ok (pf_ring L) tun' \<and> td_threads tun' = td_threads (ts_heap srv ! i)"
    if "from_tun_step (pf_ring L) evs script (ts_heap srv ! i) = Inr tun'" for tun'
    using from_tun_step_ok [OF R srv_ok_dev [OF ok from_tun(1)] from_tun(2) that] step_threads(2) [OF that] ..
  from device_turn_ok [OF ok from_tun(1) this from_tun(3)] show ?thesis .
next
  case (to_tun i waits th ret)
  have "dev_ok (pf_ring L) tun' \<and> td_threads tun' = td_threads (ts_heap srv ! i)"
    if e: "ebind (to_tun_step (pf_ring L) th ret waits (ts_heap srv ! i)) (\<lambda>(tun', _). Inr tun') = Inr tun'"
    for tun'
  proof -
    from e obtain out where "to_tun_step (pf_ring L) th ret waits (ts_heap srv ! i) = Inr (tun', out)"
      by (auto simp: ebind_eq_Inr)
    then show ?thesis
      using to_tun_step_ok [OF R srv_ok_dev [OF ok to_tun(1)] to_tun(2)] step_threads(3) by blast
  qed
  from device_turn_ok [OF ok to_tun(1) this to_tun(3)] show ?thesis .
qed

text \<open>So whatever the library calls leads to reachable states.\<close>

lemma ws_call_step:
  assumes "ws_call L e c srv = Inr (srv', fds)" "\<And>ev script m. e = OnMessage ev script m \<Longrightarrow> sleeps_ok (pf_ring L) script"
  shows "srv' = srv \<or> srv_step L srv srv'"
  using assms by (cases e) (auto simp: ebind_eq_Inr intro: srv_step.message srv_step.close)

lemma serve_reach:
  assumes "server_reach L t srv" "serve L es srv = Inr (srv', fds)"
    "\<And>c ev script m. (c, OnMessage ev script m) \<in> set es \<Longrightarrow> sleeps_ok (pf_ring L) script"
  shows "server_reach L t srv'"
  using assms
proof (induction L es srv arbitrary: srv' fds rule: serve.induct)
  case (2 L connection e es srv)
  from 2(3) obtain srv1 fds1 fds2 where w: "ws_call L e connection srv = Inr (srv1, fds1)"
    "serve L es srv1 = Inr (srv', fds2)"
    by (auto simp: ebind_eq_Inr)
  have "srv1 = srv \<or> srv_step L srv srv1"
    by (rule ws_call_step [OF w(1)]) (use 2(4) in auto)
  then have "server_reach L t srv1" using 2(2) by (auto intro: server_reach.step)
  then show ?case by (rule 2(1) [OF w(1) refl _ w(2)]) (use 2(4) in auto)
qed simp

lemma srv_ok_new: "srv_ok R (TunaServer_new t)"
  by (simp add: srv_ok_def TunaServer_new_def)

lemma server_reach_ok:
  assumes "server_reach L t srv" "ring_laws (pf_ring L)"
  shows "srv_ok (pf_ring L) srv"
  using assms(1) by (induction rule: server_reach.induct) (auto intro: srv_ok_new srv_step_ok [OF assms(2)])

inductive_cases srv_stepE: "srv_step L srv srv'"

text \<open>No step changes the options the server was started with.\<close>

lemma sendTun_options:
  "sendTun L ev msg tun c srv = Inr (tun', srv') \<Longrightarrow>
     ts_tunaTor srv' = ts_tunaTor srv \<and> ts_heap srv' = ts_heap srv"
  by (auto simp: sendTun_def ebind_eq_Inr split: prod.splits)

lemma actionInit_options:
  "actionInit L ev data c srv = Inr srv' \<Longrightarrow> ts_tunaTor srv' = ts_tunaTor srv"
  by (auto simp: actionInit_eq ebind_eq_Inr Let_def split: if_splits prod.splits dest!: sendTun_options)

lemma onmessage_options:
  "onmessage L ev script c msg srv = Inr srv' \<Longrightarrow> ts_tunaTor srv' = ts_tunaTor srv"
  by (auto simp: onmessage_def processJson_def processPacket_def actionPong_def ebind_eq_Inr Let_def
      split: if_splits prod.splits option.splits dest!: actionInit_options simp del: HashStringToInt.simps)

lemma srv_step_options:
  assumes "srv_step L srv srv'"
  shows "ts_tunaTor srv' = ts_tunaTor srv"
  using assms
  by (elim srv_stepE)
    (auto simp: onmessage_options disconnect_def recv_turn_def stat_turn_def device_turn_def
      ebind_eq_Inr Let_def split: option.splits prod.splits if_splits dest!: sendTun_options)

lemma server_options: "server_reach L t srv \<Longrightarrow> ts_tunaTor srv = t"
  by (induction rule: server_reach.induct) (auto simp: TunaServer_new_def srv_step_options)

section \<open>Handlers that succeed\<close>

lemma sendTun_ok:
  assumes J: "json_laws (pf_json L)"
  shows "\<exists>tun' bs. sendTun L ev msg tun c srv =
    Inr (tun', srv\<lparr>ts_sent := ts_sent srv @ [(c, ''JSON'' @ bs, None)]\<rparr>)"
proof -
  let ?J = "pf_json L"
  obtain v1 where v1: "j_put ?J (j_null ?J) ''action'' (j_str ?J msg) = Inr v1" "j_obj ?J v1"
    using j_put_obj [OF J j_null_obj(1) [OF J]] by blast
  obtain v tun' where v: "TunDevice_asJson ?J (pf_ip L) (ev_time ev) (ev_clock ev) (j_null ?J) tun = Inr (v, tun')"
    using TunDevice_asJson_parts [OF J] by blast
  obtain v2 where v2: "j_put ?J v1 ''data'' v = Inr v2" using j_put_obj [OF J v1(2)] by blast
  show ?thesis
    by (intro exI [of _ tun'] exI [of _ "j_write ?J v2"])
      (simp add: sendTun_def MessageRef_asJson_def v1(1) v v2)
qed

text \<open>A new device of the server, as the client is told about it.\<close>

definition new_device ::
  "'q ring_api \<Rightarrow> 16 word \<Rightarrow> 16 word \<Rightarrow> 'ip IfAddrs \<Rightarrow> ('ip, 'q) TunDevice \<Rightarrow> bool" where
  "new_device R mtu qSize ia tun \<longleftrightarrow> dev_ok R tun \<and> td_running tun \<and>
     td_threads tun = replicate 4 (Some Joinable) \<and> td_ifAddrs tun = ia \<and>
     pq_queue R (td_fromTun tun) = [] \<and> pq_queue R (td_toTun tun) = [] \<and>
     capacity (pq_pb (td_fromTun tun)) = unat qSize \<and> capacity (pq_pb (td_toTun tun)) = unat qSize \<and>
     pb_mtu (pq_pb (td_fromTun tun)) = ucast mtu \<and> pb_mtu (pq_pb (td_toTun tun)) = ucast mtu \<and>
     pq_blockWait (td_fromTun tun) = 100 \<and> pq_blockWait (td_toTun tun) = 100"

lemma new_device_reported:
  "new_device R mtu qSize ia tun \<Longrightarrow> reported R tun tun' \<Longrightarrow> new_device R mtu qSize ia tun'"
  by (simp add: new_device_def reported_def)

text \<open>The object \<open>actionInit\<close> makes, and \<open>start\<close> on it in echo mode and in tun mode.\<close>

definition init_device :: "'q ring_api \<Rightarrow> server_env \<Rightarrow> TunaTor \<Rightarrow> 'ip IfAddrs \<Rightarrow> ('ip, 'q) TunDevice" where
  "init_device R ev t ia =
     TunDevice_new R (ev_raw ev) (ev_raw' ev) (ev_now ev) ia (ucast (tt_mtu t)) (ucast (tt_qSize t))"

lemma start_init_echo:
  assumes "isEcho ia" "ia_mtu ia \<le> ucast (tt_mtu t)"
  shows "start asCommands os (init_device R ev t ia) = Inr (True, (init_device R ev t ia)
    \<lparr>td_running := True, td_tunDevName := ''echo'', td_fromTunThread := Some Joinable,
     td_toTunThread := Some Joinable\<rparr>)"
  using assms
  by (simp add: start_def startEcho_def init_device_def TunDevice_new_def isEcho_def pb_getMtu_def
      getPacketBuffer_def new_thread_def Let_def not_less)

definition tun_starts ::
  "('ip IfAddrs \<Rightarrow> string \<Rightarrow> SystemCmd list) \<Rightarrow> tun_os \<Rightarrow> 'ip IfAddrs \<Rightarrow> int \<Rightarrow> string \<Rightarrow> bool" where
  "tun_starts asCommands os ia fd dev \<longleftrightarrow>
     (\<exists>opened. to_alloc os [] = (fd, dev, opened)) \<and> 0 \<le> fd \<and>
     run_commands (to_junk os) (to_runs os) (asCommands ia dev) = Inr () \<and>
     (\<exists>flags. to_getfl os = Some flags \<and> to_setfl os (set_nonblock flags))"

lemma start_init_tun:
  assumes "\<not> isEcho ia" "ia_mtu ia \<le> ucast (tt_mtu t)" "tun_starts asCommands os ia fd dev"
  shows "start asCommands os (init_device R ev t ia) = Inr (True, (init_device R ev t ia)
    \<lparr>td_running := True, td_tunDevName := dev, td_tunFd := fd, td_fromTunThread := Some Joinable,
     td_toTunThread := Some Joinable\<rparr>)"
  using assms
  by (auto simp: start_def startOnTun_def tun_starts_def init_device_def TunDevice_new_def isEcho_def
      pb_getMtu_def getPacketBuffer_def new_thread_def Let_def not_less)

text \<open>\<open>actionInit\<close> with a description whose device starts: the device, the map and the answer.\<close>

lemma actionInit_new:
  assumes R: "ring_laws (pf_ring L)" and J: "json_laws (pf_json L)"
    and ia: "IfAddrs_fromJson (pf_json L) (pf_ip L) data IfAddrs_new = Inr (True, ia)"
    and st: "start (pf_asCommands L) (ev_os ev) (init_device (pf_ring L) ev (ts_tunaTor srv) ia) =
      Inr (True, (init_device (pf_ring L) ev (ts_tunaTor srv) ia)\<lparr>td_running := True, td_tunDevName := dev,
        td_tunFd := fd, td_fromTunThread := Some Joinable, td_toTunThread := Some Joinable\<rparr>)"
  shows "\<exists>tun bs. new_device (pf_ring L) (tt_mtu (ts_tunaTor srv)) (tt_qSize (ts_tunaTor srv)) ia tun \<and>
    td_tunFd tun = fd \<and>
    actionInit L ev data c srv = Inr (srv\<lparr>ts_tunDevices := (if c \<in> dom (ts_tunDevices srv)
        then ts_tunDevices srv else (ts_tunDevices srv)(c \<mapsto> length (ts_heap srv))),
      ts_heap := ts_heap srv @ [tun], ts_sent := ts_sent srv @ [(c, ''JSON'' @ bs, None)]\<rparr>)"
proof -
  let ?R = "pf_ring L" and ?tun = "init_device (pf_ring L) ev (ts_tunaTor srv) ia"
  let ?t1 = "?tun\<lparr>td_running := True, td_tunDevName := dev, td_tunFd := fd,
    td_fromTunThread := Some Joinable, td_toTunThread := Some Joinable\<rparr>"
  let ?t3 = "?t1\<lparr>td_statThread := Some Joinable, td_recvThread := Some Joinable\<rparr>"
  let ?s1 = "srv\<lparr>ts_tunDevices := (if c \<in> dom (ts_tunDevices srv) then ts_tunDevices srv
        else (ts_tunDevices srv)(c \<mapsto> length (ts_heap srv)))\<rparr>"
  have th: "setStatThread ?t1 = Inr (?t1\<lparr>td_statThread := Some Joinable\<rparr>)"
    "setRecvThread (?t1\<lparr>td_statThread := Some Joinable\<rparr>) = Inr ?t3"
    by (simp_all add: setStatThread_def setRecvThread_def init_device_def TunDevice_new_def new_thread_def)
  have "\<exists>tun4 bs. sendTun L ev ''init-res'' ?t3 c ?s1 =
      Inr (tun4, ?s1\<lparr>ts_sent := ts_sent ?s1 @ [(c, ''JSON'' @ bs, None)]\<rparr>)"
    by (rule sendTun_ok [OF J])
  then obtain tun4 bs where s: "sendTun L ev ''init-res'' ?t3 c ?s1 =
      Inr (tun4, ?s1\<lparr>ts_sent := ts_sent ?s1 @ [(c, ''JSON'' @ bs, None)]\<rparr>)"
    by blast
  have e3: "new_device ?R (tt_mtu (ts_tunaTor srv)) (tt_qSize (ts_tunaTor srv)) ia ?t3"
    using pq_inv_new16 [OF R] ring_new(1) [OF R]
    by (simp add: new_device_def dev_ok_def td_threads_def init_device_def TunDevice_new_def pq_queue_def
        capacity_def eval_nat_numeral)
  then have "dev_ok ?R ?t3" by (simp add: new_device_def)
  note k = sendTun_keeps(1) [OF s this]
  have "td_tunFd tun4 = fd" using k by (simp add: reported_def)
  moreover have "actionInit L ev data c srv = Inr (srv\<lparr>ts_tunDevices := (if c \<in> dom (ts_tunDevices srv)
        then ts_tunDevices srv else (ts_tunDevices srv)(c \<mapsto> length (ts_heap srv))),
      ts_heap := ts_heap srv @ [tun4], ts_sent := ts_sent srv @ [(c, ''JSON'' @ bs, None)]\<rparr>)"
    unfolding actionInit_eq ia ebind_Inr prod.case Let_def st [unfolded init_device_def]
      th [unfolded init_device_def] s [unfolded init_device_def] by simp
  ultimately show ?thesis using new_device_reported [OF e3 k] by blast
qed

lemma actionInit_echo:
  assumes R: "ring_laws (pf_ring L)" and J: "json_laws (pf_json L)"
    and ia: "IfAddrs_fromJson (pf_json L) (pf_ip L) data IfAddrs_new = Inr (True, ia)" "isEcho ia"
      "ia_mtu ia \<le> ucast (tt_mtu (ts_tunaTor srv))"
  shows "\<exists>tun bs. new_device (pf_ring L) (tt_mtu (ts_tunaTor srv)) (tt_qSize (ts_tunaTor srv)) ia tun \<and>
    actionInit L ev data c srv = Inr (srv\<lparr>ts_tunDevices := (if c \<in> dom (ts_tunDevices srv)
        then ts_tunDevices srv else (ts_tunDevices srv)(c \<mapsto> length (ts_heap srv))),
      ts_heap := ts_heap srv @ [tun], ts_sent := ts_sent srv @ [(c, ''JSON'' @ bs, None)]\<rparr>)"
proof -
  let ?tun = "init_device (pf_ring L) ev (ts_tunaTor srv) ia"
  have "start (pf_asCommands L) (ev_os ev) ?tun = Inr (True, ?tun\<lparr>td_running := True,
      td_tunDevName := ''echo'', td_tunFd := td_tunFd ?tun, td_fromTunThread := Some Joinable,
      td_toTunThread := Some Joinable\<rparr>)"
    unfolding start_init_echo [OF ia(2,3)] by simp
  from actionInit_new [OF R J ia(1) this, of c] show ?thesis by blast
qed

lemma onmessage_json:
  assumes "length bs + 4 < 2 ^ 64"
  shows "onmessage L ev script c \<lparr>ms_data = ''JSON'' @ bs, ms_pos = 0\<rparr> srv =
    processJson L ev c \<lparr>wp_message = \<lparr>ms_data = ''JSON'' @ bs, ms_pos = 4\<rparr>, wp_header = ''JSON'',
      wp_headerLen = 4, wp_packetLen = of_nat (length bs)\<rparr> srv"
proof -
  have "WsPacket_from \<lparr>ms_data = ''JSON'' @ bs, ms_pos = 0\<rparr> =
    \<lparr>wp_message = \<lparr>ms_data = ''JSON'' @ bs, ms_pos = 4\<rparr>, wp_header = ''JSON'', wp_headerLen = 4,
     wp_packetLen = of_nat (length bs)\<rparr>"
    by (rule from_header) (use assms in simp_all)
  then show ?thesis unfolding onmessage_def Let_def by simp
qed

text \<open>
  A message with an action: its text parses to an object whose members are these. The last
  part says that the memory the code reads the action from still holds it.
\<close>

definition action_message ::
  "('j, 'ip, 'q) platform \<Rightarrow> server_env \<Rightarrow> string \<Rightarrow> string \<Rightarrow> 'j \<Rightarrow> bool" where
  "action_message L ev bs action data \<longleftrightarrow> length bs + 4 < 2 ^ 64 \<and>
     (\<exists>json ja t. j_parse (pf_json L) bs = Some json \<and>
        j_at (pf_json L) json ''action'' = Inr ja \<and> j_asString (pf_json L) ja = Inr t \<and>
        ev_freed ev (c_string t) = action \<and> j_at (pf_json L) json ''data'' = Inr data)"

lemma onmessage_init:
  assumes "action_message L ev bs ''init'' data"
  shows "onmessage L ev script c \<lparr>ms_data = ''JSON'' @ bs, ms_pos = 0\<rparr> srv = actionInit L ev data c srv"
proof -
  from assms obtain json ja t where m: "length bs + 4 < 2 ^ 64" "j_parse (pf_json L) bs = Some json"
    "j_at (pf_json L) json ''action'' = Inr ja" "j_asString (pf_json L) ja = Inr t"
    "ev_freed ev (c_string t) = ''init''" "j_at (pf_json L) json ''data'' = Inr data"
    by (auto simp: action_message_def)
  let ?p = "\<lparr>wp_message = \<lparr>ms_data = ''JSON'' @ bs, ms_pos = 4\<rparr>, wp_header = ''JSON'',
      wp_headerLen = 4, wp_packetLen = of_nat (length bs)\<rparr>"
  have "j_parse (pf_json L) (drop (ms_pos (wp_message ?p)) (ms_data (wp_message ?p))) = Some json"
    using m(2) by simp
  from processJson_eq [OF this m(3,4,5)] show ?thesis
    unfolding onmessage_json [OF m(1)] by (simp add: option_hashes m(6) del: HashStringToInt.simps)
qed

text \<open>A packet message for a connection with a device, and a turn of its recv thread.\<close>

definition pakt :: "nat \<Rightarrow> bytes \<Rightarrow> WsPacket" where
  "pakt k bs = \<lparr>wp_message = \<lparr>ms_data = ''PAKT'' @ bs, ms_pos = 4 + k\<rparr>, wp_header = ''PAKT'',
     wp_headerLen = 4, wp_packetLen = of_nat (length bs)\<rparr>"

lemma onmessage_pakt:
  assumes "ts_tunDevices srv c = Some i" "length bs < 2 ^ 63"
  shows "onmessage L ev script c \<lparr>ms_data = ''PAKT'' @ bs, ms_pos = 0\<rparr> srv =
    ebind (push (pf_ring L) copy_out_action script (td_toTun (ts_heap srv ! i)) (pakt 0 bs))
      (\<lambda>(_, to', _). Inr (srv\<lparr>ts_heap := (ts_heap srv)[i := (ts_heap srv ! i)\<lparr>td_toTun := to'\<rparr>]\<rparr>))"
proof -
  have f: "WsPacket_from \<lparr>ms_data = ''PAKT'' @ bs, ms_pos = 0\<rparr> = pakt 0 bs"
    unfolding pakt_def by (subst from_header) (use assms(2) in simp_all)
  have "wp_header (pakt 0 bs) = ''PAKT''" by (simp add: pakt_def)
  then show ?thesis unfolding onmessage_def f Let_def assms(1) processPacket_def by simp
qed

lemma copy_out_store:
  assumes "length bs < 2 ^ 63" "unat (maxSize p) = n"
  shows "copy_out_action p m (pakt 0 bs) = mem_store (take n bs) p m (pakt (length (take n bs)) bs)"
proof -
  have u: "unat (of_nat (length bs) :: size_t) = length bs" using assms(1) by (simp add: unat_of_nat)
  have "min (maxSize p) (of_nat (length bs)) = (of_nat (min n (length bs)) :: size_t)"
    using u unfolding assms(2) [symmetric] by (simp add: min_def word_le_nat_alt)
  moreover have "unat (of_nat (min n (length bs)) :: size_t) = min n (length bs)"
    using assms(1) by (simp add: unat_of_nat min_def)
  moreover have t: "take (min (length bs) n) bs = take n bs" by (simp add: min_def)
  ultimately have "copyOut (pakt 0 bs) (maxSize p) =
      (of_nat (min n (length bs)), take n bs, pakt (length (take n bs)) bs)"
    using t by (simp add: copyOut_def sgetn_def pakt_def Let_def min.commute [of n])
  then show ?thesis by (simp add: copy_out_action_def mem_store_def min.commute)
qed

lemma onmessage_packet:
  assumes R: "ring_laws (pf_ring L)" and d: "dev_ok (pf_ring L) (ts_heap srv ! i)"
    and i: "ts_tunDevices srv c = Some i" "i < length (ts_heap srv)"
    and bs: "bs \<noteq> []" "length bs < 2 ^ 63"
    and q: "length (pq_queue (pf_ring L) (td_toTun (ts_heap srv ! i))) < capacity (pq_pb (td_toTun (ts_heap srv ! i)))"
      "0 < pq_blockWait (td_toTun (ts_heap srv ! i))" "0 < unat (pb_mtu (pq_pb (td_toTun (ts_heap srv ! i))))"
  shows "\<exists>to'. onmessage L ev script c \<lparr>ms_data = ''PAKT'' @ bs, ms_pos = 0\<rparr> srv =
      Inr (srv\<lparr>ts_heap := (ts_heap srv)[i := (ts_heap srv ! i)\<lparr>td_toTun := to'\<rparr>]\<rparr>) \<and>
    pq_inv (pf_ring L) to' \<and> pb_mtu (pq_pb to') = pb_mtu (pq_pb (td_toTun (ts_heap srv ! i))) \<and>
    pq_queue (pf_ring L) to' = pq_queue (pf_ring L) (td_toTun (ts_heap srv ! i)) @
      [take (unat (pb_mtu (pq_pb (td_toTun (ts_heap srv ! i))))) bs]"
proof -
  let ?to = "td_toTun (ts_heap srv ! i)"
  let ?bs = "take (unat (pb_mtu (pq_pb ?to))) bs"
  let ?p' = "pakt (length ?bs) bs"
  have inv: "pq_inv (pf_ring L) ?to" using d by (simp add: dev_ok_def)
  have "\<exists>to'. push (pf_ring L) copy_out_action script ?to (pakt 0 bs) = Inr (True, to', ?p') \<and>
      pq_inv (pf_ring L) to' \<and> pq_queue (pf_ring L) to' = pq_queue (pf_ring L) ?to @ [?bs] \<and>
      pb_mtu (pq_pb to') = pb_mtu (pq_pb ?to)"
    by (rule push_store [OF R inv q(2,1)]) (use bs q(3) copy_out_store [OF bs(2)] in auto)
  then obtain to' where "push (pf_ring L) copy_out_action script ?to (pakt 0 bs) = Inr (True, to', ?p')"
    "pq_inv (pf_ring L) to'" "pq_queue (pf_ring L) to' = pq_queue (pf_ring L) ?to @ [?bs]"
    "pb_mtu (pq_pb to') = pb_mtu (pq_pb ?to)"
    by blast
  then show ?thesis unfolding onmessage_pakt [OF i(1) bs(2)] by (intro exI [of _ to']) simp
qed

lemma recv_turn_head:
  assumes R: "ring_laws R" and d: "dev_ok R (ts_heap srv ! i)" and i: "i < length (ts_heap srv)"
    and q: "pq_queue R (td_fromTun (ts_heap srv ! i)) = bs # rest"
  shows "\<exists>from'. recv_turn R waits i c srv = Inr (srv\<lparr>
      ts_heap := (ts_heap srv)[i := (ts_heap srv ! i)\<lparr>td_fromTun := from'\<rparr>],
      ts_sent := ts_sent srv @ [(c, ''PAKT'' @ bs, Some 130)]\<rparr>) \<and>
    pq_inv R from' \<and> pq_queue R from' = rest \<and>
    pb_mtu (pq_pb from') = pb_mtu (pq_pb (td_fromTun (ts_heap srv ! i)))"
proof -
  have inv: "pq_inv R (td_fromTun (ts_heap srv ! i))" using d by (simp add: dev_ok_def)
  have "\<exists>from'. pop R (recv_action c) waits (td_fromTun (ts_heap srv ! i)) (ts_sent srv) =
      Inr (True, from', ts_sent srv @ [(c, ''PAKT'' @ bs, Some 130)]) \<and> pq_inv R from' \<and>
      pq_queue R from' = rest \<and> pb_mtu (pq_pb from') = pb_mtu (pq_pb (td_fromTun (ts_heap srv ! i)))"
    by (rule pop_head [OF R inv q, where ret = 1]) (simp add: recv_action_def)
  then obtain from' where f: "pop R (recv_action c) waits (td_fromTun (ts_heap srv ! i)) (ts_sent srv) =
      Inr (True, from', ts_sent srv @ [(c, ''PAKT'' @ bs, Some 130)])" "pq_inv R from'"
      "pq_queue R from' = rest" "pb_mtu (pq_pb from') = pb_mtu (pq_pb (td_fromTun (ts_heap srv ! i)))"
    by blast
  then show ?thesis by (intro exI [of _ from']) (simp add: recv_turn_def Let_def)
qed

text \<open>No handler for a connection touches the device of another one.\<close>

lemma actionInit_isolated:
  assumes R: "ring_laws (pf_ring L)" and st: "actionInit L ev data c srv = Inr srv'"
  shows "\<exists>tuns fs. ts_heap srv' = ts_heap srv @ tuns \<and> ts_sent srv' = ts_sent srv @ fs \<and>
    (\<forall>f \<in> set fs. fst f = c) \<and> (\<forall>c'. c' \<noteq> c \<longrightarrow> ts_tunDevices srv' c' = ts_tunDevices srv c')"
  using st
proof (cases rule: actionInit_cases)
  case bad
  then show ?thesis by simp
next
  case (failed ia tun1 tun2)
  have "dev_ok (pf_ring L) tun1"
    using dev_ok_new [OF R] start_keeps(1,2) [OF failed(2)] by (simp add: dev_ok_def)
  from sendTun_keeps(2) [OF failed(3) this] show ?thesis by auto
next
  case (started ia tun1 tun2 tun3 tun4 srv2)
  have "dev_ok (pf_ring L) tun3"
    using dev_ok_new [OF R] start_keeps(1,2) [OF started(2)] set_threads [OF started(3,4)]
    by (simp add: dev_ok_def)
  from sendTun_keeps(2) [OF started(5) this] started(6) show ?thesis by auto
qed

section \<open>An example\<close>

text \<open>
  The platform of the closed examples: the JSON instance whose reader knows one text,
  an \<open>init\<close> message without addresses, IPv4 addresses, the list ring, and Linux commands.
\<close>

definition init_json :: "jval \<Rightarrow> jval" where
  "init_json data = JObj [(''action'', JStr ''init''), (''data'', data)]"

definition demo :: "(string \<Rightarrow> jval option) \<Rightarrow> (jval, v4, nat \<times> nat list) platform" where
  "demo parse = \<lparr>pf_json = jv_api parse, pf_ip = v4_api, pf_ring = list_ring,
     pf_asCommands = linux_asCommands v4_api\<rparr>"

definition demo_env :: server_env where
  "demo_env = \<lparr>ev_now = 0, ev_raw = (\<lambda>_. CHR 0x00), ev_raw' = (\<lambda>_. CHR 0x00), ev_time = ''now'',
     ev_clock = int, ev_os = no_tun, ev_freed = (\<lambda>s. s)\<rparr>"

lemma demo_laws: "ring_laws (pf_ring (demo parse))" "json_laws (pf_json (demo parse))"
  "ip_laws (pf_ip (demo parse))"
  by (simp_all add: demo_def list_ring_laws jv_api_laws v4_laws)

lemma demo_init:
  defines "L \<equiv> demo (\<lambda>_. Some (init_json JNull))"
  shows "action_message L demo_env ''x'' ''init'' JNull"
    "IfAddrs_fromJson (pf_json L) (pf_ip L) JNull IfAddrs_new = Inr (True, IfAddrs_new)"
    "if_ok (pf_ip L) IfAddrs_new" "isEcho IfAddrs_new" "ia_mtu IfAddrs_new = 1360"
proof -
  show "action_message L demo_env ''x'' ''init'' JNull"
    by (simp add: action_message_def L_def demo_def demo_env_def jv_api_def init_json_def jv_at_def
        c_string_def)
  show "IfAddrs_fromJson (pf_json L) (pf_ip L) JNull IfAddrs_new = Inr (True, IfAddrs_new)"
    by (simp add: IfAddrs_fromJson_def L_def demo_def jv_api_def jv_at_def jv_get_def IfAddrs_new_def
        setMtu_def Let_def)
qed (simp_all add: IfAddrs_new_def isEcho_def if_ok_def)

text \<open>A server with one connected echo device.\<close>

lemma demo_server:
  fixes c :: 'c
  defines "L \<equiv> demo (\<lambda>_. Some (init_json JNull))"
  shows "\<exists>srv tun. server_reach L TunaTor_new srv \<and> ts_tunDevices srv = [c \<mapsto> 0] \<and>
    ts_heap srv = [tun] \<and> new_device list_ring 1500 64 IfAddrs_new tun \<and> ts_tunaTor srv = TunaTor_new"
proof -
  let ?new = "TunaServer_new TunaTor_new :: ('c, v4, nat \<times> nat list) TunaServer"
  have mtu: "ia_mtu IfAddrs_new \<le> ucast (tt_mtu (ts_tunaTor ?new))"
    by (simp add: TunaServer_new_def TunaTor_new_def demo_init(5))
  obtain tun bs where t: "new_device (pf_ring L) (tt_mtu (ts_tunaTor ?new)) (tt_qSize (ts_tunaTor ?new)) IfAddrs_new tun"
    "actionInit L demo_env JNull c ?new = Inr (?new\<lparr>ts_tunDevices := (if c \<in> dom (ts_tunDevices ?new)
        then ts_tunDevices ?new else (ts_tunDevices ?new)(c \<mapsto> length (ts_heap ?new))),
      ts_heap := ts_heap ?new @ [tun], ts_sent := ts_sent ?new @ [(c, ''JSON'' @ bs, None)]\<rparr>)"
    using actionInit_echo [OF demo_laws(1,2) demo_init(2,4) mtu] unfolding L_def by blast
  let ?srv = "?new\<lparr>ts_tunDevices := [c \<mapsto> 0], ts_heap := [tun], ts_sent := [(c, ''JSON'' @ bs, None)]\<rparr>"
  have "onmessage L demo_env [] c \<lparr>ms_data = ''JSON'' @ ''x'', ms_pos = 0\<rparr> ?new = Inr ?srv"
    using t(2) unfolding L_def onmessage_init [OF demo_init(1)] by (simp add: TunaServer_new_def)
  then have "srv_step L ?new ?srv" by (intro srv_step.message) (simp_all add: sleeps_ok_def)
  then have "server_reach L TunaTor_new ?srv" by (blast intro: server_reach.intros)
  then show ?thesis
    using t(1) by (intro exI [of _ ?srv] exI [of _ tun])
      (simp add: L_def demo_def TunaServer_new_def TunaTor_new_def)
qed

section \<open>Properties\<close>

text \<open>C14: the server's invariant. After any sequence of messages, disconnects and turns of the
  threads, with any answers of the system, both queues of every device are well formed, and
  each connection in the map has a device of its own whose four threads are running or can
  still be joined.\<close>
theorem server_keeps_devices:
  assumes "ring_laws (pf_ring L)" "server_reach L t srv"
  shows "(tun \<in> set (ts_heap srv) \<longrightarrow>
      pq_inv (pf_ring L) (td_fromTun tun) \<and> pq_inv (pf_ring L) (td_toTun tun)) \<and>
    (ts_tunDevices srv c = Some i \<longrightarrow> i < length (ts_heap srv) \<and>
      td_fromTunThread (ts_heap srv ! i) = Some Joinable \<and> td_toTunThread (ts_heap srv ! i) = Some Joinable \<and>
      td_recvThread (ts_heap srv ! i) = Some Joinable \<and> td_statThread (ts_heap srv ! i) = Some Joinable) \<and>
    (ts_tunDevices srv c = Some i \<and> ts_tunDevices srv c' = Some i \<longrightarrow> c = c')"
proof -
  note ok = server_reach_ok [OF assms(2,1)]
  have c1: "tun \<in> set (ts_heap srv) \<Longrightarrow>
      pq_inv (pf_ring L) (td_fromTun tun) \<and> pq_inv (pf_ring L) (td_toTun tun)"
    using ok by (auto simp: srv_ok_def dev_ok_def)
  have c2: "ts_tunDevices srv c = Some i \<Longrightarrow> ts_tunDevices srv c' = Some i \<Longrightarrow> c = c'"
    using ok unfolding srv_ok_def by blast
  have c3: "i < length (ts_heap srv) \<and>
      td_fromTunThread (ts_heap srv ! i) = Some Joinable \<and> td_toTunThread (ts_heap srv ! i) = Some Joinable \<and>
      td_recvThread (ts_heap srv ! i) = Some Joinable \<and> td_statThread (ts_heap srv ! i) = Some Joinable"
    if "ts_tunDevices srv c = Some i"
  proof -
    have "i < length (ts_heap srv) \<and> td_threads (ts_heap srv ! i) = replicate 4 (Some Joinable)"
      using ok that unfolding srv_ok_def by blast
    then show ?thesis by (simp add: td_threads_def eval_nat_numeral)
  qed
  show ?thesis using c1 c2 c3 by blast
qed

theorem server_keeps_devices_witness:
  "\<exists>srv :: (nat, v4, nat \<times> nat list) TunaServer. ts_tunDevices srv 7 = Some 0 \<and>
     td_recvThread (ts_heap srv ! 0) = Some Joinable"
proof -
  let ?L = "demo (\<lambda>_. Some (init_json JNull))"
  obtain srv :: "(nat, v4, nat \<times> nat list) TunaServer" where
    s: "server_reach ?L TunaTor_new srv" "ts_tunDevices srv = [7 \<mapsto> 0]"
    using demo_server [of 7] by blast
  from server_keeps_devices [OF demo_laws(1) s(1), where c = 7 and i = 0] s(2) show ?thesis
    by (intro exI [of _ srv]) simp
qed

text \<open>C16: \<open>disconnect\<close> always returns and ends exactly one device. In every reachable state it
  stops the connection's device, joins its four threads, closes its descriptor if it has
  one, and removes the connection from the map; all other connections and devices are as
  before, and a second \<open>disconnect\<close>, as when \<open>onerror\<close> is followed by \<open>onclose\<close>, does
  nothing.\<close>
theorem disconnect_total:
  assumes "ring_laws (pf_ring L)" "server_reach L t srv"
  shows "\<exists>srv' closed. disconnect c srv = Inr (srv', closed) \<and>
    ts_tunDevices srv' = (ts_tunDevices srv)(c := None) \<and> ts_sent srv' = ts_sent srv \<and>
    disconnect c srv' = Inr (srv', []) \<and>
    (\<forall>i. if ts_tunDevices srv c = Some i
         then \<not> td_running (ts_heap srv' ! i) \<and> td_recvThread (ts_heap srv' ! i) = Some Joined \<and>
              closed = (if 0 \<le> td_tunFd (ts_heap srv ! i) then [td_tunFd (ts_heap srv ! i)] else [])
         else ts_heap srv' ! i = ts_heap srv ! i)"
proof -
  note ok = server_reach_ok [OF assms(2,1)]
  show ?thesis
  proof (cases "ts_tunDevices srv c")
    case None
    then show ?thesis
      by (intro exI [of _ srv] exI [of _ "[]"]) (simp add: disconnect_def fun_upd_idem)
  next
    case (Some i)
    then have i: "i < length (ts_heap srv)" using ok by (auto simp: srv_ok_def)
    from disconnect_eq [OF ok Some] i Some show ?thesis
      by (auto simp: disconnect_def stopped_def)
  qed
qed

theorem disconnect_total_witness:
  "\<exists>srv srv' :: (nat, v4, nat \<times> nat list) TunaServer. \<exists>closed.
     ts_tunDevices srv 7 = Some 0 \<and> disconnect 7 srv = Inr (srv', closed) \<and> ts_tunDevices srv' 7 = None"
proof -
  let ?L = "demo (\<lambda>_. Some (init_json JNull))"
  obtain srv :: "(nat, v4, nat \<times> nat list) TunaServer" where
    s: "server_reach ?L TunaTor_new srv" "ts_tunDevices srv = [7 \<mapsto> 0]"
    using demo_server [of 7] by blast
  from disconnect_total [OF demo_laws(1) s(1), of 7] obtain srv' closed where
    "disconnect 7 srv = Inr (srv', closed)" "ts_tunDevices srv' = (ts_tunDevices srv)(7 := None)"
    by blast
  then show ?thesis using s(2) by (intro exI [of _ srv] exI [of _ srv'] exI [of _ closed]) simp
qed



text \<open>C38: what the server ignores. A message shorter than its header, one whose header is neither
  \<open>JSON\<close> nor \<open>PAKT\<close>, a packet from a client without a device, a JSON text that does not
  parse and one with an unknown action leave the whole server as it was.\<close>
theorem message_ignored:
  assumes "length bs + 4 < 2 ^ 64"
  shows "(length data < 4 \<longrightarrow>
      onmessage L ev script c \<lparr>ms_data = data, ms_pos = 0\<rparr> srv = Inr srv) \<and>
    (length hdr = 4 \<and> CHR 0x00 \<notin> set hdr \<and> hdr \<noteq> ''JSON'' \<and> hdr \<noteq> ''PAKT'' \<longrightarrow>
      onmessage L ev script c \<lparr>ms_data = hdr @ bs, ms_pos = 0\<rparr> srv = Inr srv) \<and>
    (ts_tunDevices srv c = None \<longrightarrow>
      onmessage L ev script c \<lparr>ms_data = ''PAKT'' @ bs, ms_pos = 0\<rparr> srv = Inr srv) \<and>
    (j_parse (pf_json L) bs = None \<longrightarrow>
      onmessage L ev script c \<lparr>ms_data = ''JSON'' @ bs, ms_pos = 0\<rparr> srv = Inr srv) \<and>
    (action_message L ev bs action data' \<and>
      HashStringToInt action \<notin> {HashStringToInt ''init'', HashStringToInt ''pong''} \<longrightarrow>
      onmessage L ev script c \<lparr>ms_data = ''JSON'' @ bs, ms_pos = 0\<rparr> srv = Inr srv)"
proof -
  have c1: "length data < 4 \<Longrightarrow> onmessage L ev script c \<lparr>ms_data = data, ms_pos = 0\<rparr> srv = Inr srv"
    unfolding onmessage_def Let_def by (auto simp: from_short split: option.splits)
  have h: "wp_header (WsPacket_from \<lparr>ms_data = h @ bs, ms_pos = 0\<rparr>) = h"
    if "length h = 4" "CHR 0x00 \<notin> set h" for h
    using from_header [OF that] assms that(1) by simp
  have c2: "length hdr = 4 \<Longrightarrow> CHR 0x00 \<notin> set hdr \<Longrightarrow> hdr \<noteq> ''JSON'' \<Longrightarrow> hdr \<noteq> ''PAKT'' \<Longrightarrow>
      onmessage L ev script c \<lparr>ms_data = hdr @ bs, ms_pos = 0\<rparr> srv = Inr srv"
    unfolding onmessage_def Let_def by (simp add: h split: option.splits)
  have c3: "onmessage L ev script c \<lparr>ms_data = ''PAKT'' @ bs, ms_pos = 0\<rparr> srv = Inr srv"
    if "ts_tunDevices srv c = None"
    using h [of "''PAKT''"] that unfolding onmessage_def Let_def by simp
  have c4: "onmessage L ev script c \<lparr>ms_data = ''JSON'' @ bs, ms_pos = 0\<rparr> srv = Inr srv"
    if "j_parse (pf_json L) bs = None"
    unfolding onmessage_json [OF assms] processJson_def using that by simp
  have c5: "onmessage L ev script c \<lparr>ms_data = ''JSON'' @ bs, ms_pos = 0\<rparr> srv = Inr srv"
    if a: "action_message L ev bs action data'"
    "HashStringToInt action \<notin> {HashStringToInt ''init'', HashStringToInt ''pong''}"
  proof -
    from a(1) obtain json ja t where m: "j_parse (pf_json L) bs = Some json"
      "j_at (pf_json L) json ''action'' = Inr ja" "j_asString (pf_json L) ja = Inr t"
      "ev_freed ev (c_string t) = action"
      by (auto simp: action_message_def)
    let ?p = "\<lparr>wp_message = \<lparr>ms_data = ''JSON'' @ bs, ms_pos = 4\<rparr>, wp_header = ''JSON'',
        wp_headerLen = 4, wp_packetLen = of_nat (length bs)\<rparr>"
    have "j_parse (pf_json L) (drop (ms_pos (wp_message ?p)) (ms_data (wp_message ?p))) = Some json"
      using m(1) by simp
    from processJson_eq [OF this m(2-4)] a(2)
    show ?thesis
      unfolding onmessage_json [OF assms] by (simp add: option_hashes del: HashStringToInt.simps)
  qed
  show ?thesis using c1 c2 c3 c4 c5 by blast
qed

theorem message_ignored_witness:
  "onmessage (demo (\<lambda>_. None)) demo_env [] (7 :: nat) \<lparr>ms_data = ''PING'' @ ''x'', ms_pos = 0\<rparr>
     (TunaServer_new TunaTor_new) = Inr (TunaServer_new TunaTor_new)"
  by (rule message_ignored [THEN conjunct2, THEN conjunct1, THEN mp]) simp_all

text \<open>A JSON text that is not an object ends the handler with an exception. The reader is
  asked for any JSON value, and the member access on a number or a list throws, which the
  handler does not catch; nothing is changed before.\<close>
theorem json_not_object_throws:
  assumes "json_laws (pf_json L)" "length bs + 4 < 2 ^ 64"
    "j_parse (pf_json L) bs = Some v" "\<not> j_obj (pf_json L) v"
  shows "\<exists>e. onmessage L ev script c \<lparr>ms_data = ''JSON'' @ bs, ms_pos = 0\<rparr> srv = Inl (Throws e)"
proof -
  obtain e where "j_at (pf_json L) v ''action'' = Inl (Throws e)"
    using j_not_obj_throws(1) [OF assms(1,4)] by blast
  then show ?thesis
    unfolding onmessage_json [OF assms(2)] processJson_def using assms(3) by simp
qed

theorem json_not_object_throws_witness:
  "\<exists>e. onmessage (demo (\<lambda>_. Some (JArr []))) demo_env [] (7 :: nat) \<lparr>ms_data = ''JSON'' @ ''[]'', ms_pos = 0\<rparr>
     (TunaServer_new TunaTor_new) = Inl (Throws e)"
  by (rule json_not_object_throws [where v = "JArr []"]) (simp_all add: demo_def jv_api_laws, simp_all add: jv_api_def)

text \<open>C32: a second \<open>init\<close> on a connection leaks a device. The new echo device is started and
  reported to the client, but the map keeps the old one: no connection leads to the new
  device, and the disconnect of this connection ends the old one while the new one, with its
  four threads, goes on running.\<close>
theorem second_init_leaks:
  assumes laws: "ring_laws (pf_ring L)" "json_laws (pf_json L)"
    and s: "server_reach L t srv" "ts_tunDevices srv c = Some i"
    and m: "action_message L ev bs ''init'' data"
      "IfAddrs_fromJson (pf_json L) (pf_ip L) data IfAddrs_new = Inr (True, ia)" "isEcho ia"
      "ia_mtu ia \<le> ucast (tt_mtu (ts_tunaTor srv))"
  shows "\<exists>srv' srv'' closed. onmessage L ev script c \<lparr>ms_data = ''JSON'' @ bs, ms_pos = 0\<rparr> srv = Inr srv' \<and>
    length (ts_heap srv') = Suc (length (ts_heap srv)) \<and>
    ts_tunDevices srv' = ts_tunDevices srv \<and> length (ts_heap srv) \<notin> ran (ts_tunDevices srv') \<and>
    disconnect c srv' = Inr (srv'', closed) \<and> ts_tunDevices srv'' c = None \<and>
    td_running (ts_heap srv'' ! length (ts_heap srv)) \<and>
    td_threads (ts_heap srv'' ! length (ts_heap srv)) = replicate 4 (Some Joinable)"
proof -
  note ok = server_reach_ok [OF s(1) laws(1)]
  obtain tun fr where t: "new_device (pf_ring L) (tt_mtu (ts_tunaTor srv)) (tt_qSize (ts_tunaTor srv)) ia tun"
    and a: "actionInit L ev data c srv = Inr (srv\<lparr>ts_tunDevices := ts_tunDevices srv,
      ts_heap := ts_heap srv @ [tun], ts_sent := ts_sent srv @ [(c, ''JSON'' @ fr, None)]\<rparr>)"
    using actionInit_echo [OF laws m(2-4), of ev c] s(2) by (auto simp: dom_def)
  let ?srv' = "srv\<lparr>ts_tunDevices := ts_tunDevices srv,
      ts_heap := ts_heap srv @ [tun], ts_sent := ts_sent srv @ [(c, ''JSON'' @ fr, None)]\<rparr>"
  have i: "i < length (ts_heap srv)" "length (ts_heap srv) \<notin> ran (ts_tunDevices srv)"
    using ok s(2) by (auto simp: srv_ok_def ran_def)
  have "srv_ok (pf_ring L) ?srv'" by (rule actionInit_ok [OF laws(1) ok a])
  from disconnect_eq [OF this, of c i] s(2) obtain srv'' closed where
    d: "disconnect c ?srv' = Inr (srv'', closed)" "ts_tunDevices srv'' c = None"
      "ts_heap srv'' = (ts_heap srv @ [tun])[i := stopped (ts_heap srv ! i)]"
    using i(1) by (auto simp: nth_append)
  have o: "onmessage L ev script c \<lparr>ms_data = ''JSON'' @ bs, ms_pos = 0\<rparr> srv = Inr ?srv'"
    unfolding onmessage_init [OF m(1)] by (rule a)
  have "ts_heap srv'' ! length (ts_heap srv) = tun" using i(1) d(3) by simp
  then have "td_running (ts_heap srv'' ! length (ts_heap srv)) \<and>
      td_threads (ts_heap srv'' ! length (ts_heap srv)) = replicate 4 (Some Joinable)"
    using t by (simp add: new_device_def)
  with o i(2) d(1,2) show ?thesis
    by (intro exI [where x = ?srv'] exI [where x = closed] exI conjI) (assumption | simp)+
qed

theorem second_init_leaks_witness:
  "\<exists>(srv' :: (nat, v4, nat \<times> nat list) TunaServer) srv'' closed.
     disconnect 7 srv' = Inr (srv'', closed) \<and> td_running (ts_heap srv'' ! 1)"
proof -
  let ?L = "demo (\<lambda>_. Some (init_json JNull))"
  obtain srv :: "(nat, v4, nat \<times> nat list) TunaServer" and tun where
    s: "server_reach ?L TunaTor_new srv" "ts_tunDevices srv = [7 \<mapsto> 0]" "ts_heap srv = [tun]"
      "ts_tunaTor srv = TunaTor_new"
    using demo_server [of 7] by blast
  have c: "ts_tunDevices srv 7 = Some 0" using s(2) by simp
  have mtu: "ia_mtu IfAddrs_new \<le> ucast (tt_mtu (ts_tunaTor srv))"
    by (simp add: s(4) TunaTor_new_def demo_init(5))
  from second_init_leaks [OF demo_laws(1,2) s(1) c demo_init(1,2,4) mtu, of "[]"] s(3)
  obtain srv' :: "(nat, v4, nat \<times> nat list) TunaServer" and srv'' closed
    where "disconnect 7 srv' = Inr (srv'', closed)" "td_running (ts_heap srv'' ! 1)"
    by auto
  then show ?thesis by blast
qed

end
