(* ===== verification/Thread_Loops.thy ===== *)
theory Thread_Loops
  imports Tuna_Server
begin

text \<open>
  The loops of a device's threads. \<open>stop\<close> clears \<open>running\<close> and then joins the threads, so a
  thread that does not come back from its loop would block \<open>disconnect\<close> for ever. The turns
  of the loops are operations of \<open>Tun_Device\<close> and \<open>Tuna_Server\<close>; here they are put under
  their loop heads. The input of a loop lists its turns: what the other threads do to the
  state before the head looks at the flag, and what the system answers during the turn. A
  loop whose input ends while it is running is \<open>Blocked\<close>.
\<close>

section \<open>Loops\<close>

fun thread_while ::
  "('s \<Rightarrow> bool) \<Rightarrow> ('i \<Rightarrow> 's \<Rightarrow> 's exec) \<Rightarrow> (('s \<Rightarrow> 's) \<times> 'i) list \<Rightarrow> 's \<Rightarrow> 's exec" where
  "thread_while running step [] s = Inl Blocked"
| "thread_while running step ((others, i) # ins) s =
     (let s1 = others s in
      if running s1 then ebind (step i s1) (thread_while running step ins) else Inr s1)"

fun thread_do_while ::
  "('s \<Rightarrow> bool) \<Rightarrow> ('i \<Rightarrow> 's \<Rightarrow> 's exec) \<Rightarrow> (('s \<Rightarrow> 's) \<times> 'i) list \<Rightarrow> 's \<Rightarrow> 's exec" where
  "thread_do_while running step [] s = Inl Blocked"
| "thread_do_while running step ((others, i) # ins) s =
     ebind (step i (others s)) (\<lambda>s1.
       if running s1 then thread_do_while running step ins s1 else Inr s1)"

text \<open>
  The thread of \<open>startEcho\<close>, the two threads of \<open>startOnTun\<close>, and the two threads that the
  server starts for a device. The stat thread looks at the flag a second time after its
  sleep and returns when it is cleared.
\<close>

definition echo_loop where
  "echo_loop R = thread_while td_running (\<lambda>(script, waits). echo_step R script waits)"

definition from_tun_loop where
  "from_tun_loop R = thread_while td_running (\<lambda>(evs, script). from_tun_step R evs script)"

definition to_tun_loop where
  "to_tun_loop R tun_header = thread_while td_running
     (\<lambda>(ret, waits) tun. ebind (to_tun_step R tun_header ret waits tun) (\<lambda>(tun', _). Inr tun'))"

definition recv_loop where
  "recv_loop R i connection =
     thread_do_while (\<lambda>srv. td_running (ts_heap srv ! i)) (\<lambda>waits. recv_turn R waits i connection)"

definition stat_loop where
  "stat_loop L i connection = thread_while (\<lambda>srv. td_running (ts_heap srv ! i))
     (\<lambda>(others, ev) srv. stat_turn L ev i connection (others srv))"

section \<open>Calls that return\<close>

text \<open>
  A \<open>push\<close> whose closure is total on packets inside the pool either returns or runs out of
  sleeps, and so does a \<open>pop\<close> whose closure is total on what a packet holds.
\<close>

lemma push_packet_total:
  assumes "act (packets (pq_pb pq) ! i) (buffer (pq_pb pq)) e = Inr r"
  shows "\<exists>res. push_packet R act i pq e = Inr res"
  using assms by (cases r) (auto simp: push_packet_def Let_def split: prod.splits)

lemma pop_packet_total:
  assumes "act (packets (pq_pb pq) ! i) (buffer (pq_pb pq)) e = Inr r"
  shows "\<exists>res. pop_packet act i pq e = Inr res"
  using assms by (cases r) (auto simp: pop_packet_def Let_def)

lemma push_got_total:
  assumes act: "\<And>p m. unat (buf p) + unat (maxSize p) \<le> length m \<Longrightarrow> maxSize p = n \<Longrightarrow>
      \<exists>r. act p m e = Inr r"
    and inv: "pq_inv R pq" and n: "pb_mtu (pq_pb pq) = n" and al: "alloc (pq_pb pq) = (Some i, b)"
  shows "\<exists>res. push_packet R act i (pq\<lparr>pq_pb := b, pq_ps := s\<rparr>) e = Inr res"
proof -
  have wf: "wf_pb (pq_pb pq)" using inv by (simp add: pq_inv_def pq_slots_def)
  note g = pb_pool.get_Some [OF wf al]
  have sl: "unat (buf (packets b ! i)) + unat (maxSize (packets b ! i)) \<le> length (buffer b)"
    "maxSize (packets b ! i) = pb_mtu b"
    using g wf_pb_slot(1,3) [of b i] by simp_all
  have "pb_mtu b = n" using alloc_keeps [OF al] n by simp
  with act [OF sl(1)] sl(2) obtain r where "act (packets b ! i) (buffer b) e = Inr r" by auto
  then show ?thesis using push_packet_total [of act "pq\<lparr>pq_pb := b, pq_ps := s\<rparr>" i e] by simp
qed

lemma push_loop_total:
  assumes act: "\<And>p m. unat (buf p) + unat (maxSize p) \<le> length m \<Longrightarrow> maxSize p = n \<Longrightarrow>
      \<exists>r. act p m e = Inr r"
  shows "pq_inv R pq \<Longrightarrow> sleeps_ok R script \<Longrightarrow> pb_mtu (pq_pb pq) = n \<Longrightarrow>
    push_loop R act bw script wait tw pq e = Inl x \<Longrightarrow> x = Blocked"
proof (induction script arbitrary: wait tw pq)
  case Nil
  obtain oi b where al: "alloc (pq_pb pq) = (oi, b)" by (cases "alloc (pq_pb pq)")
  show ?case
  proof (cases "tw < bw")
    case tw: True
    show ?thesis
    proof (cases oi)
      case None
      then show ?thesis using Nil.prems(4) push_loop_full(1) [OF tw, of pq b R act wait e] al by simp
    next
      case (Some i)
      with al have al: "alloc (pq_pb pq) = (Some i, b)" by simp
      obtain res where "push_packet R act i (pq\<lparr>pq_pb := b, pq_ps := incAllocOk (pq_ps pq)\<rparr>) e = Inr res"
        using push_got_total [where act = act and e = e, OF act Nil.prems(1,3) al] by blast
      then show ?thesis using Nil.prems(4) by (simp add: push_loop_got [OF tw al])
    qed
  qed (use Nil.prems(4) in \<open>simp add: push_loop_timeout\<close>)
next
  case (Cons f script)
  obtain oi b where al: "alloc (pq_pb pq) = (oi, b)" by (cases "alloc (pq_pb pq)")
  show ?case
  proof (cases "tw < bw")
    case tw: True
    show ?thesis
    proof (cases oi)
      case (Some i)
      with al have al: "alloc (pq_pb pq) = (Some i, b)" by simp
      obtain res where "push_packet R act i (pq\<lparr>pq_pb := b, pq_ps := incAllocOk (pq_ps pq)\<rparr>) e = Inr res"
        using push_got_total [where act = act and e = e, OF act Cons.prems(1,3) al] by blast
      then show ?thesis using Cons.prems(4) by (simp add: push_loop_got [OF tw al])
    next
      case None
      let ?w = "min wait 100" and ?pq = "pq\<lparr>pq_ps := incAllocFailed (pq_ps pq)\<rparr>"
      have "pq_inv R (f ?w ?pq) \<and> pb_mtu (pq_pb (f ?w ?pq)) = n"
        using Cons.prems(2,3) pq_inv_counters(1) [OF Cons.prems(1)] unfolding sleeps_ok_def by fastforce
      then show ?thesis
        using Cons.IH [of "f ?w ?pq"] Cons.prems(2,4) al None
        by (simp add: push_loop_full(2) [OF tw] sleeps_ok_def)
    qed
  qed (use Cons.prems(4) in \<open>simp add: push_loop_timeout\<close>)
qed

lemma push_comes_back:
  assumes "pq_inv R pq" "sleeps_ok R script"
    "unat (pq_blockWait pq) < 2 ^ 64 - 100" "unat (pq_blockWait pq) div 10 + 2 \<le> length script"
    "\<And>p m e. act p m e \<noteq> Inl Blocked"
    "\<And>p m. unat (buf p) + unat (maxSize p) \<le> length m \<Longrightarrow> maxSize p = pb_mtu (pq_pb pq) \<Longrightarrow>
      \<exists>r. act p m e = Inr r"
  shows "\<exists>res. push R act script pq e = Inr res"
proof (cases "push R act script pq e")
  case (Inl x)
  have "push_loop R act (pq_blockWait pq) script 0 0 pq e = Inl x" using Inl by (simp add: push_def)
  from push_loop_total [where act = act and e = e, OF assms(6,1,2) refl this] have "x = Blocked" .
  with Inl push_returns [where R = R and act = act and e = e, OF assms(3,5,4)] show ?thesis by simp
qed blast

lemma pop_loop_comes_back:
  assumes R: "ring_laws R" and act: "\<And>p m. unat (buf p) + unat (psize p) \<le> length m \<Longrightarrow>
      unat (psize p) \<le> n \<Longrightarrow> \<exists>r. act p m e = Inr r"
  shows "pq_inv R pq \<Longrightarrow> waits_ok R script \<Longrightarrow> unat (pb_mtu (pq_pb pq)) = n \<Longrightarrow>
    True \<in> fst ` set script \<Longrightarrow> \<exists>res. pop_loop R act script pq e = Inr res"
proof (induction script arbitrary: pq)
  case (Cons tf script)
  obtain t f where tf: "tf = (t, f)" by (cases tf)
  obtain oi q' where p: "rb_pop R (pq_q pq) = (oi, q')" by (cases "rb_pop R (pq_q pq)")
  show ?case
  proof (cases oi)
    case (Some i)
    with p have p: "rb_pop R (pq_q pq) = (Some i, q')" by simp
    have sl: "pq_slots R {} pq" using Cons.prems(1) by (simp add: pq_inv_def)
    have wf: "wf_pb (pq_pb pq)" and ic: "i < capacity (pq_pb pq)"
      and sz: "unat (psize (packets (pq_pb pq) ! i)) \<le> unat (pb_mtu (pq_pb pq))"
      using sl pq_slots_room(1) [OF rb_pop_slots(1) [OF R sl p] singletonI] ring_popD(3) [OF R p]
      by (auto simp: pq_slots_def)
    have "unat (buf (packets (pq_pb pq) ! i)) + unat (psize (packets (pq_pb pq) ! i)) \<le>
        length (buffer (pq_pb pq))"
      using wf_pb_slot(1,3) [OF wf ic] sz by simp
    from act [OF this] sz Cons.prems(3) obtain r where
      "act (packets (pq_pb pq) ! i) (buffer (pq_pb pq)) e = Inr r" by auto
    then show ?thesis using pop_packet_total [of act "pq\<lparr>pq_q := q'\<rparr>" i e] by (simp add: pop_loop_some [OF p])
  next
    case None
    with p have p: "rb_pop R (pq_q pq) = (None, q')" by simp
    let ?pq = "pq\<lparr>pq_q := q', pq_ps := incPopEmpty (pq_ps pq)\<rparr>"
    note n = rb_pop_none_inv [OF R Cons.prems(1) p]
    show ?thesis
    proof (cases t)
      case True
      then have "tf = (True, f)" using tf by simp
      then show ?thesis using pop_loop_none(2) [OF p, of act f script e] by blast
    next
      case False
      have "pq_inv R (f ?pq)" "pb_mtu (pq_pb (f ?pq)) = pb_mtu (pq_pb pq)"
        using n(1) Cons.prems(2) tf unfolding waits_ok_def by auto
      with Cons.IH [of "f ?pq"] Cons.prems(2-4) tf False show ?thesis
        by (simp add: pop_loop_none(3) [OF p] waits_ok_def)
    qed
  qed
qed simp

section \<open>The waiting time is kept\<close>

lemma push_loop_blockWait:
  "push_loop R act bw script wait tw pq e = Inr (r, pq', e') \<Longrightarrow>
     (\<And>f w pq. f \<in> set script \<Longrightarrow> pq_blockWait (f w pq) = pq_blockWait pq) \<Longrightarrow>
     pq_blockWait pq' = pq_blockWait pq"
proof (induction script arbitrary: wait tw pq)
  case Nil
  then show ?case
    by (auto simp: push_loop.simps [of R act bw "[]"] Let_def split: if_splits option.splits
        prod.splits dest!: push_packet_keeps)
next
  case (Cons f script)
  obtain oi b where al: "alloc (pq_pb pq) = (oi, b)" by (cases "alloc (pq_pb pq)")
  show ?case
  proof (cases "tw < bw \<and> oi = None")
    case True
    with Cons.prems(1) al have "push_loop R act bw script (min wait 100 + 10) (tw + min wait 100)
        (f (min wait 100) (pq\<lparr>pq_ps := incAllocFailed (pq_ps pq)\<rparr>)) e = Inr (r, pq', e')"
      by (simp add: push_loop_full(2))
    from Cons.IH [OF this] Cons.prems(2) show ?thesis by simp
  next
    case False
    with Cons.prems(1) al show ?thesis
      by (cases oi; cases "tw < bw")
        (auto simp: push_loop_got push_loop_timeout dest!: push_packet_keeps)
  qed
qed

lemma pop_packet_blockWait:
  "pop_packet act i pq e = Inr (r, pq', e') \<Longrightarrow> pq_blockWait pq' = pq_blockWait pq"
  by (auto simp: pop_packet_def ebind_eq_Inr Let_def split: prod.splits)

lemma pop_loop_blockWait:
  "pop_loop R act script pq e = Inr (r, pq', e') \<Longrightarrow>
     (\<And>tf pq. tf \<in> set script \<Longrightarrow> pq_blockWait (snd tf pq) = pq_blockWait pq) \<Longrightarrow>
     pq_blockWait pq' = pq_blockWait pq"
proof (induction script arbitrary: pq)
  case Nil
  then show ?case
    by (auto simp: pop_loop.simps [of R act "[]"] Let_def split: option.splits prod.splits
        dest!: pop_packet_blockWait)
next
  case (Cons tf script)
  obtain t f where tf: "tf = (t, f)" by (cases tf)
  obtain oi q' where p: "rb_pop R (pq_q pq) = (oi, q')" by (cases "rb_pop R (pq_q pq)")
  let ?pq = "pq\<lparr>pq_q := q', pq_ps := incPopEmpty (pq_ps pq)\<rparr>"
  have f: "pq_blockWait (f pq) = pq_blockWait pq" for pq using Cons.prems(2) [of tf pq] tf by simp
  show ?case
  proof (cases "oi = None \<and> \<not> t")
    case True
    then have "pop_loop R act script (f ?pq) e = Inr (r, pq', e')"
      using Cons.prems(1) p tf by (simp add: pop_loop_none(3))
    from Cons.IH [OF this] Cons.prems(2) f show ?thesis by simp
  next
    case False
    then show ?thesis
      using Cons.prems(1) p tf f
      by (cases oi; cases t) (auto simp: pop_loop_some pop_loop_none(2) dest!: pop_packet_blockWait)
  qed
qed

section \<open>The contract of a loop\<close>

text \<open>
  A turn with good input, from a good state, returns to a good state. Then the loop ends
  as soon as another thread has cleared the flag, whatever happened before.
\<close>

definition inputs_ok :: "('s \<Rightarrow> bool) \<Rightarrow> ('i \<Rightarrow> bool) \<Rightarrow> (('s \<Rightarrow> 's) \<times> 'i) list \<Rightarrow> bool" where
  "inputs_ok ok good ins \<longleftrightarrow> (\<forall>(others, i) \<in> set ins. good i \<and> (\<forall>s. ok s \<longrightarrow> ok (others s)))"

locale looping_thread =
  fixes running :: "'s \<Rightarrow> bool"
    and step :: "'i \<Rightarrow> 's \<Rightarrow> 's exec"
    and ok :: "'s \<Rightarrow> bool"
    and good :: "'i \<Rightarrow> bool"
  assumes step_returns: "ok s \<Longrightarrow> good i \<Longrightarrow> \<exists>s'. step i s = Inr s' \<and> ok s'"
begin

lemma while_returns:
  assumes "ok s" "inputs_ok ok good ins" "\<And>s. ok s \<Longrightarrow> ok (clear s) \<and> \<not> running (clear s)"
  shows "\<exists>s'. thread_while running step (ins @ (clear, i) # rest) s = Inr s' \<and> ok s' \<and> \<not> running s'"
  using assms(1,2)
proof (induction ins arbitrary: s)
  case Nil
  then show ?case using assms(3) [of s] by simp
next
  case (Cons oi ins)
  obtain others j where oi: "oi = (others, j)" by (cases oi)
  have ok: "ok (others s)" "good j" and rest: "inputs_ok ok good ins"
    using Cons.prems oi by (auto simp: inputs_ok_def)
  show ?case
  proof (cases "running (others s)")
    case True
    from step_returns [OF ok] obtain s1 where "step j (others s) = Inr s1" "ok s1" by blast
    with Cons.IH [OF _ rest] True oi show ?thesis by simp
  next
    case False
    then show ?thesis using ok oi by simp
  qed
qed

lemma do_while_returns:
  assumes "ok s" "inputs_ok ok good ins" "good i" "\<And>s. ok s \<Longrightarrow> ok (clear s) \<and> \<not> running (clear s)"
    "\<And>s s'. ok s \<Longrightarrow> step i s = Inr s' \<Longrightarrow> \<not> running s \<Longrightarrow> \<not> running s'"
  shows "\<exists>s'. thread_do_while running step (ins @ (clear, i) # rest) s = Inr s' \<and> ok s' \<and> \<not> running s'"
  using assms(1,2)
proof (induction ins arbitrary: s)
  case Nil
  have ok: "ok (clear s)" "\<not> running (clear s)" using assms(4) [OF Nil(1)] by auto
  from step_returns [OF ok(1) assms(3)] obtain s1 where "step i (clear s) = Inr s1" "ok s1" by blast
  with assms(5) [OF ok(1) _ ok(2)] show ?case by simp
next
  case (Cons oi ins)
  obtain others j where oi: "oi = (others, j)" by (cases oi)
  have ok: "ok (others s)" "good j" and rest: "inputs_ok ok good ins"
    using Cons.prems oi by (auto simp: inputs_ok_def)
  from step_returns [OF ok] obtain s1 where "step j (others s) = Inr s1" "ok s1" by blast
  with Cons.IH [OF _ rest] oi show ?case by simp
qed

end

section \<open>The loops of the program\<close>

text \<open>Good answers: enough sleeps, and a wait that ends by its timeout.\<close>

definition good_sleeps :: "'q ring_api \<Rightarrow> 'q sleeps \<Rightarrow> bool" where
  "good_sleeps R script \<longleftrightarrow> sleeps_ok R script \<and> 12 \<le> length script \<and>
     (\<forall>f \<in> set script. \<forall>w pq. pq_blockWait (f w pq) = pq_blockWait pq)"

definition good_waits :: "'q ring_api \<Rightarrow> 'q waits \<Rightarrow> bool" where
  "good_waits R waits \<longleftrightarrow> waits_ok R waits \<and> True \<in> fst ` set waits \<and>
     (\<forall>tf \<in> set waits. \<forall>pq. pq_blockWait (snd tf pq) = pq_blockWait pq)"

text \<open>A device as the constructor makes it: both queues wait 100 ms.\<close>

definition loop_ok :: "'q ring_api \<Rightarrow> ('ip, 'q) TunDevice \<Rightarrow> bool" where
  "loop_ok R tun \<longleftrightarrow> ring_laws R \<and> dev_ok R tun \<and>
     pq_blockWait (td_fromTun tun) = 100 \<and> pq_blockWait (td_toTun tun) = 100"

lemma mem_read_total: "off + n \<le> length m \<Longrightarrow> mem_read m off n = Inr (take n (drop off m))"
  by (simp add: mem_read_def)

lemma push_good:
  assumes "pq_inv R pq" "good_sleeps R script" "pq_blockWait pq = 100"
    "\<And>p m e. act p m e \<noteq> Inl Blocked"
    "\<And>p m. unat (buf p) + unat (maxSize p) \<le> length m \<Longrightarrow> maxSize p = pb_mtu (pq_pb pq) \<Longrightarrow>
      \<exists>r. act p m e = Inr r"
  shows "\<exists>r pq' e'. push R act script pq e = Inr (r, pq', e') \<and> pq_blockWait pq' = 100"
proof -
  have s: "sleeps_ok R script" "unat (pq_blockWait pq) < 2 ^ 64 - 100"
    "unat (pq_blockWait pq) div 10 + 2 \<le> length script"
    using assms(2,3) by (simp_all add: good_sleeps_def)
  obtain r pq' e' where p: "push R act script pq e = Inr (r, pq', e')"
    using push_comes_back [where act = act and e = e, OF assms(1) s(1-3) assms(4,5)] by auto
  then have "pq_blockWait pq' = 100"
    using push_loop_blockWait [of R act "pq_blockWait pq" script 0 0 pq e r pq' e'] assms(2,3)
    by (auto simp: push_def good_sleeps_def)
  with p show ?thesis by blast
qed

lemma pop_good:
  assumes R: "ring_laws R" and "pq_inv R pq" "good_waits R waits"
    and act: "\<And>p m. unat (buf p) + unat (psize p) \<le> length m \<Longrightarrow>
      unat (psize p) \<le> unat (pb_mtu (pq_pb pq)) \<Longrightarrow> \<exists>r. act p m e = Inr r"
  shows "\<exists>r pq' e'. pop R act waits pq e = Inr (r, pq', e') \<and> pq_blockWait pq' = pq_blockWait pq"
proof -
  obtain r pq' e' where p: "pop_loop R act waits pq e = Inr (r, pq', e')"
    using pop_loop_comes_back [where act = act and e = e and script = waits, OF R act assms(2) _ refl]
      assms(3) by (auto simp: good_waits_def)
  moreover have "pq_blockWait pq' = pq_blockWait pq"
    using assms(3) by (intro pop_loop_blockWait [OF p]) (auto simp: good_waits_def)
  ultimately show ?thesis by (auto simp: pop_def)
qed

subsection \<open>The threads of a device\<close>

lemma echo_copy_not_blocked: "echo_copy p m q m' e \<noteq> Inl Blocked"
  by (auto simp: echo_copy_def mem_read_def mem_write_def ebind_eq_Inl split: if_splits)

lemma echo_copy_total:
  assumes "unat (buf p) + unat (psize p) \<le> length m" "unat (psize p) \<le> unat (maxSize q)"
    "unat (buf q) + unat (maxSize q) \<le> length m'"
  shows "\<exists>r. echo_copy p m q m' e = Inr r"
  using assms by (simp add: echo_copy_def mem_read_total mem_write_def)

lemma echo_action_returns:
  assumes "pq_inv R pq" "good_sleeps R script" "pq_blockWait pq = 100"
    "unat (buf p) + unat (psize p) \<le> length m" "unat (psize p) \<le> unat (pb_mtu (pq_pb pq))"
  shows "\<exists>r. echo_action R script p m pq = Inr r"
proof -
  have "\<exists>r pq' e'. push R (echo_copy p m) script pq () = Inr (r, pq', e') \<and> pq_blockWait pq' = 100"
    by (rule push_good [OF assms(1-3) echo_copy_not_blocked])
      (rule echo_copy_total, use assms(4,5) in simp_all)
  then show ?thesis by (auto simp: echo_action_def)
qed

lemma echo_action_blockWait:
  assumes "good_sleeps R script" "echo_action R script p m pq = Inr (r, m', pq')"
  shows "pq_blockWait pq' = pq_blockWait pq"
  using assms push_loop_blockWait [of R "echo_copy p m" "pq_blockWait pq" script 0 0 pq "()"]
  by (auto simp: echo_action_def push_def good_sleeps_def ebind_eq_Inr)

lemma echo_step_returns:
  assumes ok: "loop_ok R tun" and s: "good_sleeps R script" and w: "good_waits R waits"
  shows "\<exists>tun'. echo_step R script waits tun = Inr tun' \<and> loop_ok R tun' \<and>
    td_running tun' = td_running tun"
proof -
  let ?to = "td_toTun tun" and ?from = "td_fromTun tun"
  have R: "ring_laws R" and d: "dev_ok R tun" and bw: "pq_blockWait ?from = 100" "pq_blockWait ?to = 100"
    and inv: "pq_inv R ?from" "pq_inv R ?to" and mtu: "pb_mtu (pq_pb ?from) = pb_mtu (pq_pb ?to)"
    using ok by (auto simp: loop_ok_def dev_ok_def)
  have wk: "waits_ok R waits" and sk: "sleeps_ok R script"
    using w s by (auto simp: good_waits_def good_sleeps_def)
  have act: "\<exists>r. echo_action R script p m ?from = Inr r"
    if "unat (buf p) + unat (psize p) \<le> length m" "unat (psize p) \<le> unat (pb_mtu (pq_pb ?to))" for p m
    by (rule echo_action_returns [OF inv(1) s bw(1) that(1)]) (use that(2) mtu in simp)
  obtain r to' from' where p: "pop R (echo_action R script) waits ?to ?from = Inr (r, to', from')"
    "pq_blockWait to' = pq_blockWait ?to"
    using pop_good [where act = "echo_action R script" and e = ?from, OF R inv(2) w act] by blast
  have "pop_result R (echo_action R script) ?from (pq_queue R ?to) (pb_mtu (pq_pb ?to)) (r, to', from')"
    using pop_loop_result [OF R echo_action_contract inv(2) wk] p(1) by (simp add: pop_def)
  then have "pq_blockWait from' = pq_blockWait ?from"
    using echo_action_blockWait [OF s] by (cases r) (auto simp: pop_result_def)
  moreover have st: "echo_step R script waits tun = Inr (tun\<lparr>td_toTun := to', td_fromTun := from'\<rparr>)"
    by (simp add: echo_step_def p)
  moreover have "dev_ok R (tun\<lparr>td_toTun := to', td_fromTun := from'\<rparr>)"
    by (rule echo_step_ok [OF R d sk wk st])
  ultimately show ?thesis using bw R p(2) by (simp add: loop_ok_def)
qed

text \<open>An answer after which the read closure does not try again.\<close>

definition read_ends :: "tun_event \<Rightarrow> bool" where
  "read_ends ev \<longleftrightarrow> \<not> (ev_again ev \<and> 0 < ev_select ev \<and> ev_isset ev)"

lemma from_tun_read_not_blocked:
  "\<exists>ev \<in> set evs. read_ends ev \<Longrightarrow> from_tun_read evs p m running \<noteq> Inl Blocked"
proof (induction evs arbitrary: m)
  case (Cons ev evs)
  obtain ret bs where rd: "tun_read (ev_readv ev) (unat (maxSize p)) = (ret, bs)" by fastforce
  show ?case
    using Cons rd
    by (auto simp: read_ends_def mem_write_def ebind_eq_Inl split: if_splits)
qed simp

lemma from_tun_read_total:
  "\<exists>ev \<in> set evs. read_ends ev \<Longrightarrow> unat (buf p) + unat (maxSize p) \<le> length m \<Longrightarrow>
     \<exists>r. from_tun_read evs p m running = Inr r"
proof (induction evs arbitrary: m)
  case (Cons ev evs)
  obtain ret bs where rd: "tun_read (ev_readv ev) (unat (maxSize p)) = (ret, bs)" by fastforce
  have "length bs \<le> unat (maxSize p)"
    using tun_read_bytes [of "ev_readv ev" "unat (maxSize p)"] rd by simp
  with Cons.prems(2) obtain m1 where w: "mem_write m (unat (buf p)) bs = Inr m1"
    using mem_write_ok by (meson add_le_mono le_refl le_trans)
  have ex: "\<exists>b. \<not> b" by blast
  have l: "unat (buf p) + unat (maxSize p) \<le> length m1"
    using mem_write_length [OF w] Cons.prems(2) by simp
  show ?case
  proof (cases "read_ends ev")
    case True
    then show ?thesis using ex by (simp add: rd w read_ends_def)
  next
    case False
    with Cons.prems(1) have "\<exists>ev \<in> set evs. read_ends ev" by auto
    from Cons.IH [OF this l] show ?thesis using ex by (simp add: rd w)
  qed
qed simp

lemma from_tun_step_returns:
  assumes ok: "loop_ok R tun" and e: "\<exists>ev \<in> set evs. read_ends ev" and s: "good_sleeps R script"
  shows "\<exists>tun'. from_tun_step R evs script tun = Inr tun' \<and> loop_ok R tun'"
proof -
  let ?from = "td_fromTun tun"
  have R: "ring_laws R" and d: "dev_ok R tun" and bw: "pq_blockWait ?from = 100"
    "pq_blockWait (td_toTun tun) = 100" and inv: "pq_inv R ?from"
    using ok by (auto simp: loop_ok_def dev_ok_def)
  obtain r pq' e' where p: "push R (from_tun_read evs) script ?from (td_running tun) = Inr (r, pq', e')"
    "pq_blockWait pq' = 100"
    using push_good [where act = "from_tun_read evs" and e = "td_running tun",
        OF inv s bw(1) from_tun_read_not_blocked [OF e] from_tun_read_total [OF e]] by blast
  then have st: "from_tun_step R evs script tun = Inr (tun\<lparr>td_fromTun := pq', td_running := e'\<rparr>)"
    by (simp add: from_tun_step_def)
  have "sleeps_ok R script" using s by (simp add: good_sleeps_def)
  from from_tun_step_ok [OF R d this st] show ?thesis using st R bw p(2) by (simp add: loop_ok_def)
qed

lemma to_tun_step_returns:
  assumes ok: "loop_ok R tun" and w: "good_waits R waits"
  shows "\<exists>tun' out. to_tun_step R th ret waits tun = Inr (tun', out) \<and> loop_ok R tun'"
proof -
  let ?to = "td_toTun tun"
  have R: "ring_laws R" and d: "dev_ok R tun" and bw: "pq_blockWait (td_fromTun tun) = 100"
    "pq_blockWait ?to = 100" and inv: "pq_inv R ?to"
    using ok by (auto simp: loop_ok_def dev_ok_def)
  obtain r to' out where p: "pop R (to_tun_write th ret) waits ?to [] = Inr (r, to', out)"
    "pq_blockWait to' = pq_blockWait ?to"
    using pop_good [where act = "to_tun_write th ret" and e = "[]", OF R inv w]
    by (auto simp: to_tun_write_def mem_read_total)
  then have st: "to_tun_step R th ret waits tun = Inr (tun\<lparr>td_toTun := to'\<rparr>, out)"
    by (simp add: to_tun_step_def)
  have "waits_ok R waits" using w by (simp add: good_waits_def)
  from to_tun_step_ok [OF R d this st] show ?thesis using st R bw p(2) by (simp add: loop_ok_def)
qed

text \<open>The interpretations: each loop's turn has the contract.\<close>

interpretation echo_thread: looping_thread td_running "\<lambda>(script, waits). echo_step R script waits"
  "loop_ok R" "\<lambda>(script, waits). good_sleeps R script \<and> good_waits R waits"
  for R :: "'q ring_api"
  by unfold_locales (use echo_step_returns in \<open>fastforce split: prod.splits\<close>)

interpretation from_tun_thread: looping_thread td_running "\<lambda>(evs, script). from_tun_step R evs script"
  "loop_ok R" "\<lambda>(evs, script). (\<exists>ev \<in> set evs. read_ends ev) \<and> good_sleeps R script"
  for R :: "'q ring_api"
  by unfold_locales (use from_tun_step_returns in \<open>fastforce split: prod.splits\<close>)

interpretation to_tun_thread: looping_thread td_running
  "\<lambda>(ret, waits) tun. ebind (to_tun_step R th ret waits tun) (\<lambda>(tun', _). Inr tun')"
  "loop_ok R" "\<lambda>(ret, waits). good_waits R waits"
  for R :: "'q ring_api" and th
proof unfold_locales
  fix s :: "('ip, 'q) TunDevice" and i :: "int \<times> 'q waits"
  assume a: "loop_ok R s" "case i of (ret, waits) \<Rightarrow> good_waits R waits"
  obtain ret waits where i: "i = (ret, waits)" by (cases i)
  from to_tun_step_returns [OF a(1), of waits th ret] a(2) i show
    "\<exists>s'. (case i of (ret, waits) \<Rightarrow> \<lambda>tun. ebind (to_tun_step R th ret waits tun) (\<lambda>(tun', _). Inr tun')) s =
       Inr s' \<and> loop_ok R s'"
    by auto
qed

subsection \<open>The threads of the server\<close>

definition recv_ok :: "'q ring_api \<Rightarrow> nat \<Rightarrow> ('c, 'ip, 'q) TunaServer \<Rightarrow> bool" where
  "recv_ok R i srv \<longleftrightarrow> ring_laws R \<and> srv_ok R srv \<and> i < length (ts_heap srv)"

lemma recv_turn_returns:
  assumes ok: "recv_ok R i srv" and w: "good_waits R waits"
  shows "\<exists>srv'. recv_turn R waits i c srv = Inr srv' \<and> recv_ok R i srv' \<and>
    td_running (ts_heap srv' ! i) = td_running (ts_heap srv ! i)"
proof -
  let ?q = "td_fromTun (ts_heap srv ! i)"
  have R: "ring_laws R" and s: "srv_ok R srv" "i < length (ts_heap srv)"
    using ok by (auto simp: recv_ok_def)
  have inv: "pq_inv R ?q" using srv_ok_dev [OF s] by (simp add: dev_ok_def)
  obtain r q' sent' where p: "pop R (recv_action c) waits ?q (ts_sent srv) = Inr (r, q', sent')"
    using pop_good [where act = "recv_action c" and e = "ts_sent srv", OF R inv w]
    by (auto simp: recv_action_def mem_read_total)
  then have st: "recv_turn R waits i c srv =
      Inr (srv\<lparr>ts_heap := (ts_heap srv)[i := (ts_heap srv ! i)\<lparr>td_fromTun := q'\<rparr>], ts_sent := sent'\<rparr>)"
    by (simp add: recv_turn_def Let_def)
  have "waits_ok R waits" using w by (simp add: good_waits_def)
  from recv_turn_ok [OF R s this st] show ?thesis using st R s(2) by (simp add: recv_ok_def)
qed

interpretation recv_thread: looping_thread "\<lambda>srv. td_running (ts_heap srv ! i)"
  "\<lambda>waits. recv_turn R waits i c" "recv_ok R i" "good_waits R"
  for R :: "'q ring_api" and i and c :: 'c
proof unfold_locales
  fix s :: "('c, 'ip, 'q) TunaServer" and waits
  assume a: "recv_ok R i s" "good_waits R waits"
  from recv_turn_returns [OF a, of c] show "\<exists>s'. recv_turn R waits i c s = Inr s' \<and> recv_ok R i s'"
    by (elim exE conjE) (intro exI conjI)
qed

definition stat_ok :: "('j, 'ip, 'q) platform \<Rightarrow> nat \<Rightarrow> ('c, 'ip, 'q) TunaServer \<Rightarrow> bool" where
  "stat_ok L i srv \<longleftrightarrow> json_laws (pf_json L) \<and> srv_ok (pf_ring L) srv \<and> i < length (ts_heap srv)"

lemma stat_turn_returns:
  assumes ok: "stat_ok L i srv"
  shows "\<exists>srv'. stat_turn L ev i c srv = Inr srv' \<and> stat_ok L i srv'"
proof (cases "td_running (ts_heap srv ! i)")
  case False
  then show ?thesis using ok by (simp add: stat_turn_def)
next
  case True
  have l: "json_laws (pf_json L)" and s: "srv_ok (pf_ring L) srv" "i < length (ts_heap srv)"
    using ok by (auto simp: stat_ok_def)
  obtain tun' bs where t: "sendTun L ev ''stat-res'' (ts_heap srv ! i) c srv =
      Inr (tun', srv\<lparr>ts_sent := ts_sent srv @ [(c, ''JSON'' @ bs, None)]\<rparr>)"
    using sendTun_ok [where L = L and ev = ev and msg = "''stat-res''" and c = c and srv = srv and tun = "ts_heap srv ! i", OF l]
    by (elim exE)
  let ?srv = "srv\<lparr>ts_heap := (ts_heap srv)[i := tun'], ts_sent := ts_sent srv @ [(c, ''JSON'' @ bs, None)]\<rparr>"
  have st: "stat_turn L ev i c srv = Inr ?srv" using True t by (simp add: stat_turn_def)
  from stat_turn_ok [OF s st] st l s(2) show ?thesis by (simp add: stat_ok_def)
qed

interpretation stat_thread: looping_thread "\<lambda>srv. td_running (ts_heap srv ! i)"
  "\<lambda>(others, ev) srv. stat_turn L ev i c (others srv)" "stat_ok L i"
  "\<lambda>(others, ev). \<forall>srv. stat_ok L i srv \<longrightarrow> stat_ok L i (others srv)"
  for L :: "('j, 'ip, 'q) platform" and i and c :: 'c
proof unfold_locales
  fix s :: "('c, 'ip, 'q) TunaServer" and oe :: "(('c, 'ip, 'q) TunaServer \<Rightarrow> ('c, 'ip, 'q) TunaServer) \<times> server_env"
  assume a: "stat_ok L i s"
    "case oe of (others, ev) \<Rightarrow> \<forall>srv. stat_ok L i srv \<longrightarrow> stat_ok L i (others srv)"
  obtain others ev where oe: "oe = (others, ev)" by (cases oe)
  have "stat_ok L i (others s)" using a oe by simp
  from stat_turn_returns [OF this, of ev c] oe show
    "\<exists>s'. (case oe of (others, ev) \<Rightarrow> \<lambda>srv. stat_turn L ev i c (others srv)) s = Inr s' \<and> stat_ok L i s'"
    by simp
qed

section \<open>Properties\<close>

text \<open>The first assignment of \<open>stop\<close>, seen from the threads of the device and of the server.\<close>

definition halt :: "('ip, 'q) TunDevice \<Rightarrow> ('ip, 'q) TunDevice" where
  "halt tun = tun\<lparr>td_running := False\<rparr>"

definition halt_device :: "nat \<Rightarrow> ('c, 'ip, 'q) TunaServer \<Rightarrow> ('c, 'ip, 'q) TunaServer" where
  "halt_device i srv = srv\<lparr>ts_heap := (ts_heap srv)[i := halt (ts_heap srv ! i)]\<rparr>"

lemma halt_ok: "loop_ok R tun \<Longrightarrow> loop_ok R (halt tun) \<and> \<not> td_running (halt tun)"
  by (simp add: loop_ok_def dev_ok_def halt_def)

lemma halt_device_srv:
  assumes "srv_ok R srv" "i < length (ts_heap srv)"
  shows "srv_ok R (halt_device i srv)"
  unfolding halt_device_def
  by (rule srv_ok_heap(1) [OF assms])
    (use srv_ok_dev [OF assms] in \<open>simp_all add: dev_ok_def halt_def td_threads_def\<close>)

lemma halt_device_ok:
  "recv_ok R i srv \<Longrightarrow> recv_ok R i (halt_device i srv) \<and> \<not> td_running (ts_heap (halt_device i srv) ! i)"
  "stat_ok L i srv \<Longrightarrow> stat_ok L i (halt_device i srv) \<and> \<not> td_running (ts_heap (halt_device i srv) ! i)"
  using halt_device_srv
  by (auto simp: recv_ok_def stat_ok_def) (auto simp: halt_device_def halt_def)

lemma loop_ok_new:
  fixes mtu n :: "16 word"
  assumes "ring_laws R"
  shows "loop_ok R (TunDevice_new R raw raw' now ia (ucast mtu) (ucast n))"
  using assms dev_ok_new [OF assms] by (simp add: loop_ok_def TunDevice_new_def)

text \<open>C18: the threads of a device end when \<open>stop\<close> clears \<open>running\<close>. Whatever the turns before did
  and whatever the other threads did to the device in between, as long as they keep its
  invariant, the echo thread, the read thread and the write thread leave their loops at the
  first look at the flag after it was cleared, so the joins of \<open>stop\<close> come back. Each turn
  before returned: a full queue gives up after its waiting time, a wait for a packet times
  out, and the read loop ends with the first answer that does not ask it to try again.\<close>
theorem device_threads_end:
  assumes "loop_ok R tun"
    "inputs_ok (loop_ok R) (\<lambda>(script, waits). good_sleeps R script \<and> good_waits R waits) echo_turns"
    "inputs_ok (loop_ok R) (\<lambda>(evs, script). (\<exists>ev \<in> set evs. read_ends ev) \<and> good_sleeps R script) read_turns"
    "inputs_ok (loop_ok R) (\<lambda>(ret, waits). good_waits R waits) write_turns"
  shows "(\<exists>tun'. echo_loop R (echo_turns @ [(halt, e)]) tun = Inr tun' \<and> loop_ok R tun' \<and> \<not> td_running tun') \<and>
    (\<exists>tun'. from_tun_loop R (read_turns @ [(halt, r)]) tun = Inr tun' \<and> loop_ok R tun' \<and> \<not> td_running tun') \<and>
    (\<exists>tun'. to_tun_loop R th (write_turns @ [(halt, w)]) tun = Inr tun' \<and> loop_ok R tun' \<and> \<not> td_running tun')"
  using echo_thread.while_returns [OF assms(1,2) halt_ok, where i = e and rest = "[]"]
    from_tun_thread.while_returns [OF assms(1,3) halt_ok, where i = r and rest = "[]"]
    to_tun_thread.while_returns [OF assms(1,4) halt_ok, where th = th and i = w and rest = "[]"]
  by (simp add: echo_loop_def from_tun_loop_def to_tun_loop_def)

theorem device_threads_end_witness:
  "\<exists>tun'. from_tun_loop list_ring
      ([(\<lambda>tun. tun\<lparr>td_running := True\<rparr>, [\<lparr>ev_readv = Frame ''....packet'', ev_again = False,
           ev_select = 0, ev_isset = False\<rparr>], replicate 12 (\<lambda>_ pq. pq))] @
       [(halt, [], [])])
      (TunDevice_new list_ring (\<lambda>_. CHR 0x00) (\<lambda>_. CHR 0x00) 0 IfAddrs_new (ucast (1500 :: 16 word))
         (ucast (64 :: 16 word)) :: (v4, nat \<times> nat list) TunDevice) = Inr tun' \<and>
    loop_ok list_ring tun' \<and> \<not> td_running tun'"
proof (rule device_threads_end [THEN conjunct2, THEN conjunct1])
  show "loop_ok list_ring (TunDevice_new list_ring (\<lambda>_. CHR 0x00) (\<lambda>_. CHR 0x00) 0 IfAddrs_new
      (ucast (1500 :: 16 word)) (ucast (64 :: 16 word)) :: (v4, nat \<times> nat list) TunDevice)"
    by (rule loop_ok_new [OF list_ring_laws])
  show "inputs_ok (loop_ok list_ring)
      (\<lambda>(script, waits). good_sleeps list_ring script \<and> good_waits list_ring waits)
      ([] :: (((v4, nat \<times> nat list) TunDevice \<Rightarrow> (v4, nat \<times> nat list) TunDevice) \<times>
         (nat \<times> nat list) sleeps \<times> (nat \<times> nat list) waits) list)"
    by (simp add: inputs_ok_def)
  show "inputs_ok (loop_ok list_ring) (\<lambda>(ret, waits). good_waits list_ring waits)
      ([] :: (((v4, nat \<times> nat list) TunDevice \<Rightarrow> (v4, nat \<times> nat list) TunDevice) \<times>
         int \<times> (nat \<times> nat list) waits) list)"
    by (simp add: inputs_ok_def)
  show "inputs_ok (loop_ok list_ring)
      (\<lambda>(evs, script). (\<exists>ev \<in> set evs. read_ends ev) \<and> good_sleeps list_ring script)
      [(\<lambda>tun :: (v4, nat \<times> nat list) TunDevice. tun\<lparr>td_running := True\<rparr>,
        [\<lparr>ev_readv = Frame ''....packet'', ev_again = False, ev_select = 0, ev_isset = False\<rparr>],
        replicate 12 (\<lambda>_ pq. pq))]"
    by (auto simp: inputs_ok_def good_sleeps_def sleeps_ok_def read_ends_def loop_ok_def dev_ok_def
        intro: exI [of _ 0])
qed

text \<open>C17: the two threads that the server starts for a device end as well. In every reachable
  state of the server, once \<open>running\<close> is cleared the recv thread makes at most the turn it
  has begun, and the stat thread none; both come back whatever they and the other threads
  did before, and the server's invariant holds afterwards.\<close>
theorem server_threads_end:
  fixes c :: 'c and recv_turns and stat_turns
  assumes "ring_laws (pf_ring L)" "json_laws (pf_json L)" "server_reach L t srv"
    "i < length (ts_heap srv)"
    "inputs_ok (recv_ok (pf_ring L) i) (good_waits (pf_ring L)) recv_turns"
    "good_waits (pf_ring L) waits"
    "inputs_ok (stat_ok L i)
       (\<lambda>(others, ev). \<forall>srv. stat_ok L i srv \<longrightarrow> stat_ok L i (others srv)) stat_turns"
  shows "(\<exists>srv'. recv_loop (pf_ring L) i c (recv_turns @ [(halt_device i, waits)]) srv = Inr srv' \<and>
      srv_ok (pf_ring L) srv' \<and> \<not> td_running (ts_heap srv' ! i)) \<and>
    (\<exists>srv'. stat_loop L i c (stat_turns @ [(halt_device i, e)]) srv = Inr srv' \<and>
      srv_ok (pf_ring L) srv' \<and> \<not> td_running (ts_heap srv' ! i))"
proof -
  have ok: "srv_ok (pf_ring L) srv" by (rule server_reach_ok [OF assms(3,1)])
  have r: "recv_ok (pf_ring L) i srv" using assms(1,4) ok by (simp add: recv_ok_def)
  have s: "stat_ok L i srv" using assms(2,4) ok by (simp add: stat_ok_def)
  have keep: "\<not> td_running (ts_heap s' ! i)"
    if "recv_ok (pf_ring L) i s" "recv_turn (pf_ring L) waits i c s = Inr s'"
      "\<not> td_running (ts_heap s ! i)" for s s'
    using recv_turn_returns [OF that(1) assms(6), of c] that(2,3) by auto
  from recv_thread.do_while_returns [where c = c and rest = "[]" and i = waits, OF r assms(5,6)
      halt_device_ok(1) keep]
  have "\<exists>srv'. recv_loop (pf_ring L) i c (recv_turns @ [(halt_device i, waits)]) srv = Inr srv' \<and>
      recv_ok (pf_ring L) i srv' \<and> \<not> td_running (ts_heap srv' ! i)"
    by (simp add: recv_loop_def)
  moreover from stat_thread.while_returns [where c = c and rest = "[]" and i = e, OF s assms(7)
      halt_device_ok(2)]
  have "\<exists>srv'. stat_loop L i c (stat_turns @ [(halt_device i, e)]) srv = Inr srv' \<and>
      stat_ok L i srv' \<and> \<not> td_running (ts_heap srv' ! i)"
    by (simp add: stat_loop_def)
  ultimately show ?thesis by (auto simp: recv_ok_def stat_ok_def)
qed

theorem server_threads_end_witness:
  "\<exists>srv srv' :: (nat, v4, nat \<times> nat list) TunaServer.
     td_running (ts_heap srv ! 0) \<and>
     recv_loop list_ring 0 7 ([(\<lambda>srv. srv, [(True, \<lambda>pq. pq)])] @ [(halt_device 0, [(True, \<lambda>pq. pq)])]) srv =
       Inr srv' \<and> \<not> td_running (ts_heap srv' ! 0)"
proof -
  let ?L = "demo (\<lambda>_. Some (init_json JNull))" and ?w = "[(True, \<lambda>pq. pq)] :: (nat \<times> nat list) waits"
  obtain srv :: "(nat, v4, nat \<times> nat list) TunaServer" and tun where
    s: "server_reach ?L TunaTor_new srv" "ts_heap srv = [tun]" "new_device list_ring 1500 64 IfAddrs_new tun"
    using demo_server [of 7] by blast
  have i: "0 < length (ts_heap srv)" using s(2) by simp
  have w: "good_waits (pf_ring ?L) ?w" by (auto simp: good_waits_def waits_ok_def)
  have ins: "inputs_ok (recv_ok (pf_ring ?L) 0) (good_waits (pf_ring ?L)) [(\<lambda>srv. srv, ?w)]"
    "inputs_ok (stat_ok ?L 0)
       (\<lambda>(others, ev). \<forall>srv. stat_ok ?L 0 srv \<longrightarrow> stat_ok ?L 0 (others srv)) []"
    using w by (simp_all add: inputs_ok_def)
  have "\<exists>srv'. recv_loop (pf_ring ?L) 0 7 ([(\<lambda>srv. srv, ?w)] @ [(halt_device 0, ?w)]) srv = Inr srv' \<and>
      srv_ok (pf_ring ?L) srv' \<and> \<not> td_running (ts_heap srv' ! 0)"
    by (rule server_threads_end [OF demo_laws(1,2) s(1) i ins(1) w ins(2), THEN conjunct1])
  moreover have "td_running (ts_heap srv ! 0)" using s(2,3) by (simp add: new_device_def)
  moreover have "pf_ring ?L = list_ring" by (simp add: demo_def)
  ultimately show ?thesis by auto
qed

end
