(* ===== verification/Queue_Spec_Fifo.thy ===== *)
theory Queue_Spec_Fifo
  imports Packet_Queue
begin

text \<open>
  The contract of the packet queue as an abstract data type: a first-in first-out queue of
  byte strings with a bound on their number. The specification is the function \<open>fifo_call\<close>
  on a list; the locale \<open>bounded_fifo\<close> states what an implementation owes to it, call by
  call, and proves once that every sequence of calls then has the results of the
  specification. The packet queue is interpreted at the end, for a producer and a consumer
  that take turns: while a call sleeps, nobody else touches the queue.
\<close>

section \<open>The specification\<close>

datatype fifo_op = Put bytes | Get

datatype fifo_res = Stored bool | Fetched "bytes option"

fun fifo_call :: "nat \<Rightarrow> fifo_op \<Rightarrow> bytes list \<Rightarrow> fifo_res \<times> bytes list" where
  "fifo_call cap (Put bs) xs =
     (if bs \<noteq> [] \<and> length xs < cap then (Stored True, xs @ [bs]) else (Stored False, xs))"
| "fifo_call cap Get [] = (Fetched None, [])"
| "fifo_call cap Get (x # xs) = (Fetched (Some x), xs)"

fun fifo_run :: "nat \<Rightarrow> fifo_op list \<Rightarrow> bytes list \<Rightarrow> fifo_res list \<times> bytes list" where
  "fifo_run cap [] xs = ([], xs)"
| "fifo_run cap (c # cs) xs =
     (let (r, ys) = fifo_call cap c xs; (rs, zs) = fifo_run cap cs ys in (r # rs, zs))"

text \<open>What went in and what came out of a run.\<close>

fun stored :: "fifo_op list \<Rightarrow> fifo_res list \<Rightarrow> bytes list" where
  "stored (Put bs # cs) (Stored True # rs) = bs # stored cs rs"
| "stored (c # cs) (r # rs) = stored cs rs"
| "stored cs rs = []"

fun fetched :: "fifo_res list \<Rightarrow> bytes list" where
  "fetched (Fetched (Some bs) # rs) = bs # fetched rs"
| "fetched (r # rs) = fetched rs"
| "fetched [] = []"

lemma fifo_call_content:
  assumes "fifo_call cap c xs = (r, ys)" "length xs \<le> cap"
  shows "xs @ stored [c] [r] = fetched [r] @ ys \<and> length ys \<le> cap"
  using assms by (cases "(cap, c, xs)" rule: fifo_call.cases) (auto split: if_splits)

lemma stored_Cons: "stored (c # cs) (r # rs) = stored [c] [r] @ stored cs rs"
  by (cases "(c # cs, r # rs)" rule: stored.cases) auto

lemma fetched_Cons: "fetched (r # rs) = fetched [r] @ fetched rs"
  by (cases "r # rs" rule: fetched.cases) auto

text \<open>Nothing is lost, invented or reordered, and the bound is kept.\<close>

lemma fifo_run_content:
  "fifo_run cap cs xs = (rs, ys) \<Longrightarrow> length xs \<le> cap \<Longrightarrow>
     xs @ stored cs rs = fetched rs @ ys \<and> length ys \<le> cap"
proof (induction cs arbitrary: xs rs)
  case (Cons c cs)
  obtain r zs rs' where s: "fifo_call cap c xs = (r, zs)" "fifo_run cap cs zs = (rs', ys)"
    "rs = r # rs'"
    using Cons.prems(1) by (auto split: prod.splits)
  have 1: "xs @ stored [c] [r] = fetched [r] @ zs" "length zs \<le> cap"
    using fifo_call_content [OF s(1) Cons.prems(2)] by auto
  have 2: "zs @ stored cs rs' = fetched rs' @ ys" "length ys \<le> cap"
    using Cons.IH [OF s(2) 1(2)] by auto
  have "xs @ stored (c # cs) (r # rs') = (xs @ stored [c] [r]) @ stored cs rs'"
    by (subst stored_Cons) simp
  also have "\<dots> = fetched [r] @ fetched rs' @ ys" by (simp only: 1(1) 2(1) append_assoc)
  also have "\<dots> = fetched (r # rs') @ ys" by (simp add: fetched_Cons [of r rs'])
  finally show ?case using s(3) 2(2) by blast
qed simp

section \<open>The contract of an implementation\<close>

fun fifo_do ::
  "(bytes \<Rightarrow> 's \<Rightarrow> (bool \<times> 's) exec) \<Rightarrow> ('s \<Rightarrow> (bytes option \<times> 's) exec) \<Rightarrow>
   fifo_op \<Rightarrow> 's \<Rightarrow> (fifo_res \<times> 's) exec" where
  "fifo_do put get (Put bs) s = ebind (put bs s) (\<lambda>(r, s'). Inr (Stored r, s'))"
| "fifo_do put get Get s = ebind (get s) (\<lambda>(r, s'). Inr (Fetched r, s'))"

fun fifo_runs ::
  "(bytes \<Rightarrow> 's \<Rightarrow> (bool \<times> 's) exec) \<Rightarrow> ('s \<Rightarrow> (bytes option \<times> 's) exec) \<Rightarrow>
   fifo_op list \<Rightarrow> 's \<Rightarrow> (fifo_res list \<times> 's) exec" where
  "fifo_runs put get [] s = Inr ([], s)"
| "fifo_runs put get (c # cs) s =
     ebind (fifo_do put get c s) (\<lambda>(r, s1).
     ebind (fifo_runs put get cs s1) (\<lambda>(rs, s2). Inr (r # rs, s2)))"

locale bounded_fifo =
  fixes put :: "bytes \<Rightarrow> 's \<Rightarrow> (bool \<times> 's) exec"
    and get :: "'s \<Rightarrow> (bytes option \<times> 's) exec"
    and inv :: "'s \<Rightarrow> bool"
    and content :: "'s \<Rightarrow> bytes list"
    and cap :: "'s \<Rightarrow> nat"
    and width :: "'s \<Rightarrow> nat"
  assumes bounded: "inv s \<Longrightarrow> length (content s) \<le> cap s"
    and put_room: "inv s \<Longrightarrow> bs \<noteq> [] \<Longrightarrow> length bs \<le> width s \<Longrightarrow> length (content s) < cap s \<Longrightarrow>
      \<exists>s'. put bs s = Inr (True, s') \<and> inv s' \<and> content s' = content s @ [bs] \<and>
           cap s' = cap s \<and> width s' = width s"
    and put_refused: "inv s \<Longrightarrow> bs = [] \<or> length (content s) = cap s \<Longrightarrow>
      \<exists>s'. put bs s = Inr (False, s') \<and> inv s' \<and> content s' = content s \<and>
           cap s' = cap s \<and> width s' = width s"
    and get_some: "inv s \<Longrightarrow> content s = bs # rest \<Longrightarrow>
      \<exists>s'. get s = Inr (Some bs, s') \<and> inv s' \<and> content s' = rest \<and>
           cap s' = cap s \<and> width s' = width s"
    and get_none: "inv s \<Longrightarrow> content s = [] \<Longrightarrow>
      \<exists>s'. get s = Inr (None, s') \<and> inv s' \<and> content s' = [] \<and>
           cap s' = cap s \<and> width s' = width s"
begin

lemma call_refines:
  assumes s: "inv s" and c: "\<And>bs. c = Put bs \<Longrightarrow> length bs \<le> width s"
  shows "\<exists>s'. fifo_do put get c s = Inr (fst (fifo_call (cap s) c (content s)), s') \<and> inv s' \<and>
    content s' = snd (fifo_call (cap s) c (content s)) \<and> cap s' = cap s \<and> width s' = width s"
proof (cases c)
  case (Put bs)
  show ?thesis
  proof (cases "bs \<noteq> [] \<and> length (content s) < cap s")
    case True
    then show ?thesis using put_room [OF s, of bs] c [OF Put] Put by auto
  next
    case False
    then have "bs = [] \<or> length (content s) = cap s" using bounded [OF s] by auto
    from put_refused [OF s this] False Put show ?thesis by auto
  qed
next
  case Get
  then show ?thesis
    using get_some [OF s] get_none [OF s] by (cases "content s") auto
qed

lemma run_refines:
  assumes "inv s" "\<And>bs. Put bs \<in> set cs \<Longrightarrow> length bs \<le> width s"
  shows "\<exists>s'. fifo_runs put get cs s = Inr (fst (fifo_run (cap s) cs (content s)), s') \<and> inv s' \<and>
    content s' = snd (fifo_run (cap s) cs (content s)) \<and> cap s' = cap s \<and> width s' = width s"
  using assms
proof (induction cs arbitrary: s)
  case (Cons c cs)
  obtain r ys where f: "fifo_call (cap s) c (content s) = (r, ys)"
    by (cases "fifo_call (cap s) c (content s)")
  have w: "\<And>bs. c = Put bs \<Longrightarrow> length bs \<le> width s" using Cons.prems(2) by simp
  obtain s1 where
    1: "fifo_do put get c s = Inr (r, s1)" "inv s1" "content s1 = ys" "cap s1 = cap s"
      "width s1 = width s"
    using call_refines [of s c, OF Cons.prems(1) w] f by auto
  have "\<And>bs. Put bs \<in> set cs \<Longrightarrow> length bs \<le> width s1" using Cons.prems(2) 1(5) by simp
  from Cons.IH [OF 1(2) this] 1(1,3-5) f show ?case by (auto simp: split_beta)
qed auto

text \<open>Every byte string that was accepted is fetched in its turn or still there.\<close>

lemma run_conserves:
  assumes "inv s" "\<And>bs. Put bs \<in> set cs \<Longrightarrow> length bs \<le> width s"
    "fifo_runs put get cs s = Inr (rs, s')"
  shows "content s @ stored cs rs = fetched rs @ content s'" "inv s'" "cap s' = cap s"
proof -
  obtain ys where f: "fifo_run (cap s) cs (content s) = (rs, ys)" "content s' = ys" "inv s'"
    "cap s' = cap s"
    using run_refines [of s cs, OF assms(1,2)] assms(3)
    by (cases "fifo_run (cap s) cs (content s)") auto
  then show "content s @ stored cs rs = fetched rs @ content s'" "inv s'" "cap s' = cap s"
    using fifo_run_content [OF f(1) bounded [OF assms(1)]] by auto
qed

end

section \<open>The packet queue\<close>

text \<open>
  Storing a byte string is a \<open>push\<close> with the closure that copies it, while nobody pops;
  fetching one is a \<open>pop\<close> with the closure that reads the packet, whose first wait times
  out.
\<close>

definition idle_sleeps :: "'q PacketQueue \<Rightarrow> 'q sleeps" where
  "idle_sleeps pq = replicate (unat (pq_blockWait pq) div 10 + 2) (\<lambda>_ pq. pq)"

definition queue_put ::
  "'q ring_api \<Rightarrow> bytes \<Rightarrow> 'q PacketQueue \<Rightarrow> (bool \<times> 'q PacketQueue) exec" where
  "queue_put R bs pq =
     ebind (push R (mem_store bs) (idle_sleeps pq) pq ()) (\<lambda>(r, pq', _). Inr (r, pq'))"

definition queue_get ::
  "'q ring_api \<Rightarrow> 'q PacketQueue \<Rightarrow> (bytes option \<times> 'q PacketQueue) exec" where
  "queue_get R pq =
     ebind (pop R mem_fetch [(True, \<lambda>pq. pq)] pq []) (\<lambda>(r, pq', out).
       Inr (if r then Some (hd out) else None, pq'))"

definition fifo_inv :: "'q ring_api \<Rightarrow> 'q PacketQueue \<Rightarrow> bool" where
  "fifo_inv R pq \<longleftrightarrow>
     ring_laws R \<and> pq_inv R pq \<and> 0 < pq_blockWait pq \<and>
     unat (pq_blockWait pq) < 2 ^ 64 - 100 \<and> unat (pb_mtu (pq_pb pq)) < 2 ^ 63"

lemma queue_entries:
  assumes "pq_inv R pq" "bs \<in> set (pq_queue R pq)"
  shows "length bs \<le> unat (pb_mtu (pq_pb pq))"
  using assms
  by (auto simp: pq_inv_def pq_slots_def pq_queue_def payload_def min_def intro: le_trans)

text \<open>The members that no call changes.\<close>

definition same_shape :: "'q PacketQueue \<Rightarrow> 'q PacketQueue \<Rightarrow> bool" where
  "same_shape pq pq' \<longleftrightarrow>
     pq_blockWait pq' = pq_blockWait pq \<and> capacity (pq_pb pq') = capacity (pq_pb pq) \<and>
     pb_mtu (pq_pb pq') = pb_mtu (pq_pb pq)"

lemma fifo_inv_shape:
  "fifo_inv R pq \<Longrightarrow> pq_inv R pq' \<Longrightarrow> same_shape pq pq' \<Longrightarrow> fifo_inv R pq'"
  by (simp add: fifo_inv_def same_shape_def)

lemma push_got_script:
  assumes "0 < pq_blockWait pq" "fst (alloc (pq_pb pq)) \<noteq> None"
  shows "push R act script pq e = push R act [] pq e"
  using assms by (cases "alloc (pq_pb pq)") (auto simp: push_def push_loop_got)

lemma push_got_shape:
  assumes "0 < pq_blockWait pq" "fst (alloc (pq_pb pq)) \<noteq> None"
    "push R act script pq e = Inr (r, pq', e')"
  shows "same_shape pq pq'"
proof -
  have "push R act [] pq e = Inr (r, pq', e')"
    using assms(3) push_got_script [OF assms(1,2), of R act script e] by simp
  from push_keeps [OF this] show ?thesis by (simp add: same_shape_def)
qed

lemma push_loop_full_idle:
  assumes "fst (alloc (pq_pb pq)) = None" "pq_inv R pq"
  shows "push_loop R act bw (replicate n (\<lambda>_ pq. pq)) wait tw pq e = Inl Blocked \<or>
    (\<exists>s. push_loop R act bw (replicate n (\<lambda>_ pq. pq)) wait tw pq e =
           Inr (False, pq\<lparr>pq_ps := s\<rparr>, e) \<and> pq_inv R (pq\<lparr>pq_ps := s\<rparr>))"
  using assms
proof (induction n arbitrary: wait tw pq)
  case 0
  then show ?case
    using pq_inv_counters(2) [OF 0(2)]
    by (cases "tw < bw"; cases "alloc (pq_pb pq)")
      (auto simp: push_loop_timeout push_loop_full(1) intro: exI [of _ "incPushTimeout (pq_ps pq)"])
next
  case (Suc n)
  then obtain b where al: "alloc (pq_pb pq) = (None, b)" by (cases "alloc (pq_pb pq)") auto
  show ?case
  proof (cases "tw < bw")
    case True
    let ?pq = "pq\<lparr>pq_ps := incAllocFailed (pq_ps pq)\<rparr>"
    show ?thesis
      using Suc.IH [of ?pq "min wait 100 + 10" "tw + min wait 100"] Suc.prems(1)
        pq_inv_counters(1) [OF Suc.prems(2)]
      by (simp add: push_loop_full(2) [OF True al])
  next
    case False
    then show ?thesis
      using pq_inv_counters(2) [OF Suc.prems(2)]
      by (auto simp: push_loop_timeout intro: exI [of _ "incPushTimeout (pq_ps pq)"])
  qed
qed

text \<open>A push into a full queue gives up and leaves the packets alone.\<close>

lemma push_full:
  assumes inv: "pq_inv R pq" and full: "length (pq_queue R pq) = capacity (pq_pb pq)"
    and bw: "unat (pq_blockWait pq) < 2 ^ 64 - 100" and act: "\<And>p m e. act p m e \<noteq> Inl Blocked"
  shows "\<exists>s. push R act (idle_sleeps pq) pq e = Inr (False, pq\<lparr>pq_ps := s\<rparr>, e) \<and>
    pq_inv R (pq\<lparr>pq_ps := s\<rparr>)"
proof -
  have "fst (alloc (pq_pb pq)) = None" using pq_inv_alloc_cases [OF inv] full by simp
  from push_loop_full_idle [OF this inv]
  have "push R act (idle_sleeps pq) pq e = Inl Blocked \<or>
      (\<exists>s. push R act (idle_sleeps pq) pq e = Inr (False, pq\<lparr>pq_ps := s\<rparr>, e) \<and>
         pq_inv R (pq\<lparr>pq_ps := s\<rparr>))"
    unfolding push_def idle_sleeps_def .
  moreover have "push R act (idle_sleeps pq) pq e \<noteq> Inl Blocked"
    by (rule push_returns [OF bw act]) (simp add: idle_sleeps_def)
  ultimately show ?thesis by blast
qed

text \<open>A push whose closure brings no bytes gives its packet back.\<close>

lemma push_nothing:
  assumes R: "ring_laws R" and inv: "pq_inv R pq" and bw: "0 < pq_blockWait pq"
    and got: "fst (alloc (pq_pb pq)) \<noteq> None" and c: "push_contract act"
    and eff: "\<And>p m. unat (buf p) \<le> length m \<Longrightarrow> act p m e = Inr (0, m, e')"
  shows "\<exists>pq'. push R act script pq e = Inr (False, pq', e') \<and> pq_inv R pq' \<and>
    pq_queue R pq' = pq_queue R pq"
proof -
  obtain i b where al: "alloc (pq_pb pq) = (Some i, b)"
    using got by (cases "alloc (pq_pb pq)") auto
  have wf: "wf_pb (pq_pb pq)" using inv by (simp add: pq_inv_def pq_slots_def)
  note g = pb_pool.get_Some [OF wf al]
  have "unat (buf (packets b ! i)) \<le> length (buffer b)"
    using wf_pb_slot(1) [of b i] g by simp
  from push_alloc_inv [OF R inv c al eff [OF this]] show ?thesis
    by (simp add: push_def push_loop_got [OF bw al])
qed

lemma mem_store_nothing:
  "push_contract (mem_store [])"
  "unat (buf p) \<le> length m \<Longrightarrow> mem_store [] p m e = Inr (0, m, e)"
  by (auto simp: push_contract_def mem_store_def mem_write_def ebind_eq_Inr split: if_splits)

lemma mem_store_returns: "mem_store bs p m e \<noteq> Inl Blocked"
  by (auto simp: mem_store_def mem_write_def ebind_eq_Inl split: if_splits)

lemma pop_packet_shape:
  "pop_packet act i pq e = Inr (r, pq', e') \<Longrightarrow> same_shape pq pq'"
  by (auto simp: pop_packet_def same_shape_def capacity_def pb_free_def ebind_eq_Inr Let_def
      split: prod.splits)

text \<open>
  The calls with any closure of the right effect: one that stores \<open>bs\<close>, one that brings
  nothing, one that reads the packet.
\<close>

lemma push_stores:
  assumes inv: "fifo_inv R pq" and bs: "bs \<noteq> []" "length bs \<le> unat (pb_mtu (pq_pb pq))"
    and room: "length (pq_queue R pq) < capacity (pq_pb pq)"
    and eff: "\<And>p m. unat (maxSize p) = unat (pb_mtu (pq_pb pq)) \<Longrightarrow> act p m e = mem_store bs p m e'"
  shows "\<exists>pq'. push R act script pq e = Inr (True, pq', e') \<and> fifo_inv R pq' \<and>
    pq_queue R pq' = pq_queue R pq @ [bs] \<and> same_shape pq pq'"
proof -
  have R: "ring_laws R" and pq: "pq_inv R pq" and bw: "0 < pq_blockWait pq"
    and mtu: "unat (pb_mtu (pq_pb pq)) < 2 ^ 63"
    using inv by (simp_all add: fifo_inv_def)
  have got: "fst (alloc (pq_pb pq)) \<noteq> None" using pq_inv_alloc_cases [OF pq] room by simp
  have "length bs < 2 ^ 63" using bs(2) mtu by linarith
  then have "\<exists>pq'. push R act script pq e = Inr (True, pq', e') \<and> pq_inv R pq' \<and>
      pq_queue R pq' = pq_queue R pq @ [bs] \<and> pb_mtu (pq_pb pq') = pb_mtu (pq_pb pq)"
    by (rule push_store [OF R pq bw room bs]) (rule eff)
  then obtain pq' where p: "push R act script pq e = Inr (True, pq', e')" "pq_inv R pq'"
    "pq_queue R pq' = pq_queue R pq @ [bs]"
    by (elim exE conjE)
  have s: "same_shape pq pq'" by (rule push_got_shape [OF bw got p(1)])
  show ?thesis using p s fifo_inv_shape [OF inv p(2) s] by (intro exI conjI)
qed

lemma push_gives_up:
  assumes inv: "fifo_inv R pq" and act: "\<And>p m e. act p m e \<noteq> Inl Blocked"
    and full: "length (pq_queue R pq) = capacity (pq_pb pq)"
  shows "\<exists>pq'. push R act (idle_sleeps pq) pq e = Inr (False, pq', e) \<and> fifo_inv R pq' \<and>
    pq_queue R pq' = pq_queue R pq \<and> same_shape pq pq'"
proof -
  have bw: "unat (pq_blockWait pq) < 2 ^ 64 - 100" and pq: "pq_inv R pq"
    using inv by (simp_all add: fifo_inv_def)
  obtain s where s: "push R act (idle_sleeps pq) pq e = Inr (False, pq\<lparr>pq_ps := s\<rparr>, e)"
    "pq_inv R (pq\<lparr>pq_ps := s\<rparr>)"
    using push_full [where act = act and e = e, OF pq full bw act] by blast
  have "same_shape pq (pq\<lparr>pq_ps := s\<rparr>)" "pq_queue R (pq\<lparr>pq_ps := s\<rparr>) = pq_queue R pq"
    by (simp_all add: same_shape_def pq_queue_def)
  then show ?thesis using s fifo_inv_shape [OF inv s(2)] by (intro exI conjI)
qed

lemma push_brings_nothing:
  assumes inv: "fifo_inv R pq" and room: "length (pq_queue R pq) \<noteq> capacity (pq_pb pq)"
    and c: "push_contract act"
    and e: "\<And>p m. unat (buf p) \<le> length m \<Longrightarrow> act p m e = Inr (0, m, e')"
  shows "\<exists>pq'. push R act script pq e = Inr (False, pq', e') \<and> fifo_inv R pq' \<and>
    pq_queue R pq' = pq_queue R pq \<and> same_shape pq pq'"
proof -
  have R: "ring_laws R" and pq: "pq_inv R pq" and bw: "0 < pq_blockWait pq"
    using inv by (simp_all add: fifo_inv_def)
  have got: "fst (alloc (pq_pb pq)) \<noteq> None" using pq_inv_alloc_cases [OF pq] room by simp
  have "\<exists>pq'. push R act script pq e = Inr (False, pq', e') \<and> pq_inv R pq' \<and>
      pq_queue R pq' = pq_queue R pq"
    by (rule push_nothing [OF R pq bw got c]) (rule e)
  then obtain pq' where p: "push R act script pq e = Inr (False, pq', e')" "pq_inv R pq'"
    "pq_queue R pq' = pq_queue R pq"
    by (elim exE conjE)
  have s: "same_shape pq pq'" by (rule push_got_shape [OF bw got p(1)])
  show ?thesis using p s fifo_inv_shape [OF inv p(2) s] by (intro exI conjI)
qed

lemma push_refused:
  assumes inv: "fifo_inv R pq" and act: "\<And>p m e. act p m e \<noteq> Inl Blocked"
    and no: "length (pq_queue R pq) = capacity (pq_pb pq) \<or>
      push_contract act \<and> (\<forall>p m. unat (buf p) \<le> length m \<longrightarrow> act p m e = Inr (0, m, e'))"
  shows "\<exists>pq' e''. push R act (idle_sleeps pq) pq e = Inr (False, pq', e'') \<and> fifo_inv R pq' \<and>
    pq_queue R pq' = pq_queue R pq \<and> same_shape pq pq'"
proof (cases "length (pq_queue R pq) = capacity (pq_pb pq)")
  case True
  from push_gives_up [where act = act, OF inv act True] show ?thesis by blast
next
  case False
  from push_brings_nothing [where act = act and e = e and e' = e' and script = "idle_sleeps pq", OF inv False] no False
  show ?thesis by blast
qed

lemma pop_takes:
  assumes inv: "fifo_inv R pq" and q: "pq_queue R pq = bs # rest"
    and eff: "\<And>p m. unat (psize p) = length bs \<Longrightarrow> mem_read m (unat (buf p)) (length bs) = Inr bs \<Longrightarrow>
      act p m e = Inr (ret, m, e')"
  shows "\<exists>pq'. pop R act script pq e = Inr (True, pq', e') \<and> fifo_inv R pq' \<and> pq_queue R pq' = rest \<and>
    same_shape pq pq'"
proof -
  have R: "ring_laws R" and pq: "pq_inv R pq" using inv by (simp_all add: fifo_inv_def)
  have "\<exists>pq'. pop R act script pq e = Inr (True, pq', e') \<and> pq_inv R pq' \<and> pq_queue R pq' = rest \<and>
      pb_mtu (pq_pb pq') = pb_mtu (pq_pb pq)"
    by (rule pop_head [OF R pq q]) (rule eff)
  then obtain pq' where p: "pop R act script pq e = Inr (True, pq', e')" "pq_inv R pq'"
    "pq_queue R pq' = rest"
    by (elim exE conjE)
  obtain i q' where "rb_pop R (pq_q pq) = (Some i, q')"
    using q rb_pop_none_inv(2) [OF R pq]
    by (cases "rb_pop R (pq_q pq)"; cases "fst (rb_pop R (pq_q pq))") auto
  then have "pop_packet act i (pq\<lparr>pq_q := q'\<rparr>) e = Inr (True, pq', e')"
    using p(1) by (simp add: pop_def pop_loop_some)
  from pop_packet_shape [OF this] have s: "same_shape pq pq'" by (simp add: same_shape_def)
  show ?thesis using p s fifo_inv_shape [OF inv p(2) s] by (intro exI conjI)
qed

lemma pop_times_out:
  assumes inv: "fifo_inv R pq" and q: "pq_queue R pq = []"
  shows "\<exists>pq'. pop R act [(True, \<lambda>pq. pq)] pq e = Inr (False, pq', e) \<and> fifo_inv R pq' \<and>
    pq_queue R pq' = [] \<and> same_shape pq pq'"
proof -
  have R: "ring_laws R" and pq: "pq_inv R pq" using inv by (simp_all add: fifo_inv_def)
  obtain oi q' where p: "rb_pop R (pq_q pq) = (oi, q')" by (cases "rb_pop R (pq_q pq)")
  have "pq_slots R {} pq" using pq by (simp add: pq_inv_def)
  with p rb_pop_slots(2) [OF R] q have n: "rb_pop R (pq_q pq) = (None, q')" by (cases oi) fastforce+
  let ?pq = "pq\<lparr>pq_q := q', pq_ps := incPopEmpty (pq_ps pq)\<rparr>"
  note e = rb_pop_none_inv [OF R pq n]
  let ?pq' = "?pq\<lparr>pq_ps := incPopTimeout (pq_ps ?pq)\<rparr>"
  have i: "pq_inv R ?pq'" by (rule pq_inv_counters(4) [OF e(1)])
  have s: "same_shape pq ?pq'" by (simp add: same_shape_def)
  have "pq_queue R ?pq' = []" using e(3) by (simp add: pq_queue_def)
  moreover have "pop R act [(True, \<lambda>pq. pq)] pq e = Inr (False, ?pq', e)"
    by (simp add: pop_def pop_loop_none(2) [OF n])
  ultimately show ?thesis using fifo_inv_shape [OF inv i s] s by (intro exI conjI)
qed

lemma queue_put_room:
  assumes "fifo_inv R pq" "bs \<noteq> []" "length bs \<le> unat (pb_mtu (pq_pb pq))"
    "length (pq_queue R pq) < capacity (pq_pb pq)"
  shows "\<exists>pq'. queue_put R bs pq = Inr (True, pq') \<and> fifo_inv R pq' \<and>
    pq_queue R pq' = pq_queue R pq @ [bs] \<and> same_shape pq pq'"
  using push_stores [where act = "mem_store bs" and e = "()" and script = "idle_sleeps pq", OF assms refl]
  by (elim exE conjE) (simp add: queue_put_def)

lemma queue_put_refused:
  assumes "fifo_inv R pq" "bs = [] \<or> length (pq_queue R pq) = capacity (pq_pb pq)"
  shows "\<exists>pq'. queue_put R bs pq = Inr (False, pq') \<and> fifo_inv R pq' \<and>
    pq_queue R pq' = pq_queue R pq \<and> same_shape pq pq'"
proof -
  have "length (pq_queue R pq) = capacity (pq_pb pq) \<or> push_contract (mem_store bs :: unit action) \<and>
      (\<forall>p m. unat (buf p) \<le> length m \<longrightarrow> mem_store bs p m () = Inr (0, m, ()))"
    using assms(2) mem_store_nothing by auto
  from push_refused [OF assms(1) mem_store_returns this] show ?thesis
    by (elim exE conjE) (simp add: queue_put_def)
qed

lemma queue_get_some:
  assumes "fifo_inv R pq" "pq_queue R pq = bs # rest"
  shows "\<exists>pq'. queue_get R pq = Inr (Some bs, pq') \<and> fifo_inv R pq' \<and> pq_queue R pq' = rest \<and>
    same_shape pq pq'"
proof -
  have "\<exists>pq'. pop R mem_fetch [(True, \<lambda>pq. pq)] pq [] = Inr (True, pq', [bs]) \<and> fifo_inv R pq' \<and>
      pq_queue R pq' = rest \<and> same_shape pq pq'"
    by (rule pop_takes [OF assms]) (simp add: mem_fetch_def)
  then show ?thesis by (elim exE conjE) (simp add: queue_get_def)
qed

lemma queue_get_none:
  assumes "fifo_inv R pq" "pq_queue R pq = []"
  shows "\<exists>pq'. queue_get R pq = Inr (None, pq') \<and> fifo_inv R pq' \<and> pq_queue R pq' = [] \<and>
    same_shape pq pq'"
  using pop_times_out [where act = mem_fetch and e = "[]", OF assms]
  by (elim exE conjE) (simp add: queue_get_def)

interpretation queue_fifo: bounded_fifo "queue_put R" "queue_get R" "fifo_inv R" "pq_queue R"
  "\<lambda>pq. capacity (pq_pb pq)" "\<lambda>pq. unat (pb_mtu (pq_pb pq))" for R :: "'q ring_api"
proof unfold_locales
  show "length (pq_queue R pq) \<le> capacity (pq_pb pq)" if "fifo_inv R pq" for pq
  proof -
    have "distinct (rb_content R (pq_q pq))" "held used_at (pq_pb pq) = set (rb_content R (pq_q pq))"
      using that by (auto simp: fifo_inv_def pq_inv_def pq_slots_def)
    then show ?thesis using pb_pool.held_le [of "pq_pb pq"] by (simp add: pq_queue_def distinct_card)
  qed
next
  fix pq :: "'q PacketQueue" and bs rest
  assume inv: "fifo_inv R pq"
  note shape = same_shape_def [of pq, THEN iffD1]
  show "\<exists>pq'. queue_put R bs pq = Inr (True, pq') \<and> fifo_inv R pq' \<and>
      pq_queue R pq' = pq_queue R pq @ [bs] \<and> capacity (pq_pb pq') = capacity (pq_pb pq) \<and>
      unat (pb_mtu (pq_pb pq')) = unat (pb_mtu (pq_pb pq))"
    if "bs \<noteq> []" "length bs \<le> unat (pb_mtu (pq_pb pq))"
      "length (pq_queue R pq) < capacity (pq_pb pq)"
    using queue_put_room [OF inv that] by (metis shape)
  show "\<exists>pq'. queue_put R bs pq = Inr (False, pq') \<and> fifo_inv R pq' \<and>
      pq_queue R pq' = pq_queue R pq \<and> capacity (pq_pb pq') = capacity (pq_pb pq) \<and>
      unat (pb_mtu (pq_pb pq')) = unat (pb_mtu (pq_pb pq))"
    if "bs = [] \<or> length (pq_queue R pq) = capacity (pq_pb pq)"
    using queue_put_refused [OF inv that] by (metis shape)
  show "\<exists>pq'. queue_get R pq = Inr (Some bs, pq') \<and> fifo_inv R pq' \<and> pq_queue R pq' = rest \<and>
      capacity (pq_pb pq') = capacity (pq_pb pq) \<and>
      unat (pb_mtu (pq_pb pq')) = unat (pb_mtu (pq_pb pq))"
    if "pq_queue R pq = bs # rest"
    using queue_get_some [OF inv that] by (metis shape)
  show "\<exists>pq'. queue_get R pq = Inr (None, pq') \<and> fifo_inv R pq' \<and> pq_queue R pq' = [] \<and>
      capacity (pq_pb pq') = capacity (pq_pb pq) \<and>
      unat (pb_mtu (pq_pb pq')) = unat (pb_mtu (pq_pb pq))"
    if "pq_queue R pq = []"
    using queue_get_none [OF inv that] by (metis shape)
qed

section \<open>Properties\<close>

lemma fifo_inv_new16:
  fixes mtu n :: "16 word"
  assumes "ring_laws R" "0 < bw" "unat bw < 2 ^ 64 - 100"
  shows "fifo_inv R (PacketQueue_new R raw now (ucast mtu) (ucast n) bw)"
proof -
  have "unat mtu < 2 ^ 63" using unsigned_less [of mtu, where 'a = nat] by simp
  then show ?thesis
    using assms pq_inv_new16 [OF assms(1), of raw now mtu n bw]
    by (simp add: fifo_inv_def PacketBuffer_new_def Let_def unat16_less)
qed

text \<open>C13: the packet queue implements a bounded first-in first-out queue. For every
  sequence of calls that store byte strings of at most \<open>mtu\<close> bytes and fetch them, on a new
  queue of \<open>qsize\<close> packets: each call returns, with the result of the specification (a
  push succeeds exactly when it brings bytes and fewer than \<open>qsize\<close> packets are queued, a pop
  fails exactly on the empty queue), the queue ends up with the specification's content, the
  invariant holds, and what was fetched followed by what is left is what was accepted.\<close>
theorem queue_refines_fifo:
  fixes mtu n :: "16 word"
  assumes "ring_laws R" "0 < bw" "unat bw < 2 ^ 64 - 100"
    "\<And>bs. Put bs \<in> set cs \<Longrightarrow> length bs \<le> unat mtu"
  shows "\<exists>rs pq. fifo_runs (queue_put R) (queue_get R) cs
       (PacketQueue_new R raw now (ucast mtu) (ucast n) bw) = Inr (rs, pq) \<and>
     fifo_run (unat n) cs [] = (rs, pq_queue R pq) \<and> pq_inv R pq \<and>
     stored cs rs = fetched rs @ pq_queue R pq"
proof -
  let ?pq = "PacketQueue_new R raw now (ucast mtu) (ucast n) bw"
  note inv = fifo_inv_new16 [OF assms(1-3), of raw now mtu n]
  have new: "pq_queue R ?pq = []" "capacity (pq_pb ?pq) = unat n"
    using ring_new [OF assms(1)] by (simp_all add: pq_queue_def unat16_less)
  have "unat (pb_mtu (pq_pb ?pq)) = unat mtu"
    by (simp add: PacketBuffer_new_def Let_def unat16_less)
  then have w: "\<And>bs. Put bs \<in> set cs \<Longrightarrow> length bs \<le> unat (pb_mtu (pq_pb ?pq))"
    using assms(4) by simp
  from queue_fifo.run_refines [of R ?pq cs, OF inv w] obtain pq where
    r: "fifo_runs (queue_put R) (queue_get R) cs ?pq = Inr (fst (fifo_run (unat n) cs []), pq)"
      "fifo_inv R pq" "pq_queue R pq = snd (fifo_run (unat n) cs [])"
    unfolding new by blast
  from queue_fifo.run_conserves(1) [of R ?pq cs, OF inv w r(1)] r show ?thesis
    by (intro exI [of _ "fst (fifo_run (unat n) cs [])"] exI [of _ pq])
      (simp add: new fifo_inv_def)
qed

theorem queue_refines_fifo_witness:
  "\<exists>rs pq. fifo_runs (queue_put list_ring) (queue_get list_ring)
       [Put ''one'', Put ''two'', Put ''six'', Get, Put [], Get, Get, Put ''ten'']
       (PacketQueue_new list_ring (\<lambda>_. CHR 0x00) 0 (ucast (16 :: 16 word))
          (ucast (2 :: 16 word)) 100) = Inr (rs, pq) \<and>
     (rs = [Stored True, Stored True, Stored False, Fetched (Some ''one''), Stored False,
        Fetched (Some ''two''), Fetched None, Stored True] \<and>
      pq_queue list_ring pq = [''ten''])"
proof -
  let ?cs = "[Put ''one'', Put ''two'', Put ''six'', Get, Put [], Get, Get, Put ''ten'']"
  have w: "\<And>bs. Put bs \<in> set ?cs \<Longrightarrow> length bs \<le> unat (16 :: 16 word)" by auto
  have "fifo_run (unat (2 :: 16 word)) ?cs [] =
      ([Stored True, Stored True, Stored False, Fetched (Some ''one''), Stored False,
        Fetched (Some ''two''), Fetched None, Stored True], [''ten''])"
    by simp
  then show ?thesis
    using queue_refines_fifo [of list_ring 100 ?cs 16 "\<lambda>_. CHR 0x00" 0 2, OF list_ring_laws _ _ w]
    by auto
qed

end
