(* ===== verification/Echo_Pipeline.thy ===== *)
theory Echo_Pipeline
  imports Tuna_Server Queue_Spec_Fifo "HOL-Library.Sublist"
begin

text \<open>
  Echo mode as a whole. A connected echo device sends a client's packets through two queues:
  \<open>onmessage\<close> puts them into \<open>toTun\<close>, the echo thread moves them to \<open>fromTun\<close>, the recv
  thread sends them. Here the three run in any order, turn by turn, and are compared with
  two bounded queues of the specification \<open>fifo_call\<close> in series.
\<close>

section \<open>The specification\<close>

datatype pipe_event = Client bytes | EchoTurn | RecvTurn

text \<open>The state: what waits in \<open>toTun\<close>, what waits in \<open>fromTun\<close>, what was sent.\<close>

type_synonym pipe = "bytes list \<times> bytes list \<times> bytes list"

fun pipe_step :: "nat \<Rightarrow> nat \<Rightarrow> pipe_event \<Rightarrow> pipe \<Rightarrow> pipe" where
  "pipe_step n mtu (Client bs) (to, from, out) =
     (snd (fifo_call n (Put (take mtu bs)) to), from, out)"
| "pipe_step n mtu EchoTurn ([], from, out) = ([], from, out)"
| "pipe_step n mtu EchoTurn (x # to, from, out) = (to, snd (fifo_call n (Put x) from), out)"
| "pipe_step n mtu RecvTurn (to, [], out) = (to, [], out)"
| "pipe_step n mtu RecvTurn (to, y # from, out) = (to, from, out @ [y])"

definition pipe_run :: "nat \<Rightarrow> nat \<Rightarrow> pipe_event list \<Rightarrow> pipe \<Rightarrow> pipe" where
  "pipe_run n mtu evs p = fold (pipe_step n mtu) evs p"

fun from_client :: "pipe_event list \<Rightarrow> bytes list" where
  "from_client (Client bs # evs) = bs # from_client evs"
| "from_client (ev # evs) = from_client evs"
| "from_client [] = []"

definition pipe_content :: "pipe \<Rightarrow> bytes list" where
  "pipe_content p = (case p of (to, from, out) \<Rightarrow> out @ from @ to)"

text \<open>
  Whatever the order of the turns, the packets keep their order, none is doubled or made
  up, and each is the beginning of what the client sent.
\<close>

lemma pipe_step_content:
  "subseq (pipe_content (pipe_step n mtu ev p)) (pipe_content p @ map (take mtu) (from_client [ev]))"
proof (cases "(n, mtu, ev, p)" rule: pipe_step.cases)
  case (3 n mtu x to fr out)
  have "subseq (out @ fr @ to) (out @ fr @ x # to)" by (intro list_emb_append_mono) auto
  with 3 show ?thesis by (simp add: pipe_content_def)
qed (auto simp: pipe_content_def)

lemma pipe_run_content:
  "subseq (pipe_content (pipe_run n mtu evs p)) (pipe_content p @ map (take mtu) (from_client evs))"
proof (induction evs arbitrary: p)
  case (Cons ev evs)
  let ?p = "pipe_step n mtu ev p"
  have "subseq (pipe_content (pipe_run n mtu evs ?p)) (pipe_content ?p @ map (take mtu) (from_client evs))"
    by (rule Cons.IH)
  also have "subseq (pipe_content ?p @ map (take mtu) (from_client evs))
      ((pipe_content p @ map (take mtu) (from_client [ev])) @ map (take mtu) (from_client evs))"
    by (rule list_emb_append_mono [OF pipe_step_content subseq_order.refl])
  finally show ?case by (cases ev) (simp_all add: pipe_run_def)
qed (simp add: pipe_run_def)

text \<open>Nothing is dropped while the packets that were sent fit into one queue.\<close>

lemma pipe_run_lossless:
  assumes "length (pipe_content p) + length (from_client evs) \<le> n"
    "\<And>bs. bs \<in> set (from_client evs) \<Longrightarrow> take mtu bs \<noteq> []"
    "[] \<notin> set (pipe_content p)"
  shows "pipe_content (pipe_run n mtu evs p) = pipe_content p @ map (take mtu) (from_client evs)"
  using assms
proof (induction evs arbitrary: p)
  case (Cons ev evs)
  let ?p = "pipe_step n mtu ev p"
  have "pipe_content ?p = pipe_content p @ map (take mtu) (from_client [ev])"
    using Cons.prems
    by (cases "(n, mtu, ev, p)" rule: pipe_step.cases) (auto simp: pipe_content_def)
  then have "pipe_content (pipe_run n mtu evs ?p) =
      (pipe_content p @ map (take mtu) (from_client [ev])) @ map (take mtu) (from_client evs)"
    using Cons.prems by (subst Cons.IH) (cases ev; auto)+
  then show ?case by (cases ev) (simp_all add: pipe_run_def)
qed (simp add: pipe_run_def)

section \<open>The program\<close>

text \<open>
  The three operations on a connection \<open>c\<close> whose device is \<open>i\<close>. Every call gets enough
  sleeps to give up on a full queue, and its first wait for a packet times out.
\<close>

fun echo_do ::
  "('j, 'ip, 'q) platform \<Rightarrow> server_env \<Rightarrow> 'c \<Rightarrow> nat \<Rightarrow> pipe_event \<Rightarrow>
   ('c, 'ip, 'q) TunaServer \<Rightarrow> ('c, 'ip, 'q) TunaServer exec" where
  "echo_do L ev c i (Client bs) srv =
     onmessage L ev (idle_sleeps (td_toTun (ts_heap srv ! i))) c
       \<lparr>ms_data = ''PAKT'' @ bs, ms_pos = 0\<rparr> srv"
| "echo_do L ev c i EchoTurn srv =
     device_turn i (\<lambda>tun. echo_step (pf_ring L) (idle_sleeps (td_fromTun tun)) [(True, \<lambda>pq. pq)] tun) srv"
| "echo_do L ev c i RecvTurn srv = recv_turn (pf_ring L) [(True, \<lambda>pq. pq)] i c srv"

fun echo_run ::
  "('j, 'ip, 'q) platform \<Rightarrow> server_env \<Rightarrow> 'c \<Rightarrow> nat \<Rightarrow> pipe_event list \<Rightarrow>
   ('c, 'ip, 'q) TunaServer \<Rightarrow> ('c, 'ip, 'q) TunaServer exec" where
  "echo_run L ev c i [] srv = Inr srv"
| "echo_run L ev c i (x # xs) srv = ebind (echo_do L ev c i x srv) (echo_run L ev c i xs)"

section \<open>Simulation\<close>

definition queue_ok :: "'q ring_api \<Rightarrow> nat \<Rightarrow> nat \<Rightarrow> 'q PacketQueue \<Rightarrow> bool" where
  "queue_ok R n mtu pq \<longleftrightarrow>
     fifo_inv R pq \<and> capacity (pq_pb pq) = n \<and> unat (pb_mtu (pq_pb pq)) = mtu"

lemma queue_ok_shape:
  "queue_ok R n mtu pq \<Longrightarrow> fifo_inv R pq' \<Longrightarrow> same_shape pq pq' \<Longrightarrow> queue_ok R n mtu pq'"
  by (simp add: queue_ok_def same_shape_def)

definition frames :: "'c \<Rightarrow> bytes list \<Rightarrow> 'c frame list" where
  "frames c bss = map (\<lambda>bs. (c, ''PAKT'' @ bs, Some 130)) bss"

definition pipe_rel ::
  "'q ring_api \<Rightarrow> nat \<Rightarrow> nat \<Rightarrow> 'c \<Rightarrow> nat \<Rightarrow> 'c frame list \<Rightarrow> ('c, 'ip, 'q) TunaServer \<Rightarrow> pipe \<Rightarrow> bool" where
  "pipe_rel R n mtu c i sent srv p \<longleftrightarrow>
     (case p of (to, from, out) \<Rightarrow>
        ts_tunDevices srv c = Some i \<and> i < length (ts_heap srv) \<and>
        queue_ok R n mtu (td_toTun (ts_heap srv ! i)) \<and> queue_ok R n mtu (td_fromTun (ts_heap srv ! i)) \<and>
        pq_queue R (td_toTun (ts_heap srv ! i)) = to \<and> pq_queue R (td_fromTun (ts_heap srv ! i)) = from \<and>
        ts_sent srv = sent @ frames c out)"

lemma pipe_rel_upd:
  assumes "pipe_rel R n mtu c i sent srv (to, fr, out)" "queue_ok R n mtu toTun" "queue_ok R n mtu fromTun"
    "tun = (ts_heap srv ! i)\<lparr>td_toTun := toTun, td_fromTun := fromTun\<rparr>"
  shows "pipe_rel R n mtu c i sent
    (srv\<lparr>ts_heap := (ts_heap srv)[i := tun], ts_sent := ts_sent srv @ frames c bss\<rparr>)
    (pq_queue R toTun, pq_queue R fromTun, out @ bss)"
  using assms by (simp add: pipe_rel_def frames_def)

lemma copy_out_returns: "copy_out_action p m pkt \<noteq> Inl Blocked"
  by (auto simp: copy_out_action_def mem_write_def ebind_eq_Inl split: prod.splits if_splits)

text \<open>A packet from the client.\<close>

lemma client_push:
  assumes ok: "queue_ok R n mtu pq" and bs: "length bs < 2 ^ 63" and m: "0 < mtu"
  shows "\<exists>r pq' e'. push R copy_out_action (idle_sleeps pq) pq (pakt 0 bs) = Inr (r, pq', e') \<and>
    queue_ok R n mtu pq' \<and> pq_queue R pq' = snd (fifo_call n (Put (take mtu bs)) (pq_queue R pq))"
proof -
  have inv: "fifo_inv R pq" and n: "capacity (pq_pb pq) = n" and mtu: "unat (pb_mtu (pq_pb pq)) = mtu"
    using ok by (simp_all add: queue_ok_def)
  show ?thesis
  proof (cases "take mtu bs \<noteq> [] \<and> length (pq_queue R pq) < n")
    case True
    then have "\<exists>pq'. push R copy_out_action (idle_sleeps pq) pq (pakt 0 bs) =
        Inr (True, pq', pakt (length (take mtu bs)) bs) \<and> fifo_inv R pq' \<and>
        pq_queue R pq' = pq_queue R pq @ [take mtu bs] \<and> same_shape pq pq'"
      by (intro push_stores [OF inv]) (use mtu n copy_out_store [OF bs] in auto)
    then obtain pq' where p: "push R copy_out_action (idle_sleeps pq) pq (pakt 0 bs) =
        Inr (True, pq', pakt (length (take mtu bs)) bs)" "fifo_inv R pq'" "same_shape pq pq'"
        "pq_queue R pq' = pq_queue R pq @ [take mtu bs]"
      by (elim exE conjE)
    have "pq_queue R pq' = snd (fifo_call n (Put (take mtu bs)) (pq_queue R pq))"
      using True p(4) by simp
    then show ?thesis using p(1) queue_ok_shape [OF ok p(2,3)] by (intro exI conjI)
  next
    case False
    have "length (pq_queue R pq) \<le> n" using queue_fifo.bounded [OF inv] n by simp
    moreover have "copy_out_action p m (pakt 0 bs) = Inr (0, m, pakt 0 bs)"
      if "take mtu bs = []" "unat (buf p) \<le> length m" for p m
      using that m copy_out_store [of "[]" p _ m] mem_store_nothing(2) [of p m "pakt 0 []"] by simp
    ultimately have "length (pq_queue R pq) = capacity (pq_pb pq) \<or> push_contract copy_out_action \<and>
        (\<forall>p m. unat (buf p) \<le> length m \<longrightarrow> copy_out_action p m (pakt 0 bs) = Inr (0, m, pakt 0 bs))"
      using False n copy_out_contract by auto
    from push_refused [where e = "pakt 0 bs", OF inv copy_out_returns this] obtain pq' e' where
      p: "push R copy_out_action (idle_sleeps pq) pq (pakt 0 bs) = Inr (False, pq', e')"
        "fifo_inv R pq'" "same_shape pq pq'" "pq_queue R pq' = pq_queue R pq"
      by (elim exE conjE)
    have "pq_queue R pq' = snd (fifo_call n (Put (take mtu bs)) (pq_queue R pq))"
      using False p(4) by auto
    then show ?thesis using p(1) queue_ok_shape [OF ok p(2,3)] by (intro exI conjI)
  qed
qed

text \<open>A turn of the echo thread, and one of the recv thread.\<close>

lemma put_any:
  assumes ok: "queue_ok R n mtu pq" and x: "length x \<le> mtu"
  shows "\<exists>r pq'. push R (mem_store x) (idle_sleeps pq) pq () = Inr (r, pq', ()) \<and>
    queue_ok R n mtu pq' \<and> pq_queue R pq' = snd (fifo_call n (Put x) (pq_queue R pq))"
proof -
  have inv: "fifo_inv R pq" and n: "capacity (pq_pb pq) = n" and mtu: "unat (pb_mtu (pq_pb pq)) = mtu"
    using ok by (simp_all add: queue_ok_def)
  have "\<exists>pq'. fifo_do (queue_put R) (queue_get R) (Put x) pq =
        Inr (fst (fifo_call n (Put x) (pq_queue R pq)), pq') \<and> fifo_inv R pq' \<and>
      pq_queue R pq' = snd (fifo_call n (Put x) (pq_queue R pq)) \<and>
      capacity (pq_pb pq') = n \<and> unat (pb_mtu (pq_pb pq')) = mtu"
    using queue_fifo.call_refines [where c = "Put x", OF inv] x unfolding n mtu by simp
  then show ?thesis by (auto simp: queue_put_def ebind_eq_Inr queue_ok_def)
qed

lemma echo_turn:
  assumes t: "queue_ok R n mtu (td_toTun tun)" and f: "queue_ok R n mtu (td_fromTun tun)"
  shows "\<exists>to' fr'. echo_step R (idle_sleeps (td_fromTun tun)) [(True, \<lambda>pq. pq)] tun =
      Inr (tun\<lparr>td_toTun := to', td_fromTun := fr'\<rparr>) \<and> queue_ok R n mtu to' \<and> queue_ok R n mtu fr' \<and>
    (pq_queue R to', pq_queue R fr', out) =
      pipe_step n mtu EchoTurn (pq_queue R (td_toTun tun), pq_queue R (td_fromTun tun), out)"
proof -
  let ?to = "td_toTun tun" and ?fr = "td_fromTun tun" and ?w = "[(True, \<lambda>pq. pq)]"
  let ?act = "echo_action R (idle_sleeps ?fr)"
  have ti: "fifo_inv R ?to" using t by (simp add: queue_ok_def)
  show ?thesis
  proof (cases "pq_queue R ?to")
    case Nil
    obtain to' where p: "pop R ?act ?w ?to ?fr = Inr (False, to', ?fr)" "fifo_inv R to'"
      "pq_queue R to' = []" "same_shape ?to to'"
      using pop_times_out [where act = ?act and e = ?fr, OF ti Nil] by (elim exE conjE)
    have "echo_step R (idle_sleeps ?fr) ?w tun = Inr (tun\<lparr>td_toTun := to', td_fromTun := ?fr\<rparr>)"
      by (simp add: echo_step_def p(1))
    moreover have "queue_ok R n mtu to'" by (rule queue_ok_shape [OF t p(2,4)])
    ultimately show ?thesis using f p(3) Nil by (intro exI [of _ to'] exI [of _ ?fr]) simp
  next
    case (Cons x rest)
    have "length x \<le> mtu"
      using queue_entries [of R ?to x] t Cons by (simp add: queue_ok_def fifo_inv_def)
    from put_any [OF f this] obtain r fr' where
      s: "push R (mem_store x) (idle_sleeps ?fr) ?fr () = Inr (r, fr', ())" "queue_ok R n mtu fr'"
        "pq_queue R fr' = snd (fifo_call n (Put x) (pq_queue R ?fr))"
      by (elim exE conjE)
    have eff: "?act p m ?fr = Inr (if r then 1 else - 1, m, fr')"
      if "unat (psize p) = length x" "mem_read m (unat (buf p)) (length x) = Inr x" for p m
      using echo_copy_store [of m p x] that s(1) by (simp add: echo_action_def)
    have "\<exists>to'. pop R ?act ?w ?to ?fr = Inr (True, to', fr') \<and> fifo_inv R to' \<and>
        pq_queue R to' = rest \<and> same_shape ?to to'"
      by (rule pop_takes [OF ti Cons]) (rule eff)
    then obtain to' where p: "pop R ?act ?w ?to ?fr = Inr (True, to', fr')" "fifo_inv R to'"
      "pq_queue R to' = rest" "same_shape ?to to'"
      by (elim exE conjE)
    have "echo_step R (idle_sleeps ?fr) ?w tun = Inr (tun\<lparr>td_toTun := to', td_fromTun := fr'\<rparr>)"
      by (simp add: echo_step_def p(1))
    moreover have "queue_ok R n mtu to'" by (rule queue_ok_shape [OF t p(2,4)])
    ultimately show ?thesis
      using s(2,3) p(3) Cons by (intro exI [of _ to'] exI [of _ fr']) simp
  qed
qed

lemma recv_pop:
  assumes ok: "queue_ok R n mtu pq"
  shows "\<exists>r pq' bss. pop R (recv_action c) [(True, \<lambda>pq. pq)] pq sent = Inr (r, pq', sent @ frames c bss) \<and>
    queue_ok R n mtu pq' \<and>
    (to, pq_queue R pq', out @ bss) = pipe_step n mtu RecvTurn (to, pq_queue R pq, out)"
proof -
  have inv: "fifo_inv R pq" using ok by (simp add: queue_ok_def)
  show ?thesis
  proof (cases "pq_queue R pq")
    case Nil
    obtain pq' where p: "pop R (recv_action c) [(True, \<lambda>pq. pq)] pq sent = Inr (False, pq', sent)"
      "fifo_inv R pq'" "pq_queue R pq' = []" "same_shape pq pq'"
      using pop_times_out [where act = "recv_action c" and e = sent, OF inv Nil] by (elim exE conjE)
    have "queue_ok R n mtu pq'" by (rule queue_ok_shape [OF ok p(2,4)])
    then show ?thesis
      using p(1,3) Nil by (intro exI [of _ False] exI [of _ pq'] exI [of _ "[]"]) (simp add: frames_def)
  next
    case (Cons y rest)
    have "\<exists>pq'. pop R (recv_action c) [(True, \<lambda>pq. pq)] pq sent = Inr (True, pq', sent @ frames c [y]) \<and>
        fifo_inv R pq' \<and> pq_queue R pq' = rest \<and> same_shape pq pq'"
      by (rule pop_takes [where ret = 1, OF inv Cons]) (simp add: recv_action_def frames_def)
    then obtain pq' where p: "pop R (recv_action c) [(True, \<lambda>pq. pq)] pq sent = Inr (True, pq', sent @ frames c [y])"
      "fifo_inv R pq'" "pq_queue R pq' = rest" "same_shape pq pq'"
      by (elim exE conjE)
    have "queue_ok R n mtu pq'" by (rule queue_ok_shape [OF ok p(2,4)])
    then show ?thesis
      using p(1,3) Cons by (intro exI [of _ True] exI [of _ pq'] exI [of _ "[y]"]) simp
  qed
qed

lemma pipe_simulation:
  assumes rel: "pipe_rel (pf_ring L) n mtu c i sent srv p" and m: "0 < mtu"
    and bs: "\<And>bs. x = Client bs \<Longrightarrow> length bs < 2 ^ 63"
  shows "\<exists>srv'. echo_do L ev c i x srv = Inr srv' \<and>
    pipe_rel (pf_ring L) n mtu c i sent srv' (pipe_step n mtu x p)"
proof -
  let ?R = "pf_ring L" and ?tun = "ts_heap srv ! i"
  obtain to fr out where p: "p = (to, fr, out)" by (cases p)
  have c: "ts_tunDevices srv c = Some i" and i: "i < length (ts_heap srv)"
    and t: "queue_ok ?R n mtu (td_toTun ?tun)" "queue_ok ?R n mtu (td_fromTun ?tun)"
    and q: "pq_queue ?R (td_toTun ?tun) = to" "pq_queue ?R (td_fromTun ?tun) = fr"
    using rel by (simp_all add: pipe_rel_def p)
  note upd = pipe_rel_upd [OF rel [unfolded p]]
  show ?thesis
  proof (cases x)
    case (Client bs)
    obtain r to' e' where s: "push ?R copy_out_action (idle_sleeps (td_toTun ?tun)) (td_toTun ?tun) (pakt 0 bs) =
        Inr (r, to', e')" "queue_ok ?R n mtu to'"
        "pq_queue ?R to' = snd (fifo_call n (Put (take mtu bs)) to)"
      using client_push [OF t(1) bs [OF Client] m] q(1) by auto
    have "echo_do L ev c i x srv = Inr (srv\<lparr>ts_heap := (ts_heap srv)[i := ?tun\<lparr>td_toTun := to'\<rparr>]\<rparr>)"
      unfolding Client echo_do.simps onmessage_pakt [OF c bs [OF Client]] s(1) by simp
    moreover have "pipe_rel ?R n mtu c i sent (srv\<lparr>ts_heap := (ts_heap srv)[i := ?tun\<lparr>td_toTun := to'\<rparr>]\<rparr>)
        (pq_queue ?R to', fr, out)"
      using upd [OF s(2) t(2), of "?tun\<lparr>td_toTun := to'\<rparr>" "[]"] q(2) by (simp add: frames_def)
    ultimately show ?thesis using s(3) by (simp add: p Client del: fifo_call.simps)
  next
    case EchoTurn
    obtain to' fr' where s: "echo_step ?R (idle_sleeps (td_fromTun ?tun)) [(True, \<lambda>pq. pq)] ?tun =
        Inr (?tun\<lparr>td_toTun := to', td_fromTun := fr'\<rparr>)" "queue_ok ?R n mtu to'" "queue_ok ?R n mtu fr'"
        "(pq_queue ?R to', pq_queue ?R fr', out) = pipe_step n mtu EchoTurn (to, fr, out)"
      using echo_turn [OF t, of out] unfolding q by (elim exE conjE)
    let ?srv = "srv\<lparr>ts_heap := (ts_heap srv)[i := ?tun\<lparr>td_toTun := to', td_fromTun := fr'\<rparr>]\<rparr>"
    have "echo_do L ev c i x srv = Inr ?srv" by (simp add: EchoTurn device_turn_def s(1))
    moreover have "pipe_rel ?R n mtu c i sent ?srv (pq_queue ?R to', pq_queue ?R fr', out)"
      using upd [OF s(2,3) refl, of "[]"] by (simp add: frames_def)
    ultimately show ?thesis using s(4) by (simp add: p EchoTurn)
  next
    case RecvTurn
    obtain r fr' bss where s: "pop ?R (recv_action c) [(True, \<lambda>pq. pq)] (td_fromTun ?tun) (ts_sent srv) =
        Inr (r, fr', ts_sent srv @ frames c bss)" "queue_ok ?R n mtu fr'"
        "(to, pq_queue ?R fr', out @ bss) = pipe_step n mtu RecvTurn (to, fr, out)"
      using recv_pop [OF t(2), of c "ts_sent srv" to out] unfolding q by (elim exE conjE)
    let ?srv = "srv\<lparr>ts_heap := (ts_heap srv)[i := ?tun\<lparr>td_fromTun := fr'\<rparr>],
      ts_sent := ts_sent srv @ frames c bss\<rparr>"
    have "echo_do L ev c i x srv = Inr ?srv" by (simp add: RecvTurn recv_turn_def Let_def s(1))
    moreover have "pipe_rel ?R n mtu c i sent ?srv (to, pq_queue ?R fr', out @ bss)"
      using upd [OF t(1) s(2), of "?tun\<lparr>td_fromTun := fr'\<rparr>" bss] q(1) by simp
    ultimately show ?thesis using s(3) by (simp add: p RecvTurn)
  qed
qed

lemma pipe_simulation_run:
  assumes "0 < mtu" "\<And>bs. bs \<in> set (from_client xs) \<Longrightarrow> length bs < 2 ^ 63"
    "pipe_rel (pf_ring L) n mtu c i sent srv p"
  shows "\<exists>srv'. echo_run L ev c i xs srv = Inr srv' \<and>
    pipe_rel (pf_ring L) n mtu c i sent srv' (pipe_run n mtu xs p)"
  using assms(2,3)
proof (induction xs arbitrary: srv p)
  case Nil
  then show ?case by (simp add: pipe_run_def)
next
  case (Cons x xs)
  have "\<And>bs. x = Client bs \<Longrightarrow> length bs < 2 ^ 63" using Cons.prems(1) by auto
  from pipe_simulation [OF Cons.prems(2) assms(1) this, where ev = ev] obtain srv1 where
    s: "echo_do L ev c i x srv = Inr srv1" "pipe_rel (pf_ring L) n mtu c i sent srv1 (pipe_step n mtu x p)"
    by blast
  have "\<And>bs. bs \<in> set (from_client xs) \<Longrightarrow> length bs < 2 ^ 63"
    using Cons.prems(1) by (cases x) auto
  from Cons.IH [OF this s(2)] s(1) show ?case by (simp add: pipe_run_def)
qed

section \<open>Properties\<close>

text \<open>C6: an echo device is two bounded queues in series. Take a reachable server with a connection
  whose echo device is fresh, and let client packets, turns of the echo thread and turns of the
  recv thread follow each other in any order: every operation returns; the two queues hold,
  and the connection has been sent, exactly what the specification says, each packet in one
  binary \<open>PAKT\<close> frame; what was sent and what still waits are, in order, some of the client's
  packets, each cut to the packet size; and none is missing when the client sent no more
  packets than one queue holds, none of them empty.\<close>
theorem echo_refines_pipeline:
  assumes "ring_laws (pf_ring L)" "server_reach L t srv" "ts_tunDevices srv c = Some i"
    "new_device (pf_ring L) mtu qSize ia (ts_heap srv ! i)" "0 < mtu"
    "\<And>bs. bs \<in> set (from_client xs) \<Longrightarrow> length bs < 2 ^ 63"
  shows "\<exists>srv' to from out. echo_run L ev c i xs srv = Inr srv' \<and>
    pipe_run (unat qSize) (unat mtu) xs ([], [], []) = (to, from, out) \<and>
    pq_queue (pf_ring L) (td_toTun (ts_heap srv' ! i)) = to \<and>
    pq_queue (pf_ring L) (td_fromTun (ts_heap srv' ! i)) = from \<and>
    ts_sent srv' = ts_sent srv @ map (\<lambda>bs. (c, ''PAKT'' @ bs, Some 130)) out \<and>
    subseq (out @ from @ to) (map (take (unat mtu)) (from_client xs)) \<and>
    (length (from_client xs) \<le> unat qSize \<and> [] \<notin> set (from_client xs) \<longrightarrow>
       out @ from @ to = map (take (unat mtu)) (from_client xs))"
proof -
  let ?R = "pf_ring L" and ?n = "unat qSize" and ?mtu = "unat mtu"
  have i: "i < length (ts_heap srv)"
    using server_reach_ok [OF assms(2,1)] assms(3) by (auto simp: srv_ok_def)
  have m: "0 < ?mtu" using assms(5) by (simp add: word_less_nat_alt)
  have "queue_ok ?R ?n ?mtu (td_toTun (ts_heap srv ! i))" "queue_ok ?R ?n ?mtu (td_fromTun (ts_heap srv ! i))"
    using assms(1,4) unat16_less [of mtu]
    by (auto simp: queue_ok_def fifo_inv_def new_device_def dev_ok_def)
  then have "pipe_rel ?R ?n ?mtu c i (ts_sent srv) srv ([], [], [])"
    using assms(3,4) i by (simp add: pipe_rel_def frames_def new_device_def)
  from pipe_simulation_run [where ev = ev, OF m assms(6) this] obtain srv' where
    s: "echo_run L ev c i xs srv = Inr srv'"
      "pipe_rel ?R ?n ?mtu c i (ts_sent srv) srv' (pipe_run ?n ?mtu xs ([], [], []))"
    by blast
  obtain to fr out where p: "pipe_run ?n ?mtu xs ([], [], []) = (to, fr, out)"
    by (cases "pipe_run ?n ?mtu xs ([], [], [])")
  have c1: "subseq (out @ fr @ to) (map (take ?mtu) (from_client xs))"
    using pipe_run_content [of ?n ?mtu xs "([], [], [])"] by (simp add: p pipe_content_def)
  have c2: "out @ fr @ to = map (take ?mtu) (from_client xs)"
    if "length (from_client xs) \<le> ?n \<and> [] \<notin> set (from_client xs)"
  proof -
    have "\<And>bs. bs \<in> set (from_client xs) \<Longrightarrow> take ?mtu bs \<noteq> []" using that m by auto
    then show ?thesis
      using pipe_run_lossless [of "([], [], [])" xs ?n ?mtu] that by (simp add: p pipe_content_def)
  qed
  show ?thesis
    using s p c1 c2 by (intro exI [of _ srv'] exI [of _ to] exI [of _ fr] exI [of _ out])
      (simp add: pipe_rel_def frames_def)
qed

theorem echo_refines_pipeline_witness:
  "\<exists>srv srv' :: (nat, v4, nat \<times> nat list) TunaServer.
     echo_run (demo (\<lambda>_. Some (init_json JNull))) demo_env 7 0
       [Client ''one'', RecvTurn, Client ''two'', EchoTurn, Client ''six'', EchoTurn, RecvTurn] srv = Inr srv' \<and>
     ts_sent srv' = ts_sent srv @ [(7, ''PAKT'' @ ''one'', Some 130)] \<and>
     pq_queue list_ring (td_fromTun (ts_heap srv' ! 0)) = [''two''] \<and>
     pq_queue list_ring (td_toTun (ts_heap srv' ! 0)) = [''six'']"
proof -
  let ?L = "demo (\<lambda>_. Some (init_json JNull))"
  let ?xs = "[Client ''one'', RecvTurn, Client ''two'', EchoTurn, Client ''six'', EchoTurn, RecvTurn]"
  obtain srv :: "(nat, v4, nat \<times> nat list) TunaServer" and tun where
    s: "server_reach ?L TunaTor_new srv" "ts_tunDevices srv = [7 \<mapsto> 0]" "ts_heap srv = [tun]"
      "new_device list_ring 1500 64 IfAddrs_new tun"
    using demo_server [of 7] by blast
  have R: "pf_ring ?L = list_ring" by (simp add: demo_def)
  have c: "ts_tunDevices srv 7 = Some 0" and e: "new_device (pf_ring ?L) 1500 64 IfAddrs_new (ts_heap srv ! 0)"
    using s(2-4) R by simp_all
  define xs where "xs = ?xs"
  have l: "\<And>bs. bs \<in> set (from_client xs) \<Longrightarrow> length bs < 2 ^ 63" by (auto simp: xs_def)
  have p: "pipe_run (unat (64 :: 16 word)) (unat (1500 :: 16 word)) xs ([], [], []) =
      ([''six''], [''two''], [''one''])"
    by (simp add: pipe_run_def xs_def)
  from echo_refines_pipeline [where ev = demo_env and xs = xs, OF demo_laws(1) s(1) c e _ l]
  obtain srv' where "echo_run ?L demo_env 7 0 xs srv = Inr srv'"
    "pq_queue (pf_ring ?L) (td_toTun (ts_heap srv' ! 0)) = [''six'']"
    "pq_queue (pf_ring ?L) (td_fromTun (ts_heap srv' ! 0)) = [''two'']"
    "ts_sent srv' = ts_sent srv @ [(7, ''PAKT'' @ ''one'', Some 130)]"
    unfolding p by auto
  then show ?thesis unfolding xs_def R by (intro exI [of _ srv] exI [of _ srv'] conjI)
qed

end
