(* ===== verification/Gateway.thy ===== *)
theory Gateway
  imports Echo_Pipeline
begin

text \<open>
  The gateway as a whole: any number of clients that connect, send packets and leave, in any
  order, with the turns of all threads of all devices in between, and the kernel's side of
  every tun descriptor. It is compared with one small state machine per connection that
  knows only lists of packets; so what one client sees does not depend on the others.
\<close>

section \<open>The specification\<close>

text \<open>
  What happens. Each event belongs to a connection: its \<open>init\<close> message (the text and the
  description it carries), a \<open>PAKT\<close> message, one turn of each thread of its device (the
  write thread with the result of \<open>writev\<close>), a frame that the kernel routes to its
  interface, and its end.
\<close>

datatype 'ip gw_event =
    Init server_env string "'ip IfAddrs"
  | Message server_env bytes
  | WriteTurn int
  | ReadTurn
  | SendTurn
  | StatTurn server_env
  | Arrival bytes
  | Leave

text \<open>
  A connection: whether its device echoes, the two queues, the frames that the kernel holds
  for the descriptor, the packets that were written to it, and whether the device runs.
\<close>

record conn =
  cn_echo :: bool
  cn_to :: "bytes list"
  cn_from :: "bytes list"
  cn_net :: "bytes list"
  cn_wire :: "bytes list"
  cn_running :: bool

definition new_conn :: "bool \<Rightarrow> conn" where
  "new_conn echo = \<lparr>cn_echo = echo, cn_to = [], cn_from = [], cn_net = [], cn_wire = [],
     cn_running = True\<rparr>"

definition payload_of :: "nat \<Rightarrow> bytes \<Rightarrow> bytes" where
  "payload_of mtu f = take mtu (drop 4 f)"

text \<open>One event, for queues of \<open>n\<close> packets of at most \<open>mtu\<close> bytes.\<close>

fun conn_step :: "nat \<Rightarrow> nat \<Rightarrow> 'ip gw_event \<Rightarrow> conn \<Rightarrow> conn" where
  "conn_step n mtu (Message ev bs) k =
     k\<lparr>cn_to := snd (fifo_call n (Put (take mtu bs)) (cn_to k))\<rparr>"
| "conn_step n mtu (WriteTurn ret) k =
     (if \<not> cn_running k then k else
      case cn_to k of [] \<Rightarrow> k
      | x # to \<Rightarrow>
          if cn_echo k then k\<lparr>cn_to := to, cn_from := snd (fifo_call n (Put x) (cn_from k))\<rparr>
          else k\<lparr>cn_to := to, cn_wire := cn_wire k @ [x]\<rparr>)"
| "conn_step n mtu ReadTurn k =
     (if \<not> cn_running k \<or> cn_echo k \<or> length (cn_from k) = n then k else
      case cn_net k of [] \<Rightarrow> k
      | f # net \<Rightarrow>
          if payload_of mtu f = [] then k\<lparr>cn_net := net, cn_running := False\<rparr>
          else k\<lparr>cn_net := net, cn_from := cn_from k @ [payload_of mtu f]\<rparr>)"
| "conn_step n mtu SendTurn k = k\<lparr>cn_from := tl (cn_from k)\<rparr>"
| "conn_step n mtu (Arrival f) k = k\<lparr>cn_net := cn_net k @ [f]\<rparr>"
| "conn_step n mtu _ k = k"

text \<open>What the event sends to the client.\<close>

fun conn_sends :: "'ip gw_event \<Rightarrow> conn \<Rightarrow> bytes list" where
  "conn_sends SendTurn k = take 1 (cn_from k)"
| "conn_sends _ k = []"

text \<open>The gateway: the connections, and the packets sent to clients so far.\<close>

type_synonym 'c gw = "('c \<rightharpoonup> conn) \<times> ('c \<times> bytes) list"

fun gw_step :: "nat \<Rightarrow> nat \<Rightarrow> 'c \<times> 'ip gw_event \<Rightarrow> 'c gw \<Rightarrow> 'c gw" where
  "gw_step n mtu (c, Init ev text ia) (conns, sent) =
     ((if conns c = None then conns(c \<mapsto> new_conn (isEcho ia)) else conns), sent)"
| "gw_step n mtu (c, Leave) (conns, sent) = (conns(c := None), sent)"
| "gw_step n mtu (c, e) (conns, sent) =
     (case conns c of None \<Rightarrow> (conns, sent)
      | Some k \<Rightarrow> (conns(c \<mapsto> conn_step n mtu e k), sent @ map (Pair c) (conn_sends e k)))"

definition gw_run :: "nat \<Rightarrow> nat \<Rightarrow> ('c \<times> 'ip gw_event) list \<Rightarrow> 'c gw \<Rightarrow> 'c gw" where
  "gw_run n mtu xs g = fold (gw_step n mtu) xs g"

text \<open>One connection seen alone.\<close>

definition view :: "'c \<Rightarrow> 'c gw \<Rightarrow> conn option \<times> bytes list" where
  "view c g = (fst g c, map snd (filter (\<lambda>x. fst x = c) (snd g)))"

definition of_conn :: "'c \<Rightarrow> ('c \<times> 'e) list \<Rightarrow> ('c \<times> 'e) list" where
  "of_conn c xs = filter (\<lambda>x. fst x = c) xs"

text \<open>
  An event of another connection does not change the view, and one of this connection
  depends on the view only.
\<close>

lemma gw_step_other:
  assumes "c' \<noteq> c"
  shows "view c (gw_step n mtu (c', e) g) = view c g"
  using assms
  by (cases "(n, mtu, (c', e), g)" rule: gw_step.cases)
    (auto simp: view_def split: option.splits)

lemma gw_step_own:
  assumes "view c g = view c g'"
  shows "view c (gw_step n mtu (c, e) g) = view c (gw_step n mtu (c, e) g')"
proof -
  obtain conns sent conns' sent' where g: "g = (conns, sent)" "g' = (conns', sent')"
    by (cases g; cases g') auto
  have "conns c = conns' c"
    "map snd (filter (\<lambda>x. fst x = c) sent) = map snd (filter (\<lambda>x. fst x = c) sent')"
    using assms by (simp_all add: g view_def)
  then show ?thesis by (cases e) (auto simp: g view_def filter_map comp_def split: option.splits)
qed

lemma gw_run_own:
  "view c g = view c g' \<Longrightarrow> view c (gw_run n mtu xs g) = view c (gw_run n mtu (of_conn c xs) g')"
proof (induction xs arbitrary: g g')
  case Nil
  then show ?case by (simp add: gw_run_def of_conn_def)
next
  case (Cons x xs)
  obtain c' e where x: "x = (c', e)" by (cases x)
  show ?case
  proof (cases "c' = c")
    case True
    have "view c (gw_step n mtu (c, e) g) = view c (gw_step n mtu (c, e) g')"
      by (rule gw_step_own [OF Cons.prems])
    from Cons.IH [OF this] True show ?thesis by (simp add: gw_run_def of_conn_def x)
  next
    case False
    have "view c (gw_step n mtu (c', e) g) = view c g'"
      using gw_step_other [OF False] Cons.prems by metis
    from Cons.IH [OF this] False show ?thesis by (simp add: gw_run_def of_conn_def x)
  qed
qed

section \<open>The program\<close>

text \<open>
  The server, and for each device (by its index) the frames that the kernel holds for its
  descriptor and the buffers that were handed to \<open>writev\<close>.
\<close>

record ('c, 'ip, 'q) gateway =
  gt_srv :: "('c, 'ip, 'q) TunaServer"
  gt_net :: "nat \<Rightarrow> bytes list"
  gt_wire :: "nat \<Rightarrow> bytes list list"

definition gateway_new :: "TunaTor \<Rightarrow> ('c, 'ip, 'q) gateway" where
  "gateway_new t = \<lparr>gt_srv = TunaServer_new t, gt_net = (\<lambda>_. []), gt_wire = (\<lambda>_. [])\<rparr>"

text \<open>
  What the descriptor answers to the read closure: the frame that came first, or that there
  is none, and then \<open>select\<close> times out. A frame that was read is gone.
\<close>

definition next_read :: "bytes list \<Rightarrow> tun_event" where
  "next_read net = (case net of
       [] \<Rightarrow> \<lparr>ev_readv = ReadvError, ev_again = True, ev_select = 0, ev_isset = False\<rparr>
     | f # _ \<Rightarrow> \<lparr>ev_readv = Frame f, ev_again = False, ev_select = 0, ev_isset = False\<rparr>)"

definition kernel_read :: "(bool \<times> bytes list) action" where
  "kernel_read pkt m e =
     ebind (from_tun_read [next_read (snd e)] pkt m (fst e)) (\<lambda>(ret, m', running).
       Inr (ret, m', running, tl (snd e)))"

text \<open>One turn of the read thread, with the kernel's frames before and after.\<close>

definition tun_read_turn ::
  "'q ring_api \<Rightarrow> ('ip, 'q) TunDevice \<Rightarrow> bytes list \<Rightarrow> (('ip, 'q) TunDevice \<times> bytes list) exec" where
  "tun_read_turn R tun net =
     ebind (push R kernel_read (idle_sleeps (td_fromTun tun)) (td_fromTun tun) (td_running tun, net))
       (\<lambda>(_, fromTun', running', net').
         Inr (tun\<lparr>td_fromTun := fromTun', td_running := running'\<rparr>, net'))"

text \<open>It is the turn of the device's model, with this answer as its script.\<close>

lemma kernel_read_forget:
  "ebind (kernel_read p m e) (\<lambda>(r, m', x). Inr (r, m', fst x)) = from_tun_read [next_read (snd e)] p m (fst e)"
  unfolding kernel_read_def ebind_assoc
  by (cases "from_tun_read [next_read (snd e)] p m (fst e)") (auto simp del: from_tun_read.simps)

lemma tun_read_turn_step:
  "from_tun_step R [next_read net] (idle_sleeps (td_fromTun tun)) tun =
     ebind (tun_read_turn R tun net) (\<lambda>(tun', _). Inr tun')"
proof -
  have "push R (from_tun_read [next_read net]) script pq running =
      ebind (push R kernel_read script pq (running, net)) (\<lambda>(r, pq', x). Inr (r, pq', fst x))" for script pq running
    using push_forget [where act = "from_tun_read [next_read net]" and act' = kernel_read and h = fst
        and e' = "(running, net)"] kernel_read_forget [where e = "(running, net)"]
    by simp
  then show ?thesis by (simp add: from_tun_step_def tun_read_turn_def ebind_assoc split_beta)
qed

text \<open>
  One event on the program. Calls get enough sleeps to give up on a full queue, and their
  first wait for a packet times out, so no turn waits for another one. The loops of the two
  device threads look at \<open>running\<close> before each turn; the recv loop looks after it, so it
  may have one turn more. \<open>th\<close> is the platform's \<open>tun_header\<close>.
\<close>

definition push_script :: "'c \<Rightarrow> ('c, 'ip, 'q) TunaServer \<Rightarrow> 'q sleeps" where
  "push_script c srv = (case ts_tunDevices srv c of
     None \<Rightarrow> [] | Some i \<Rightarrow> idle_sleeps (td_toTun (ts_heap srv ! i)))"

definition on_device ::
  "'c \<Rightarrow> (nat \<Rightarrow> ('c, 'ip, 'q) gateway \<Rightarrow> ('c, 'ip, 'q) gateway exec) \<Rightarrow> ('c, 'ip, 'q) gateway \<Rightarrow>
   ('c, 'ip, 'q) gateway exec" where
  "on_device c f g = (case ts_tunDevices (gt_srv g) c of None \<Rightarrow> Inr g | Some i \<Rightarrow> f i g)"

definition on_server ::
  "(('c, 'ip, 'q) TunaServer \<Rightarrow> ('c, 'ip, 'q) TunaServer exec) \<Rightarrow> ('c, 'ip, 'q) gateway \<Rightarrow>
   ('c, 'ip, 'q) gateway exec" where
  "on_server f g = ebind (f (gt_srv g)) (\<lambda>srv. Inr (g\<lparr>gt_srv := srv\<rparr>))"

definition write_turn ::
  "'q ring_api \<Rightarrow> (bytes \<Rightarrow> bytes \<Rightarrow> bytes) \<Rightarrow> int \<Rightarrow> nat \<Rightarrow> ('c, 'ip, 'q) gateway \<Rightarrow>
   ('c, 'ip, 'q) gateway exec" where
  "write_turn R th ret i g =
     (let srv = gt_srv g; tun = ts_heap srv ! i in
      if \<not> td_running tun then Inr g
      else if isEcho (td_ifAddrs tun) then
        on_server (device_turn i
          (\<lambda>tun. echo_step R (idle_sleeps (td_fromTun tun)) [(True, \<lambda>pq. pq)] tun)) g
      else
        ebind (to_tun_step R th ret [(True, \<lambda>pq. pq)] tun) (\<lambda>(tun', out).
          Inr (g\<lparr>gt_srv := srv\<lparr>ts_heap := (ts_heap srv)[i := tun']\<rparr>,
                 gt_wire := (gt_wire g)(i := gt_wire g i @ out)\<rparr>)))"

definition read_turn ::
  "'q ring_api \<Rightarrow> nat \<Rightarrow> ('c, 'ip, 'q) gateway \<Rightarrow> ('c, 'ip, 'q) gateway exec" where
  "read_turn R i g =
     (let srv = gt_srv g; tun = ts_heap srv ! i in
      if \<not> td_running tun \<or> isEcho (td_ifAddrs tun) then Inr g
      else
        ebind (tun_read_turn R tun (gt_net g i)) (\<lambda>(tun', net').
          Inr (g\<lparr>gt_srv := srv\<lparr>ts_heap := (ts_heap srv)[i := tun']\<rparr>,
                 gt_net := (gt_net g)(i := net')\<rparr>)))"

fun gateway_do ::
  "('j, 'ip, 'q) platform \<Rightarrow> (bytes \<Rightarrow> bytes \<Rightarrow> bytes) \<Rightarrow> 'c \<times> 'ip gw_event \<Rightarrow>
   ('c, 'ip, 'q) gateway \<Rightarrow> ('c, 'ip, 'q) gateway exec" where
  "gateway_do L th (c, Init ev text ia) g =
     on_server (onmessage L ev [] c \<lparr>ms_data = ''JSON'' @ text, ms_pos = 0\<rparr>) g"
| "gateway_do L th (c, Message ev bs) g =
     on_server (\<lambda>srv. onmessage L ev (push_script c srv) c \<lparr>ms_data = ''PAKT'' @ bs, ms_pos = 0\<rparr> srv) g"
| "gateway_do L th (c, WriteTurn ret) g = on_device c (write_turn (pf_ring L) th ret) g"
| "gateway_do L th (c, ReadTurn) g = on_device c (read_turn (pf_ring L)) g"
| "gateway_do L th (c, SendTurn) g =
     on_device c (\<lambda>i. on_server (recv_turn (pf_ring L) [(True, \<lambda>pq. pq)] i c)) g"
| "gateway_do L th (c, StatTurn ev) g = on_device c (\<lambda>i. on_server (stat_turn L ev i c)) g"
| "gateway_do L th (c, Arrival f) g =
     on_device c (\<lambda>i g. Inr (g\<lparr>gt_net := (gt_net g)(i := gt_net g i @ [f])\<rparr>)) g"
| "gateway_do L th (c, Leave) g = on_server (\<lambda>srv. ebind (disconnect c srv) (\<lambda>(srv', _). Inr srv')) g"

fun gateway_run ::
  "('j, 'ip, 'q) platform \<Rightarrow> (bytes \<Rightarrow> bytes \<Rightarrow> bytes) \<Rightarrow> ('c \<times> 'ip gw_event) list \<Rightarrow>
   ('c, 'ip, 'q) gateway \<Rightarrow> ('c, 'ip, 'q) gateway exec" where
  "gateway_run L th [] g = Inr g"
| "gateway_run L th (x # xs) g = ebind (gateway_do L th x g) (gateway_run L th xs)"

text \<open>
  The events considered: an \<open>init\<close> message carries the description it parses to, which asks
  for no more than the server's packet size and whose device starts; packets have a length
  that fits \<open>ssize_t\<close>; frames have their four header bytes.
\<close>

fun event_ok :: "('j, 'ip, 'q) platform \<Rightarrow> TunaTor \<Rightarrow> 'ip gw_event \<Rightarrow> bool" where
  "event_ok L t (Init ev text ia) \<longleftrightarrow>
     (\<exists>data. action_message L ev text ''init'' data \<and>
        IfAddrs_fromJson (pf_json L) (pf_ip L) data IfAddrs_new = Inr (True, ia)) \<and>
     ia_mtu ia \<le> ucast (tt_mtu t) \<and>
     (isEcho ia \<or> (\<exists>fd dev. tun_starts (pf_asCommands L) (ev_os ev) ia fd dev))"
| "event_ok L t (Message ev bs) \<longleftrightarrow> length bs < 2 ^ 63"
| "event_ok L t (Arrival f) \<longleftrightarrow> 4 \<le> length f"
| "event_ok L t _ \<longleftrightarrow> True"

section \<open>Simulation\<close>

text \<open>A connection and its device, and the packets among the frames that were sent.\<close>

definition conn_rel ::
  "'q ring_api \<Rightarrow> (bytes \<Rightarrow> bytes \<Rightarrow> bytes) \<Rightarrow> nat \<Rightarrow> nat \<Rightarrow> ('ip, 'q) TunDevice \<Rightarrow> bytes list \<Rightarrow>
   bytes list list \<Rightarrow> conn \<Rightarrow> bool" where
  "conn_rel R th n mtu tun net wire k \<longleftrightarrow>
     queue_ok R n mtu (td_toTun tun) \<and> queue_ok R n mtu (td_fromTun tun) \<and>
     pq_queue R (td_toTun tun) = cn_to k \<and> pq_queue R (td_fromTun tun) = cn_from k \<and>
     isEcho (td_ifAddrs tun) = cn_echo k \<and> td_running tun = cn_running k \<and>
     net = cn_net k \<and> wire = map (tun_write_iov th) (cn_wire k) \<and> (\<forall>f \<in> set net. 4 \<le> length f)"

definition packets_sent :: "'c frame list \<Rightarrow> ('c \<times> bytes) list" where
  "packets_sent fs = map (\<lambda>(c, bs, op). (c, drop 4 bs)) (filter (\<lambda>(c, bs, op). op = Some 130) fs)"

definition gw_rel ::
  "'q ring_api \<Rightarrow> (bytes \<Rightarrow> bytes \<Rightarrow> bytes) \<Rightarrow> TunaTor \<Rightarrow> ('c, 'ip, 'q) gateway \<Rightarrow> 'c gw \<Rightarrow> bool" where
  "gw_rel R th t g a \<longleftrightarrow> (let srv = gt_srv g in
     srv_ok R srv \<and> ts_tunaTor srv = t \<and> packets_sent (ts_sent srv) = snd a \<and>
     (\<forall>c. fst a c = None \<longleftrightarrow> ts_tunDevices srv c = None) \<and>
     (\<forall>c i k. ts_tunDevices srv c = Some i \<longrightarrow> fst a c = Some k \<longrightarrow>
        conn_rel R th (unat (tt_qSize t)) (unat (tt_mtu t)) (ts_heap srv ! i) (gt_net g i) (gt_wire g i) k) \<and>
     (\<forall>i \<ge> length (ts_heap srv). gt_net g i = [] \<and> gt_wire g i = []))"

lemma packets_sent_append: "packets_sent (xs @ ys) = packets_sent xs @ packets_sent ys"
  by (simp add: packets_sent_def)

lemma packets_sent_simps:
  "packets_sent (frames c bss) = map (Pair c) bss"
  "packets_sent [(c, bs, None)] = []"
  by (simp_all add: packets_sent_def frames_def filter_map comp_def)

lemma conn_rel_dev:
  assumes "conn_rel R th n mtu tun net wire k"
  shows "dev_ok R tun"
proof -
  have "unat (pb_mtu (pq_pb (td_fromTun tun))) = unat (pb_mtu (pq_pb (td_toTun tun)))"
    "pq_inv R (td_fromTun tun)" "pq_inv R (td_toTun tun)"
    using assms by (simp_all add: conn_rel_def queue_ok_def fifo_inv_def)
  then show ?thesis by (simp add: dev_ok_def word_unat_eq_iff)
qed

text \<open>A turn that changes one device leaves the other connections related.\<close>

lemma gw_rel_update:
  assumes rel: "gw_rel R th t g (conns, sent)" and c: "ts_tunDevices (gt_srv g) c = Some i"
    and th: "td_threads tun = td_threads (ts_heap (gt_srv g) ! i)"
    and k: "conn_rel R th (unat (tt_qSize t)) (unat (tt_mtu t)) tun net wire k"
    and fs: "packets_sent fs = map (Pair c) out"
  shows "gw_rel R th t
    (g\<lparr>gt_srv := (gt_srv g)\<lparr>ts_heap := (ts_heap (gt_srv g))[i := tun], ts_sent := ts_sent (gt_srv g) @ fs\<rparr>,
       gt_net := (gt_net g)(i := net), gt_wire := (gt_wire g)(i := wire)\<rparr>)
    (conns(c \<mapsto> k), sent @ map (Pair c) out)"
proof -
  let ?srv = "gt_srv g"
  have ok: "srv_ok R ?srv" using rel by (simp add: gw_rel_def Let_def)
  have i: "i < length (ts_heap ?srv)" using ok c by (auto simp: srv_ok_def)
  have j: "j \<noteq> i" if "ts_tunDevices ?srv c' = Some j" "c' \<noteq> c" for c' j
    using ok c that unfolding srv_ok_def by blast
  have "srv_ok R (?srv\<lparr>ts_heap := (ts_heap ?srv)[i := tun], ts_sent := ts_sent ?srv @ fs\<rparr>)"
    by (rule srv_ok_heap(2) [OF ok i conn_rel_dev [OF k] th])
  moreover have "conn_rel R th (unat (tt_qSize t)) (unat (tt_mtu t)) ((ts_heap ?srv)[i := tun] ! j)
      (((gt_net g)(i := net)) j) (((gt_wire g)(i := wire)) j) k'"
    if "ts_tunDevices ?srv c' = Some j" "(conns(c \<mapsto> k)) c' = Some k'" for c' j k'
  proof (cases "c' = c")
    case True
    then show ?thesis using that c k i by simp
  next
    case False
    then show ?thesis using that j [OF that(1) False] rel by (simp add: gw_rel_def Let_def)
  qed
  ultimately show ?thesis
    using rel c fs i by (auto simp: gw_rel_def Let_def packets_sent_append)
qed

text \<open>A packet from the client, for a connection with a device and for one without.\<close>

lemma onmessage_no_device:
  assumes "ts_tunDevices srv c = None" "length bs < 2 ^ 63"
  shows "onmessage L ev script c \<lparr>ms_data = ''PAKT'' @ bs, ms_pos = 0\<rparr> srv = Inr srv"
proof -
  have "wp_header (WsPacket_from \<lparr>ms_data = ''PAKT'' @ bs, ms_pos = 0\<rparr>) = ''PAKT''"
    by (subst from_header) (use assms(2) in simp_all)
  then show ?thesis using assms(1) by (simp add: onmessage_def Let_def)
qed

lemma gw_message:
  assumes rel: "gw_rel (pf_ring L) th t g (conns, sent)" and m: "0 < unat (tt_mtu t)"
    and bs: "length bs < 2 ^ 63"
  shows "\<exists>g'. gateway_do L th (c, Message ev bs) g = Inr g' \<and>
    gw_rel (pf_ring L) th t g' (gw_step (unat (tt_qSize t)) (unat (tt_mtu t)) (c, Message ev bs) (conns, sent))"
proof (cases "ts_tunDevices (gt_srv g) c")
  case None
  then have "conns c = None" using rel by (simp add: gw_rel_def Let_def)
  then show ?thesis
    using rel unfolding gateway_do.simps on_server_def onmessage_no_device [OF None bs] by simp
next
  case (Some i)
  let ?R = "pf_ring L" and ?tun = "ts_heap (gt_srv g) ! i"
  obtain k where k: "conns c = Some k" using rel Some by (cases "conns c") (simp_all add: gw_rel_def Let_def)
  have cr: "conn_rel ?R th (unat (tt_qSize t)) (unat (tt_mtu t)) ?tun (gt_net g i) (gt_wire g i) k"
    using rel Some k by (simp add: gw_rel_def Let_def)
  then have q: "queue_ok ?R (unat (tt_qSize t)) (unat (tt_mtu t)) (td_toTun ?tun)" by (simp add: conn_rel_def)
  from client_push [OF q bs m] obtain r to' e' where
    p: "push ?R copy_out_action (idle_sleeps (td_toTun ?tun)) (td_toTun ?tun) (pakt 0 bs) = Inr (r, to', e')"
      "queue_ok ?R (unat (tt_qSize t)) (unat (tt_mtu t)) to'"
      "pq_queue ?R to' = snd (fifo_call (unat (tt_qSize t)) (Put (take (unat (tt_mtu t)) bs))
         (pq_queue ?R (td_toTun ?tun)))"
    by (elim exE conjE)
  let ?k = "k\<lparr>cn_to := snd (fifo_call (unat (tt_qSize t)) (Put (take (unat (tt_mtu t)) bs)) (cn_to k))\<rparr>"
  have "conn_rel ?R th (unat (tt_qSize t)) (unat (tt_mtu t)) (?tun\<lparr>td_toTun := to'\<rparr>) (gt_net g i) (gt_wire g i) ?k"
    using cr p(2,3) by (simp add: conn_rel_def del: fifo_call.simps)
  note r = gw_rel_update [OF rel Some _ this, of "[]" "[]"]
  show ?thesis
    unfolding gateway_do.simps on_server_def push_script_def Some option.case onmessage_pakt [OF Some bs] p(1)
    using r by (simp add: k td_threads_def packets_sent_def del: fifo_call.simps)
qed

text \<open>A turn of the write thread in tun mode, and one of the read thread.\<close>

lemma to_tun_turn:
  assumes ok: "queue_ok R n mtu (td_toTun tun)"
  shows "\<exists>to' out. to_tun_step R th ret [(True, \<lambda>pq. pq)] tun = Inr (tun\<lparr>td_toTun := to'\<rparr>, out) \<and>
    queue_ok R n mtu to' \<and> (pq_queue R to', out) =
      (case pq_queue R (td_toTun tun) of [] \<Rightarrow> ([], []) | x # to \<Rightarrow> (to, [tun_write_iov th x]))"
proof -
  let ?to = "td_toTun tun" and ?act = "to_tun_write th ret"
  have inv: "fifo_inv R ?to" using ok by (simp add: queue_ok_def)
  show ?thesis
  proof (cases "pq_queue R ?to")
    case Nil
    obtain to' where p: "pop R ?act [(True, \<lambda>pq. pq)] ?to [] = Inr (False, to', [])" "fifo_inv R to'"
      "pq_queue R to' = []" "same_shape ?to to'"
      using pop_times_out [where act = ?act and e = "[]", OF inv Nil] by (elim exE conjE)
    have "queue_ok R n mtu to'" by (rule queue_ok_shape [OF ok p(2,4)])
    then show ?thesis
      using p(1,3) Nil by (intro exI [of _ to'] exI [of _ "[]"]) (simp add: to_tun_step_def)
  next
    case (Cons x rest)
    have "\<exists>to'. pop R ?act [(True, \<lambda>pq. pq)] ?to [] = Inr (True, to', [tun_write_iov th x]) \<and>
        fifo_inv R to' \<and> pq_queue R to' = rest \<and> same_shape ?to to'"
      by (rule pop_takes [where ret = "word_of_int (tun_result ret)", OF inv Cons])
        (simp add: to_tun_write_def)
    then obtain to' where p: "pop R ?act [(True, \<lambda>pq. pq)] ?to [] = Inr (True, to', [tun_write_iov th x])"
      "fifo_inv R to'" "pq_queue R to' = rest" "same_shape ?to to'"
      by (elim exE conjE)
    have "queue_ok R n mtu to'" by (rule queue_ok_shape [OF ok p(2,4)])
    then show ?thesis
      using p(1,3) Cons by (intro exI [of _ to'] exI [of _ "[tun_write_iov th x]"]) (simp add: to_tun_step_def)
  qed
qed

lemma kernel_read_contract: "push_contract kernel_read"
  using from_tun_read_contract
  by (fastforce simp: push_contract_def kernel_read_def ebind_eq_Inr simp del: from_tun_read.simps)

lemma kernel_read_returns: "kernel_read p m e \<noteq> Inl Blocked"
  by (auto simp: kernel_read_def next_read_def Let_def ebind_eq_Inl mem_write_def
      split: list.splits prod.splits if_splits)

lemma kernel_read_empty:
  "unat (buf p) \<le> length m \<Longrightarrow> kernel_read p m (running, []) = Inr (0, m, running, [])"
  by (simp add: kernel_read_def next_read_def tun_read_def tun_result_def mem_write_Nil)

lemma kernel_read_stop:
  "length f = 4 \<Longrightarrow> unat (buf p) \<le> length m \<Longrightarrow>
     kernel_read p m (running, f # net) = Inr (0, m, False, net)"
  by (simp add: kernel_read_def next_read_def tun_read_cut mem_write_Nil)

lemma kernel_read_frame:
  assumes "4 \<le> length f" "payload_of mtu f \<noteq> []" "unat (maxSize p) = mtu"
  shows "kernel_read p m (running, f # net) = mem_store (payload_of mtu f) p m (running, net)"
  using assms
  by (cases "take mtu (drop 4 f)")
    (simp_all add: kernel_read_def next_read_def tun_read_cut payload_of_def mem_store_def ebind_assoc)

lemma tun_read_turn_conn:
  assumes ok: "queue_ok R n mtu (td_fromTun tun)" and m: "0 < mtu" and net: "\<forall>f \<in> set net. 4 \<le> length f"
  shows "\<exists>fr' run' net'. tun_read_turn R tun net =
      Inr (tun\<lparr>td_fromTun := fr', td_running := run'\<rparr>, net') \<and> queue_ok R n mtu fr' \<and>
    (pq_queue R fr', run', net') = (let q = pq_queue R (td_fromTun tun) in
      if length q = n then (q, td_running tun, net) else
      case net of [] \<Rightarrow> (q, td_running tun, []) | f # fs \<Rightarrow>
        if payload_of mtu f = [] then (q, False, fs) else (q @ [payload_of mtu f], td_running tun, fs))"
proof -
  let ?fr = "td_fromTun tun" and ?run = "td_running tun"
  let ?push = "\<lambda>e. push R kernel_read (idle_sleeps ?fr) ?fr e"
  have inv: "fifo_inv R ?fr" and n: "capacity (pq_pb ?fr) = n" and mtu: "unat (pb_mtu (pq_pb ?fr)) = mtu"
    using ok by (simp_all add: queue_ok_def)
  note unfilled = push_brings_nothing [where act = kernel_read and script = "idle_sleeps ?fr", OF inv _ kernel_read_contract]
  have result: ?thesis
    if "?push (?run, net) = Inr (r, fr', run', net')" "fifo_inv R fr'" "same_shape ?fr fr'"
      "(pq_queue R fr', run', net') = (let q = pq_queue R ?fr in
        if length q = n then (q, ?run, net) else
        case net of [] \<Rightarrow> (q, ?run, []) | f # fs \<Rightarrow>
          if payload_of mtu f = [] then (q, False, fs) else (q @ [payload_of mtu f], ?run, fs))"
    for r fr' run' net'
    using that queue_ok_shape [OF ok that(2,3)]
    by (intro exI [of _ fr'] exI [of _ run'] exI [of _ net']) (simp add: tun_read_turn_def)
  show ?thesis
  proof (cases "length (pq_queue R ?fr) = n")
    case True
    then have "length (pq_queue R ?fr) = capacity (pq_pb ?fr)" using n by simp
    from push_gives_up [where act = kernel_read and e = "(?run, net)", OF inv kernel_read_returns this] obtain fr' where
      p: "?push (?run, net) = Inr (False, fr', ?run, net)" "fifo_inv R fr'" "same_shape ?fr fr'"
      "pq_queue R fr' = pq_queue R ?fr"
      by (elim exE conjE)
    show ?thesis by (rule result [OF p(1-3)]) (use True p(4) in simp)
  next
    case room: False
    then have ne: "length (pq_queue R ?fr) \<noteq> capacity (pq_pb ?fr)" using n by simp
    show ?thesis
    proof (cases net)
      case Nil
      have "\<exists>fr'. ?push (?run, []) = Inr (False, fr', ?run, []) \<and> fifo_inv R fr' \<and>
          pq_queue R fr' = pq_queue R ?fr \<and> same_shape ?fr fr'"
        by (rule unfilled [OF ne]) (rule kernel_read_empty)
      then obtain fr' where
        p: "?push (?run, []) = Inr (False, fr', ?run, [])" "fifo_inv R fr'" "same_shape ?fr fr'"
        "pq_queue R fr' = pq_queue R ?fr"
        by (elim exE conjE)
      show ?thesis unfolding Nil by (rule result [unfolded Nil, OF p(1-3)]) (use room p(4) in simp)
    next
      case (Cons f fs)
      have f: "4 \<le> length f" using net Cons by simp
      show ?thesis
      proof (cases "payload_of mtu f = []")
        case True
        then have "length f = 4" using f m by (simp add: payload_of_def)
        then have "\<exists>fr'. ?push (?run, f # fs) = Inr (False, fr', False, fs) \<and> fifo_inv R fr' \<and>
            pq_queue R fr' = pq_queue R ?fr \<and> same_shape ?fr fr'"
          by (intro unfilled [OF ne] kernel_read_stop)
        then obtain fr' where p: "?push (?run, f # fs) = Inr (False, fr', False, fs)" "fifo_inv R fr'"
          "same_shape ?fr fr'" "pq_queue R fr' = pq_queue R ?fr"
          by (elim exE conjE)
        show ?thesis unfolding Cons by (rule result [unfolded Cons, OF p(1-3)]) (use room True p(4) in simp)
      next
        case False
        have "length (pq_queue R ?fr) < capacity (pq_pb ?fr)"
          using queue_fifo.bounded [OF inv] ne by simp
        moreover have "length (payload_of mtu f) \<le> unat (pb_mtu (pq_pb ?fr))"
          by (simp add: payload_of_def mtu)
        ultimately have "\<exists>fr'. ?push (?run, f # fs) = Inr (True, fr', ?run, fs) \<and> fifo_inv R fr' \<and>
            pq_queue R fr' = pq_queue R ?fr @ [payload_of mtu f] \<and> same_shape ?fr fr'"
          using kernel_read_frame [OF f False] mtu by (intro push_stores [OF inv False]) simp_all
        then obtain fr' where p: "?push (?run, f # fs) = Inr (True, fr', ?run, fs)" "fifo_inv R fr'"
          "same_shape ?fr fr'" "pq_queue R fr' = pq_queue R ?fr @ [payload_of mtu f]"
          by (elim exE conjE)
        show ?thesis unfolding Cons by (rule result [unfolded Cons, OF p(1-3)]) (use room False p(4) in simp)
      qed
    qed
  qed
qed

text \<open>
  The events that reach the device of a connection. What one of them must do to the device
  is stated once; the turns of the five threads and the arrival of a frame do it.
\<close>

definition turn_ok ::
  "'q ring_api \<Rightarrow> (bytes \<Rightarrow> bytes \<Rightarrow> bytes) \<Rightarrow> nat \<Rightarrow> nat \<Rightarrow> 'c \<Rightarrow> nat \<Rightarrow> ('c, 'ip, 'q) gateway \<Rightarrow>
   ('c, 'ip, 'q) gateway exec \<Rightarrow> conn \<Rightarrow> bytes list \<Rightarrow> bool" where
  "turn_ok R th n mtu c i g res k out \<longleftrightarrow> (\<exists>tun net wire fs.
     res = Inr (g\<lparr>gt_srv := (gt_srv g)\<lparr>ts_heap := (ts_heap (gt_srv g))[i := tun],
                                     ts_sent := ts_sent (gt_srv g) @ fs\<rparr>,
                  gt_net := (gt_net g)(i := net), gt_wire := (gt_wire g)(i := wire)\<rparr>) \<and>
     td_threads tun = td_threads (ts_heap (gt_srv g) ! i) \<and>
     conn_rel R th n mtu tun net wire k \<and> packets_sent fs = map (Pair c) out)"

lemma turn_okI:
  assumes "res = Inr (g\<lparr>gt_srv := (gt_srv g)\<lparr>ts_heap := (ts_heap (gt_srv g))[i := tun],
                                     ts_sent := ts_sent (gt_srv g) @ fs\<rparr>,
                  gt_net := (gt_net g)(i := net), gt_wire := (gt_wire g)(i := wire)\<rparr>)"
    "td_threads tun = td_threads (ts_heap (gt_srv g) ! i)"
    "conn_rel R th n mtu tun net wire k" "packets_sent fs = map (Pair c) out"
  shows "turn_ok R th n mtu c i g res k out"
  unfolding turn_ok_def using assms by (intro exI conjI)

lemma turn_nothing:
  assumes "conn_rel R th n mtu (ts_heap (gt_srv g) ! i) (gt_net g i) (gt_wire g i) k"
  shows "turn_ok R th n mtu c i g (Inr g) k []"
  by (rule turn_okI [where fs = "[]", OF _ refl assms]) (simp_all add: packets_sent_def)

lemma turn_write:
  assumes k: "conn_rel R th n mtu (ts_heap (gt_srv g) ! i) (gt_net g i) (gt_wire g i) k"
  shows "turn_ok R th n mtu c i g (write_turn R th ret i g) (conn_step n mtu (WriteTurn ret :: 'ip gw_event) k) []"
proof -
  let ?tun = "ts_heap (gt_srv g) ! i"
  have q: "queue_ok R n mtu (td_toTun ?tun)" "queue_ok R n mtu (td_fromTun ?tun)"
    and e: "isEcho (td_ifAddrs ?tun) = cn_echo k" "td_running ?tun = cn_running k"
    "pq_queue R (td_toTun ?tun) = cn_to k" "pq_queue R (td_fromTun ?tun) = cn_from k"
    using k by (simp_all add: conn_rel_def)
  show ?thesis
  proof (cases "cn_running k")
    case False
    with turn_nothing [OF k] e(2) show ?thesis by (simp add: write_turn_def Let_def)
  next
    case run: True
    show ?thesis
    proof (cases "cn_echo k")
      case True
      obtain to' fr' where s: "echo_step R (idle_sleeps (td_fromTun ?tun)) [(True, \<lambda>pq. pq)] ?tun =
          Inr (?tun\<lparr>td_toTun := to', td_fromTun := fr'\<rparr>)" "queue_ok R n mtu to'" "queue_ok R n mtu fr'"
        "(pq_queue R to', pq_queue R fr', []) = pipe_step n mtu EchoTurn (cn_to k, cn_from k, [])"
        using echo_turn [OF q, of "[]"] unfolding e by (elim exE conjE)
      have "write_turn R th ret i g = Inr (g\<lparr>gt_srv := (gt_srv g)
          \<lparr>ts_heap := (ts_heap (gt_srv g))[i := ?tun\<lparr>td_toTun := to', td_fromTun := fr'\<rparr>],
           ts_sent := ts_sent (gt_srv g) @ []\<rparr>,
          gt_net := (gt_net g)(i := gt_net g i), gt_wire := (gt_wire g)(i := gt_wire g i)\<rparr>)"
        using run True e by (simp add: write_turn_def on_server_def device_turn_def Let_def s(1))
      then show ?thesis
        by (rule turn_okI) (use k s(2-4) run True in
          \<open>auto simp: conn_rel_def td_threads_def packets_sent_def split: list.splits simp del: fifo_call.simps\<close>)
    next
      case False
      obtain to' out where s: "to_tun_step R th ret [(True, \<lambda>pq. pq)] ?tun = Inr (?tun\<lparr>td_toTun := to'\<rparr>, out)"
        "queue_ok R n mtu to'" "(pq_queue R to', out) =
          (case cn_to k of [] \<Rightarrow> ([], []) | x # to \<Rightarrow> (to, [tun_write_iov th x]))"
        using to_tun_turn [OF q(1), of th ret] unfolding e by (elim exE conjE)
      have "write_turn R th ret i g = Inr (g\<lparr>gt_srv := (gt_srv g)
          \<lparr>ts_heap := (ts_heap (gt_srv g))[i := ?tun\<lparr>td_toTun := to'\<rparr>],
           ts_sent := ts_sent (gt_srv g) @ []\<rparr>,
          gt_net := (gt_net g)(i := gt_net g i), gt_wire := (gt_wire g)(i := gt_wire g i @ out)\<rparr>)"
        using run False e by (simp add: write_turn_def Let_def s(1))
      then show ?thesis
        by (rule turn_okI) (use k s(2,3) run False in
          \<open>auto simp: conn_rel_def td_threads_def packets_sent_def split: list.splits\<close>)
    qed
  qed
qed

lemma turn_read:
  assumes k: "conn_rel R th n mtu (ts_heap (gt_srv g) ! i) (gt_net g i) (gt_wire g i) k" and m: "0 < mtu"
  shows "turn_ok R th n mtu c i g (read_turn R i g) (conn_step n mtu (ReadTurn :: 'ip gw_event) k) []"
proof -
  let ?tun = "ts_heap (gt_srv g) ! i"
  have q: "queue_ok R n mtu (td_fromTun ?tun)" and net: "\<forall>f \<in> set (gt_net g i). 4 \<le> length f"
    and e: "isEcho (td_ifAddrs ?tun) = cn_echo k" "td_running ?tun = cn_running k"
    "pq_queue R (td_fromTun ?tun) = cn_from k" "gt_net g i = cn_net k"
    using k by (simp_all add: conn_rel_def)
  show ?thesis
  proof (cases "\<not> cn_running k \<or> cn_echo k")
    case True
    with turn_nothing [OF k] e(1,2) show ?thesis by (auto simp: read_turn_def Let_def)
  next
    case False
    obtain fr' run' net' where s: "tun_read_turn R ?tun (gt_net g i) =
        Inr (?tun\<lparr>td_fromTun := fr', td_running := run'\<rparr>, net')" "queue_ok R n mtu fr'"
      "(pq_queue R fr', run', net') = (let q = cn_from k in
        if length q = n then (q, cn_running k, cn_net k) else
        case cn_net k of [] \<Rightarrow> (q, cn_running k, []) | f # fs \<Rightarrow>
          if payload_of mtu f = [] then (q, False, fs) else (q @ [payload_of mtu f], cn_running k, fs))"
      using tun_read_turn_conn [OF q m net] unfolding e by (elim exE conjE)
    have net': "set net' \<subseteq> set (gt_net g i)"
      using s(3) by (auto simp: Let_def e split: if_splits list.splits)
    have a: "read_turn R i g = Inr (g\<lparr>gt_srv := (gt_srv g)
        \<lparr>ts_heap := (ts_heap (gt_srv g))[i := ?tun\<lparr>td_fromTun := fr', td_running := run'\<rparr>],
         ts_sent := ts_sent (gt_srv g) @ []\<rparr>,
        gt_net := (gt_net g)(i := net'), gt_wire := (gt_wire g)(i := gt_wire g i)\<rparr>)"
      using False e(1,2) s(1) by (simp add: read_turn_def Let_def)
    have b: "conn_rel R th n mtu (?tun\<lparr>td_fromTun := fr', td_running := run'\<rparr>) net' (gt_wire g i)
        (conn_step n mtu (ReadTurn :: 'ip gw_event) k)"
      using k s(2,3) False net net' by (auto simp: conn_rel_def Let_def split: if_splits list.splits)
    show ?thesis by (rule turn_okI [OF a _ b]) (simp_all add: td_threads_def packets_sent_def)
  qed
qed

lemma turn_send:
  assumes k: "conn_rel R th n mtu (ts_heap (gt_srv g) ! i) (gt_net g i) (gt_wire g i) k"
  shows "turn_ok R th n mtu c i g (on_server (recv_turn R [(True, \<lambda>pq. pq)] i c) g)
    (conn_step n mtu (SendTurn :: 'ip gw_event) k) (conn_sends (SendTurn :: 'ip gw_event) k)"
proof -
  let ?tun = "ts_heap (gt_srv g) ! i"
  have q: "queue_ok R n mtu (td_fromTun ?tun)" and e: "pq_queue R (td_fromTun ?tun) = cn_from k"
    using k by (simp_all add: conn_rel_def)
  obtain r fr' bss where s: "pop R (recv_action c) [(True, \<lambda>pq. pq)] (td_fromTun ?tun) (ts_sent (gt_srv g)) =
      Inr (r, fr', ts_sent (gt_srv g) @ frames c bss)" "queue_ok R n mtu fr'"
    "([], pq_queue R fr', [] @ bss) = pipe_step n mtu RecvTurn ([], cn_from k, [])"
    using recv_pop [OF q, of c "ts_sent (gt_srv g)" "[]" "[]"] unfolding e by (elim exE conjE)
  have a: "on_server (recv_turn R [(True, \<lambda>pq. pq)] i c) g = Inr (g\<lparr>gt_srv := (gt_srv g)
      \<lparr>ts_heap := (ts_heap (gt_srv g))[i := ?tun\<lparr>td_fromTun := fr'\<rparr>],
       ts_sent := ts_sent (gt_srv g) @ frames c bss\<rparr>,
      gt_net := (gt_net g)(i := gt_net g i), gt_wire := (gt_wire g)(i := gt_wire g i)\<rparr>)"
    by (simp add: on_server_def recv_turn_def Let_def s(1))
  have b: "conn_rel R th n mtu (?tun\<lparr>td_fromTun := fr'\<rparr>) (gt_net g i) (gt_wire g i)
      (conn_step n mtu (SendTurn :: 'ip gw_event) k)" "bss = conn_sends (SendTurn :: 'ip gw_event) k"
    using k s(2,3) by (cases "cn_from k"; simp add: conn_rel_def)+
  show ?thesis
    by (rule turn_okI [OF a _ b(1)]) (simp_all add: td_threads_def packets_sent_simps b(2))
qed

lemma queue_ok_reported:
  assumes "queue_ok R n mtu pq" "pq_inv R pq'" "pq_pb pq' = pq_pb pq" "pq_blockWait pq' = pq_blockWait pq"
  shows "queue_ok R n mtu pq'"
  using assms by (simp add: queue_ok_def fifo_inv_def)

lemma turn_stat:
  assumes J: "json_laws (pf_json L)"
    and k: "conn_rel (pf_ring L) th n mtu (ts_heap (gt_srv g) ! i) (gt_net g i) (gt_wire g i) k"
  shows "turn_ok (pf_ring L) th n mtu c i g (on_server (stat_turn L ev i c) g) k []"
proof (cases "td_running (ts_heap (gt_srv g) ! i)")
  case False
  with turn_nothing [OF k] show ?thesis by (simp add: on_server_def stat_turn_def)
next
  case True
  let ?tun = "ts_heap (gt_srv g) ! i"
  obtain tun' bs where s: "sendTun L ev ''stat-res'' ?tun c (gt_srv g) =
      Inr (tun', (gt_srv g)\<lparr>ts_sent := ts_sent (gt_srv g) @ [(c, ''JSON'' @ bs, None)]\<rparr>)"
    using sendTun_ok [where L = L and ev = ev and msg = "''stat-res''" and c = c and srv = "gt_srv g"
        and tun = ?tun, OF J] by (elim exE)
  have r: "reported (pf_ring L) ?tun tun'" by (rule sendTun_keeps(1) [OF s conn_rel_dev [OF k]])
  have a: "on_server (stat_turn L ev i c) g = Inr (g\<lparr>gt_srv := (gt_srv g)
      \<lparr>ts_heap := (ts_heap (gt_srv g))[i := tun'], ts_sent := ts_sent (gt_srv g) @ [(c, ''JSON'' @ bs, None)]\<rparr>,
      gt_net := (gt_net g)(i := gt_net g i), gt_wire := (gt_wire g)(i := gt_wire g i)\<rparr>)"
    using True by (simp add: on_server_def stat_turn_def s)
  have b: "conn_rel (pf_ring L) th n mtu tun' (gt_net g i) (gt_wire g i) k"
    using k r by (auto simp: conn_rel_def reported_def dev_ok_def intro: queue_ok_reported)
  show ?thesis
    by (rule turn_okI [OF a _ b]) (use r in \<open>simp_all add: reported_def packets_sent_simps\<close>)
qed

lemma turn_arrival:
  assumes k: "conn_rel R th n mtu (ts_heap (gt_srv g) ! i) (gt_net g i) (gt_wire g i) k"
    and f: "4 \<le> length f"
  shows "turn_ok R th n mtu c i g (Inr (g\<lparr>gt_net := (gt_net g)(i := gt_net g i @ [f])\<rparr>))
    (conn_step n mtu (Arrival f :: 'ip gw_event) k) []"
proof (rule turn_okI [where fs = "[]"])
  show "conn_rel R th n mtu (ts_heap (gt_srv g) ! i) (gt_net g i @ [f]) (gt_wire g i)
      (conn_step n mtu (Arrival f :: 'ip gw_event) k)"
    using k f by (simp add: conn_rel_def)
qed (simp_all add: packets_sent_def)

lemma gw_step_device:
  assumes "\<And>ev text ia. e \<noteq> Init ev text ia" "e \<noteq> Leave"
  shows "gw_step n mtu (c, e) (conns, sent) = (case conns c of None \<Rightarrow> (conns, sent)
    | Some k \<Rightarrow> (conns(c \<mapsto> conn_step n mtu e k), sent @ map (Pair c) (conn_sends e k)))"
  using assms by (cases e) (auto simp del: conn_step.simps conn_sends.simps)

lemma gw_on_device:
  fixes e :: "'ip gw_event" and g :: "('c, 'ip, 'q) gateway"
  assumes rel: "gw_rel R th t g (conns, sent)"
    and turn: "\<And>i k. ts_tunDevices (gt_srv g) c = Some i \<Longrightarrow>
      conn_rel R th (unat (tt_qSize t)) (unat (tt_mtu t)) (ts_heap (gt_srv g) ! i) (gt_net g i) (gt_wire g i) k \<Longrightarrow>
      turn_ok R th (unat (tt_qSize t)) (unat (tt_mtu t)) c i g (f i g)
        (conn_step (unat (tt_qSize t)) (unat (tt_mtu t)) e k) (conn_sends e k)"
    and e: "\<And>ev text ia. e \<noteq> Init ev text ia" "e \<noteq> Leave"
  shows "\<exists>g'. on_device c f g = Inr g' \<and>
    gw_rel R th t g' (gw_step (unat (tt_qSize t)) (unat (tt_mtu t)) (c, e) (conns, sent))"
proof -
  let ?n = "unat (tt_qSize t)" and ?mtu = "unat (tt_mtu t)"
  have st: "gw_step ?n ?mtu (c, e) (conns, sent) = (case conns c of None \<Rightarrow> (conns, sent)
      | Some k \<Rightarrow> (conns(c \<mapsto> conn_step ?n ?mtu e k), sent @ map (Pair c) (conn_sends e k)))"
    by (rule gw_step_device [OF e])
  show ?thesis
  proof (cases "ts_tunDevices (gt_srv g) c")
    case None
    then have "conns c = None" using rel by (simp add: gw_rel_def Let_def)
    then show ?thesis using rel unfolding st by (simp add: on_device_def None)
  next
    case (Some i)
    obtain k where k: "conns c = Some k" using rel Some by (cases "conns c") (simp_all add: gw_rel_def Let_def)
    have "conn_rel R th ?n ?mtu (ts_heap (gt_srv g) ! i) (gt_net g i) (gt_wire g i) k"
      using rel Some k by (simp add: gw_rel_def Let_def)
    from turn [OF Some this] obtain tun net wire fs where
      "f i g = Inr (g\<lparr>gt_srv := (gt_srv g)\<lparr>ts_heap := (ts_heap (gt_srv g))[i := tun],
                                     ts_sent := ts_sent (gt_srv g) @ fs\<rparr>,
                  gt_net := (gt_net g)(i := net), gt_wire := (gt_wire g)(i := wire)\<rparr>)"
      and o: "td_threads tun = td_threads (ts_heap (gt_srv g) ! i)"
      "conn_rel R th ?n ?mtu tun net wire (conn_step ?n ?mtu e k)"
      "packets_sent fs = map (Pair c) (conn_sends e k)"
      unfolding turn_ok_def by (elim exE conjE)
    then show ?thesis
      using gw_rel_update [OF rel Some o] unfolding st on_device_def Some k option.case by (intro exI conjI)
  qed
qed

lemma gw_leave:
  assumes R: "ring_laws R" and rel: "gw_rel R th t g (conns, sent)"
  shows "\<exists>g'. on_server (\<lambda>srv. ebind (disconnect c srv) (\<lambda>(srv', _). Inr srv')) g = Inr g' \<and>
    gw_rel R th t g' (conns(c := None), sent)"
proof (cases "ts_tunDevices (gt_srv g) c")
  case None
  then have "conns c = None" using rel by (simp add: gw_rel_def Let_def)
  then show ?thesis using rel by (simp add: on_server_def disconnect_def None fun_upd_idem)
next
  case (Some i)
  let ?srv = "gt_srv g"
  let ?srv' = "?srv\<lparr>ts_heap := (ts_heap ?srv)[i := stopped (ts_heap ?srv ! i)],
      ts_tunDevices := (ts_tunDevices ?srv)(c := None)\<rparr>"
  have ok: "srv_ok R ?srv" using rel by (simp add: gw_rel_def Let_def)
  note d = disconnect_eq [OF ok Some]
  have j: "j \<noteq> i" if "ts_tunDevices ?srv c' = Some j" "c' \<noteq> c" for c' j
    using ok Some that unfolding srv_ok_def by blast
  have "srv_ok R ?srv'" by (rule disconnect_ok [OF ok d])
  moreover have "conn_rel R th (unat (tt_qSize t)) (unat (tt_mtu t))
      ((ts_heap ?srv)[i := stopped (ts_heap ?srv ! i)] ! j) (gt_net g j) (gt_wire g j) k"
    if "ts_tunDevices ?srv c' = Some j" "c' \<noteq> c" "conns c' = Some k" for c' j k
    using j [OF that(1,2)] that(1,3) rel by (simp add: gw_rel_def Let_def)
  ultimately have "gw_rel R th t (g\<lparr>gt_srv := ?srv'\<rparr>) (conns(c := None), sent)"
    using rel by (auto simp: gw_rel_def Let_def)
  then show ?thesis by (simp add: on_server_def d)
qed

text \<open>A new device, for a connection that has none; a second \<open>init\<close> changes no connection.\<close>

lemma new_device_conn:
  assumes R: "ring_laws R" and d: "new_device R mtu qSize ia tun"
  shows "conn_rel R th (unat qSize) (unat mtu) tun [] [] (new_conn (isEcho ia))"
proof -
  have "queue_ok R (unat qSize) (unat mtu) (td_toTun tun)" "queue_ok R (unat qSize) (unat mtu) (td_fromTun tun)"
    using R d unat16_less [of mtu]
    by (auto simp: queue_ok_def fifo_inv_def new_device_def dev_ok_def)
  then show ?thesis using d by (simp add: conn_rel_def new_device_def new_conn_def)
qed

lemma init_starts:
  assumes e: "event_ok L t (Init ev text ia)"
  obtains dev fd where "start (pf_asCommands L) (ev_os ev) (init_device R ev t ia) =
      Inr (True, (init_device R ev t ia)\<lparr>td_running := True, td_tunDevName := dev, td_tunFd := fd,
        td_fromTunThread := Some Joinable, td_toTunThread := Some Joinable\<rparr>)"
proof -
  have mtu: "ia_mtu ia \<le> ucast (tt_mtu t)" using e by simp
  show thesis
  proof (cases "isEcho ia")
    case True
    with start_init_echo [OF True mtu, of "pf_asCommands L" "ev_os ev" R ev]
    show thesis by (intro that [where dev = "''echo''" and fd = "td_tunFd (init_device R ev t ia)"]) simp
  next
    case False
    then obtain fd dev where "tun_starts (pf_asCommands L) (ev_os ev) ia fd dev" using e by auto
    from start_init_tun [OF False mtu this, of R ev] show thesis by (rule that)
  qed
qed

lemma gw_init:
  fixes ia :: "'ip IfAddrs" and g :: "('c, 'ip, 'q) gateway"
  assumes laws: "ring_laws (pf_ring L)" "json_laws (pf_json L)"
    and rel: "gw_rel (pf_ring L) th t g (conns, sent)" and e: "event_ok L t (Init ev text ia)"
  shows "\<exists>g'. gateway_do L th (c, Init ev text ia) g = Inr g' \<and>
    gw_rel (pf_ring L) th t g' (gw_step n mtu (c, Init ev text ia) (conns, sent))"
proof -
  let ?R = "pf_ring L" and ?srv = "gt_srv g"
  let ?i = "length (ts_heap ?srv)"
  have ok: "srv_ok ?R ?srv" and t: "ts_tunaTor ?srv = t" using rel by (simp_all add: gw_rel_def Let_def)
  obtain data where d: "action_message L ev text ''init'' data"
    "IfAddrs_fromJson (pf_json L) (pf_ip L) data IfAddrs_new = Inr (True, ia)"
    using e by auto
  obtain dev fd where "start (pf_asCommands L) (ev_os ev) (init_device ?R ev t ia) =
      Inr (True, (init_device ?R ev t ia)\<lparr>td_running := True, td_tunDevName := dev, td_tunFd := fd,
        td_fromTunThread := Some Joinable, td_toTunThread := Some Joinable\<rparr>)"
    by (rule init_starts [OF e])
  from actionInit_new [where srv = ?srv and c = c, OF laws d(2), unfolded t, OF this] obtain tun bs where
    nd: "new_device ?R (tt_mtu t) (tt_qSize t) ia tun" and
    a: "actionInit L ev data c ?srv = Inr (?srv\<lparr>ts_tunDevices := (if c \<in> dom (ts_tunDevices ?srv)
        then ts_tunDevices ?srv else (ts_tunDevices ?srv)(c \<mapsto> ?i)),
      ts_heap := ts_heap ?srv @ [tun], ts_sent := ts_sent ?srv @ [(c, ''JSON'' @ bs, None)]\<rparr>)"
    by (elim exE conjE)
  let ?srv' = "?srv\<lparr>ts_tunDevices := (if c \<in> dom (ts_tunDevices ?srv)
        then ts_tunDevices ?srv else (ts_tunDevices ?srv)(c \<mapsto> ?i)),
      ts_heap := ts_heap ?srv @ [tun], ts_sent := ts_sent ?srv @ [(c, ''JSON'' @ bs, None)]\<rparr>"
  have ok': "srv_ok ?R ?srv'" by (rule actionInit_ok [OF laws(1) ok a])
  have j: "j < ?i" if "ts_tunDevices ?srv c' = Some j" for c' j
    using ok that by (auto simp: srv_ok_def)
  note cn = new_device_conn [OF laws(1) nd, of th]
  have "gw_rel ?R th t (g\<lparr>gt_srv := ?srv'\<rparr>)
      ((if conns c = None then conns(c \<mapsto> new_conn (isEcho ia)) else conns), sent)"
    using rel ok' cn by (auto simp: gw_rel_def Let_def packets_sent_append packets_sent_simps dom_def nth_append dest: j)
  then show ?thesis
    unfolding gateway_do.simps on_server_def onmessage_init [OF d(1)] a by simp
qed

text \<open>One event, and a run.\<close>

lemma gw_simulation:
  assumes laws: "ring_laws (pf_ring L)" "json_laws (pf_json L)" and m: "0 < unat (tt_mtu t)"
    and rel: "gw_rel (pf_ring L) th t g a" and e: "event_ok L t (snd x)"
  shows "\<exists>g'. gateway_do L th x g = Inr g' \<and>
    gw_rel (pf_ring L) th t g' (gw_step (unat (tt_qSize t)) (unat (tt_mtu t)) x a)"
proof -
  obtain c ev where x: "x = (c, ev)" by (cases x)
  obtain conns sent where a: "a = (conns, sent)" by (cases a)
  note rel = rel [unfolded a]
  have ok: "event_ok L t ev" using e x by simp
  note dev = gw_on_device [OF rel]
  show ?thesis
  proof (cases ev)
    case (Init env s ia)
    from gw_init [OF laws rel ok [unfolded Init]] show ?thesis unfolding x a Init .
  next
    case (Message env bs)
    from gw_message [OF rel m] ok show ?thesis unfolding x a Message by simp
  next
    case (WriteTurn ret)
    show ?thesis unfolding x a WriteTurn gateway_do.simps
      by (rule dev) (use turn_write in \<open>simp_all del: conn_step.simps\<close>)
  next
    case ReadTurn
    show ?thesis unfolding x a ReadTurn gateway_do.simps
      by (rule dev) (use turn_read [OF _ m] in \<open>simp_all del: conn_step.simps\<close>)
  next
    case SendTurn
    show ?thesis unfolding x a SendTurn gateway_do.simps
      by (rule dev) (use turn_send in \<open>simp_all del: conn_step.simps conn_sends.simps\<close>)
  next
    case (StatTurn env)
    show ?thesis unfolding x a StatTurn gateway_do.simps
      by (rule dev) (use turn_stat [OF laws(2)] in simp_all)
  next
    case (Arrival f)
    have "4 \<le> length f" using ok Arrival by simp
    then show ?thesis unfolding x a Arrival gateway_do.simps
      by (intro dev) (use turn_arrival in \<open>simp_all del: conn_step.simps\<close>)
  next
    case Leave
    from gw_leave [OF laws(1) rel] show ?thesis unfolding x a Leave by simp
  qed
qed

lemma gw_simulation_run:
  assumes laws: "ring_laws (pf_ring L)" "json_laws (pf_json L)" and m: "0 < unat (tt_mtu t)"
    and e: "\<forall>x \<in> set xs. event_ok L t (snd x)" and rel: "gw_rel (pf_ring L) th t g a"
  shows "\<exists>g'. gateway_run L th xs g = Inr g' \<and>
    gw_rel (pf_ring L) th t g' (gw_run (unat (tt_qSize t)) (unat (tt_mtu t)) xs a)"
  using e rel
proof (induction xs arbitrary: g a)
  case Nil
  then show ?case by (simp add: gw_run_def)
next
  case (Cons x xs)
  have "event_ok L t (snd x)" using Cons.prems(1) by simp
  from gw_simulation [OF laws m Cons.prems(2) this] obtain g1 where
    s: "gateway_do L th x g = Inr g1"
      "gw_rel (pf_ring L) th t g1 (gw_step (unat (tt_qSize t)) (unat (tt_mtu t)) x a)" by blast
  have "\<forall>x \<in> set xs. event_ok L t (snd x)" using Cons.prems(1) by simp
  from Cons.IH [OF this s(2)] s(1) show ?case by (simp add: gw_run_def)
qed

lemma gw_rel_new: "gw_rel R th t (gateway_new t) (Map.empty, [])"
  by (simp add: gw_rel_def gateway_new_def srv_ok_new) (simp add: TunaServer_new_def packets_sent_def)

lemma gw_rel_conn:
  assumes "gw_rel R th t g a"
  shows "fst a c = None \<Longrightarrow> ts_tunDevices (gt_srv g) c = None"
    "fst a c = Some k \<Longrightarrow> \<exists>i. ts_tunDevices (gt_srv g) c = Some i \<and>
       conn_rel R th (unat (tt_qSize t)) (unat (tt_mtu t)) (ts_heap (gt_srv g) ! i) (gt_net g i) (gt_wire g i) k"
proof -
  have n: "fst a c = None \<longleftrightarrow> ts_tunDevices (gt_srv g) c = None" and
    k: "ts_tunDevices (gt_srv g) c = Some i \<Longrightarrow> fst a c = Some k \<Longrightarrow> conn_rel R th (unat (tt_qSize t))
        (unat (tt_mtu t)) (ts_heap (gt_srv g) ! i) (gt_net g i) (gt_wire g i) k" for i
    using assms unfolding gw_rel_def Let_def by blast+
  show "fst a c = None \<Longrightarrow> ts_tunDevices (gt_srv g) c = None" using n by simp
  show "\<exists>i. ts_tunDevices (gt_srv g) c = Some i \<and>
       conn_rel R th (unat (tt_qSize t)) (unat (tt_mtu t)) (ts_heap (gt_srv g) ! i) (gt_net g i) (gt_wire g i) k"
    if "fst a c = Some k"
    using n k that by (cases "ts_tunDevices (gt_srv g) c") auto
qed

section \<open>One connection, in order and without loss\<close>

fun conn_run :: "nat \<Rightarrow> nat \<Rightarrow> 'ip gw_event list \<Rightarrow> conn \<times> bytes list \<Rightarrow> conn \<times> bytes list" where
  "conn_run n mtu [] (k, out) = (k, out)"
| "conn_run n mtu (e # es) (k, out) = conn_run n mtu es (conn_step n mtu e k, out @ conn_sends e k)"

lemma gw_run_conn:
  assumes "Leave \<notin> set es" "view c a = (Some k, out)"
  shows "view c (gw_run n mtu (map (Pair c) es) a) =
    (case conn_run n mtu es (k, out) of (k', out') \<Rightarrow> (Some k', out'))"
  using assms
proof (induction es arbitrary: a k out)
  case Nil
  then show ?case by (simp add: gw_run_def)
next
  case (Cons e es)
  obtain conns sent where a: "a = (conns, sent)" by (cases a)
  have k: "conns c = Some k" and out: "map snd (filter (\<lambda>x. fst x = c) sent) = out"
    using Cons.prems(2) by (simp_all add: a view_def)
  have "view c (gw_step n mtu (c, e) (conns, sent)) = (Some (conn_step n mtu e k), out @ conn_sends e k)"
    using Cons.prems(1) k out by (cases e) (auto simp: view_def filter_map comp_def)
  from Cons.IH [OF _ this] Cons.prems(1) show ?case by (simp add: a gw_run_def)
qed

fun messages :: "'ip gw_event list \<Rightarrow> bytes list" where
  "messages (Message ev bs # es) = bs # messages es"
| "messages (e # es) = messages es"
| "messages [] = []"

fun arrivals :: "'ip gw_event list \<Rightarrow> bytes list" where
  "arrivals (Arrival f # es) = f # arrivals es"
| "arrivals (e # es) = arrivals es"
| "arrivals [] = []"

text \<open>
  From the network to the client nothing is lost: what does not fit stays with the kernel.
\<close>

definition down :: "nat \<Rightarrow> conn \<Rightarrow> bytes list" where
  "down mtu k = cn_from k @ map (payload_of mtu) (cn_net k)"

lemma take_one_tl: "take (Suc 0) xs @ tl xs = xs"
  by (cases xs) simp_all

lemma conn_step_down:
  assumes "\<not> cn_echo k" "cn_running k" "\<forall>f \<in> set (cn_net k @ arrivals [e]). payload_of mtu f \<noteq> []"
  shows "\<not> cn_echo (conn_step n mtu e k) \<and> cn_running (conn_step n mtu e k) \<and>
    (\<forall>f \<in> set (cn_net (conn_step n mtu e k)). payload_of mtu f \<noteq> []) \<and>
    conn_sends e k @ down mtu (conn_step n mtu e k) = down mtu k @ map (payload_of mtu) (arrivals [e])"
  using assms by (cases e) (auto simp: down_def take_one_tl append_assoc [symmetric] simp del: append_assoc split: list.splits)

lemma conn_run_down:
  assumes "\<not> cn_echo k" "cn_running k" "\<forall>f \<in> set (cn_net k @ arrivals es). payload_of mtu f \<noteq> []"
    "conn_run n mtu es (k, out) = (k', out')"
  shows "cn_running k' \<and>
    out' @ down mtu k' = out @ down mtu k @ map (payload_of mtu) (arrivals es)"
  using assms
proof (induction es arbitrary: k out)
  case (Cons e es)
  have ar: "arrivals (e # es) = arrivals [e] @ arrivals es" by (cases e) simp_all
  from conn_step_down [OF Cons.prems(1,2), of e mtu n] Cons.prems(3)
  have s: "\<not> cn_echo (conn_step n mtu e k)" "cn_running (conn_step n mtu e k)"
    "\<forall>f \<in> set (cn_net (conn_step n mtu e k) @ arrivals es). payload_of mtu f \<noteq> []"
    "conn_sends e k @ down mtu (conn_step n mtu e k) = down mtu k @ map (payload_of mtu) (arrivals [e])"
    by (auto simp: ar)
  from Cons.IH [OF s(1-3)] Cons.prems(4) s(4) show ?case by (simp add: ar)
qed simp

text \<open>
  From the client to the network the packets keep their order; a full queue drops some, but
  not while there are fewer than it holds.
\<close>

definition up :: "conn \<Rightarrow> bytes list" where
  "up k = cn_wire k @ cn_to k"

lemma conn_step_up:
  assumes "\<not> cn_echo k"
  shows "\<not> cn_echo (conn_step n mtu e k)"
    "subseq (up (conn_step n mtu e k)) (up k @ map (take mtu) (messages [e]))"
    "length (up k @ messages [e]) \<le> n \<Longrightarrow> \<forall>bs \<in> set (messages [e]). take mtu bs \<noteq> [] \<Longrightarrow>
     up (conn_step n mtu e k) = up k @ map (take mtu) (messages [e])"
  using assms by (cases e; auto simp: up_def split: list.splits)+

lemma conn_run_up:
  assumes "\<not> cn_echo k" "conn_run n mtu es (k, out) = (k', out')"
  shows "subseq (up k') (up k @ map (take mtu) (messages es)) \<and>
    (length (up k @ messages es) \<le> n \<and> (\<forall>bs \<in> set (messages es). take mtu bs \<noteq> []) \<longrightarrow>
       up k' = up k @ map (take mtu) (messages es))"
  using assms
proof (induction es arbitrary: k out)
  case (Cons e es)
  have ms: "messages (e # es) = messages [e] @ messages es" by (cases e) simp_all
  note s = conn_step_up [where n = n and mtu = mtu and e = e, OF Cons.prems(1)]
  have r: "subseq (up k') (up (conn_step n mtu e k) @ map (take mtu) (messages es))"
    "length (up (conn_step n mtu e k) @ messages es) \<le> n \<and> (\<forall>bs \<in> set (messages es). take mtu bs \<noteq> []) \<Longrightarrow>
       up k' = up (conn_step n mtu e k) @ map (take mtu) (messages es)"
    using Cons.IH [OF s(1)] Cons.prems(2) by auto
  have "subseq (up k') (up k @ map (take mtu) (messages (e # es)))"
    using subseq_order.trans [OF r(1) list_emb_append_mono [OF s(2) subseq_order.refl]] by (simp add: ms)
  moreover have "up k' = up k @ map (take mtu) (messages (e # es))"
    if "length (up k @ messages (e # es)) \<le> n" "\<forall>bs \<in> set (messages (e # es)). take mtu bs \<noteq> []"
  proof -
    have "up (conn_step n mtu e k) = up k @ map (take mtu) (messages [e])"
      using that by (intro s(3)) (auto simp: ms)
    then show ?thesis using r(2) that by (auto simp: ms)
  qed
  ultimately show ?case by blast
qed simp

section \<open>An example\<close>

text \<open>
  A platform whose JSON reader knows two texts, one that asks for an echo device and one that
  asks for an interface with the address 10.0.0.2/24; in the environment of the second the
  descriptor 5 is allocated and no command can be started, which \<open>start\<close> does not look at.
\<close>

definition tun_addrs :: "v4 IfAddrs" where
  "tun_addrs = IfAddrs_new\<lparr>ia_addrs := [V4 10 0 0 2 24]\<rparr>"

definition two_texts :: "string \<Rightarrow> jval option" where
  "two_texts s = (if s = ''echo'' then Some (init_json JNull)
     else if s = ''tun''
       then Some (init_json (JObj [(''addrs'', JArr [JStr (v4_to_string (V4 10 0 0 2 24))])]))
     else None)"

definition tun_env :: server_env where
  "tun_env = demo_env\<lparr>ev_os := \<lparr>to_alloc = (\<lambda>_. (5, ''tun0'', [5])),
     to_junk = \<lparr>sr_sout = [], sr_serr = [], sr_cmd = [], sr_ok = True, sr_statusCode = 0,
       sr_exitCode = 0, sr_waitPid = 0\<rparr>,
     to_runs = replicate 2 \<lparr>os_pipe_out = None, os_pipe_err = None, os_fork = 0, os_out = [],
       os_err = [], os_sigchld = []\<rparr>,
     to_getfl = Some 2, to_setfl = (\<lambda>_. True)\<rparr>\<rparr>"

lemma two_texts_events:
  "event_ok (demo two_texts) TunaTor_new (Init demo_env ''echo'' IfAddrs_new)"
  "event_ok (demo two_texts) TunaTor_new (Init tun_env ''tun'' tun_addrs)"
  "isEcho IfAddrs_new" "\<not> isEcho tun_addrs"
proof -
  have p: "ip_parse v4_api (v4_to_string (V4 10 0 0 2 24)) = Inr (V4 10 0 0 2 24)"
    using ip_lawsD(2) [OF v4_laws, of "V4 10 0 0 2 24"] by (simp add: v4_api_def)
  show "event_ok (demo two_texts) TunaTor_new (Init demo_env ''echo'' IfAddrs_new)"
    by (simp add: action_message_def two_texts_def demo_def demo_env_def jv_api_def init_json_def jv_at_def
        jv_get_def c_string_def IfAddrs_fromJson_def IfAddrs_new_def isEcho_def setMtu_def Let_def TunaTor_new_def)
  have "action_message (demo two_texts) tun_env ''tun'' ''init''
      (JObj [(''addrs'', JArr [JStr (v4_to_string (V4 10 0 0 2 24))])])"
    by (simp add: action_message_def two_texts_def demo_def tun_env_def demo_env_def jv_api_def
        init_json_def jv_at_def c_string_def)
  moreover have "IfAddrs_fromJson (jv_api two_texts) v4_api
      (JObj [(''addrs'', JArr [JStr (v4_to_string (V4 10 0 0 2 24))])]) IfAddrs_new = Inr (True, tun_addrs)"
    by (simp add: IfAddrs_fromJson_def jv_api_def jv_at_def jv_get_def addAddr_def p setMtu_def
        IfAddrs_new_def tun_addrs_def Let_def)
  moreover have "tun_starts (linux_asCommands v4_api) (ev_os tun_env) tun_addrs 5 ''tun0''"
    by (simp add: tun_starts_def tun_env_def linux_asCommands_def tun_addrs_def IfAddrs_new_def
        eval_nat_numeral run_def Pipe_create_def Let_def del: args_simps)
  ultimately show "event_ok (demo two_texts) TunaTor_new (Init tun_env ''tun'' tun_addrs)"
    by (auto simp: demo_def tun_addrs_def IfAddrs_new_def TunaTor_new_def)
qed (simp_all add: isEcho_def IfAddrs_new_def tun_addrs_def)

definition two_clients :: "(nat \<times> v4 gw_event) list" where
  "two_clients = [(7, Init tun_env ''tun'' tun_addrs), (8, Init demo_env ''echo'' IfAddrs_new),
     (7, Message demo_env ''Eping''), (8, Message demo_env ''hi''),
     (7, Arrival (replicate 4 (CHR 0x00) @ ''Epong'')), (8, WriteTurn 0), (7, ReadTurn),
     (7, WriteTurn 9), (7, SendTurn), (8, SendTurn), (7, StatTurn demo_env), (8, Leave)]"

lemma two_clients_ok: "\<forall>x \<in> set two_clients. event_ok (demo two_texts) TunaTor_new (snd x)"
  using two_texts_events(1,2) by (simp add: two_clients_def del: event_ok.simps(1))

lemma two_clients_run:
  "gw_run 64 1500 two_clients (Map.empty, []) =
    ([7 \<mapsto> \<lparr>cn_echo = False, cn_to = [], cn_from = [], cn_net = [], cn_wire = [''Eping''],
        cn_running = True\<rparr>],
     [(7, ''Epong''), (8, ''hi'')])"
  by (simp add: gw_run_def two_clients_def new_conn_def two_texts_events(3,4) payload_of_def fun_upd_twist)

section \<open>Properties\<close>

text \<open>What the server has sent to a client, and what was handed to \<open>writev\<close> for it.\<close>

definition sent_to :: "'c \<Rightarrow> ('c, 'ip, 'q) gateway \<Rightarrow> bytes list" where
  "sent_to c g = map snd (filter (\<lambda>x. fst x = c) (packets_sent (ts_sent (gt_srv g))))"

definition written_for :: "'c \<Rightarrow> ('c, 'ip, 'q) gateway \<Rightarrow> bytes list list option" where
  "written_for c g = map_option (gt_wire g) (ts_tunDevices (gt_srv g) c)"

lemma gw_rel_view:
  assumes "gw_rel R th t g a"
  shows "sent_to c g = snd (view c a)"
    "written_for c g = map_option (\<lambda>k. map (tun_write_iov th) (cn_wire k)) (fst (view c a))"
proof -
  show "sent_to c g = snd (view c a)" using assms by (simp add: sent_to_def view_def gw_rel_def Let_def)
  show "written_for c g = map_option (\<lambda>k. map (tun_write_iov th) (cn_wire k)) (fst (view c a))"
    using gw_rel_conn [OF assms, of c]
    by (cases "fst a c") (auto simp: written_for_def view_def conn_rel_def)
qed







end
