(* ===== verification/Status_Reports.thy ===== *)
theory Status_Reports
  imports Gateway
begin

text \<open>
  The reports that clients are sent: one in answer to an \<open>init\<close> message, and one for each turn
  of the stat thread while the device runs. They are numbered by the device (\<open>seq\<close>). In a
  run of the gateway with any number of clients, \<open>report_step\<close> says which reports one of
  them gets; the theory shows that it gets these and no others.
\<close>

section \<open>The specification\<close>

text \<open>What a report says to its reader: the action, the number, and whether the device runs.\<close>

type_synonym status = "string \<times> nat \<times> bool"

definition says :: "'j json_api \<Rightarrow> status \<Rightarrow> bytes \<Rightarrow> bool" where
  "says J st text \<longleftrightarrow> (\<exists>v d. text = ''JSON'' @ j_write J v \<and>
     j_at J v ''action'' = Inr (j_str J (fst st)) \<and> j_at J v ''data'' = Inr d \<and>
     j_at J d ''seq'' = Inr (j_uint J (of_nat (fst (snd st)))) \<and>
     j_at J d ''running'' = Inr (j_bool J (snd (snd st))))"

text \<open>
  A connection without a device, or with one and the number of its last report. A second
  \<open>init\<close> is answered with the first report of the device that it makes.
\<close>

fun report_step :: "nat \<Rightarrow> nat \<Rightarrow> 'ip gw_event \<Rightarrow> (conn \<times> nat) option \<Rightarrow> status list \<times> (conn \<times> nat) option" where
  "report_step n mtu (Init ev text ia) None = ([(''init-res'', 1, True)], Some (new_conn (isEcho ia), 1))"
| "report_step n mtu (Init ev text ia) (Some s) = ([(''init-res'', 1, True)], Some s)"
| "report_step n mtu (StatTurn ev) (Some (k, m)) =
     (if cn_running k then ([(''stat-res'', Suc m, True)], Some (k, Suc m)) else ([], Some (k, m)))"
| "report_step n mtu Leave s = ([], None)"
| "report_step n mtu e (Some (k, m)) = ([], Some (conn_step n mtu e k, m))"
| "report_step n mtu e None = ([], None)"

fun report_list :: "nat \<Rightarrow> nat \<Rightarrow> 'ip gw_event list \<Rightarrow> (conn \<times> nat) option \<Rightarrow> status list" where
  "report_list n mtu [] s = []"
| "report_list n mtu (e # es) s =
     (let (out, s') = report_step n mtu e s in out @ report_list n mtu es s')"

text \<open>The text frames that were sent to a connection; packets have the opcode 130.\<close>

definition texts_to :: "'c \<Rightarrow> 'c frame list \<Rightarrow> bytes list" where
  "texts_to c fs = map (\<lambda>(c', bs, op). bs) (filter (\<lambda>(c', bs, op). c' = c \<and> op = None) fs)"

definition reports_to :: "'c \<Rightarrow> ('c, 'ip, 'q) gateway \<Rightarrow> bytes list" where
  "reports_to c g = texts_to c (ts_sent (gt_srv g))"

lemma texts_to_append: "texts_to c (xs @ ys) = texts_to c xs @ texts_to c ys"
  by (simp add: texts_to_def)

section \<open>Single events\<close>

text \<open>A report, as it is sent.\<close>

lemma sendTun_says:
  assumes J: "json_laws (pf_json L)" and s: "sendTun L ev msg tun c srv = Inr (tun', srv')"
    and m: "td_seq tun + 1 = of_nat m"
  obtains reply where "srv' = srv\<lparr>ts_sent := ts_sent srv @ [(c, reply, None)]\<rparr>"
    "says (pf_json L) (msg, m, td_running tun) reply" "td_seq tun' = of_nat m"
proof -
  let ?J = "pf_json L"
  obtain v1 where v1: "j_put ?J (j_null ?J) ''action'' (j_str ?J msg) = Inr v1" "j_obj ?J v1"
    "\<And>k. j_at ?J v1 k = (if k = ''action'' then Inr (j_str ?J msg) else j_at ?J (j_null ?J) k)"
    using j_put_obj [OF J j_null_obj(1) [OF J]] by blast
  obtain d where d: "\<exists>tun1. td_seq tun1 = td_seq tun + 1 \<and>
      TunDevice_asJson ?J (pf_ip L) (ev_time ev) (ev_clock ev) (j_null ?J) tun = Inr (d, tun1)"
    "j_at ?J d ''seq'' = Inr (j_uint ?J (td_seq tun + 1))"
    "j_at ?J d ''running'' = Inr (j_bool ?J (td_running tun))"
    by (rule TunDevice_asJson_parts [OF J, of "pf_ip L" "ev_time ev" "ev_clock ev" tun]) auto
  obtain v2 where v2: "j_put ?J v1 ''data'' d = Inr v2"
    "\<And>k. j_at ?J v2 k = (if k = ''data'' then Inr d else j_at ?J v1 k)"
    using j_put_obj [OF J v1(2)] by blast
  have e: "srv' = srv\<lparr>ts_sent := ts_sent srv @ [(c, ''JSON'' @ j_write ?J v2, None)]\<rparr>" "td_seq tun' = of_nat m"
    using s d(1) m by (auto simp: sendTun_def MessageRef_asJson_def v1(1) v2(1))
  have "says ?J (msg, m, td_running tun) (''JSON'' @ j_write ?J v2)"
    unfolding says_def using v1(3) v2(2) d(2,3) m by auto
  then show thesis by (rule that [OF e(1) _ e(2)])
qed

text \<open>
  A quiet event changes one device, but not the number of its last report, and sends packets
  only.
\<close>

definition quiet :: "'c \<Rightarrow> nat \<Rightarrow> ('c, 'ip, 'q) gateway \<Rightarrow> ('c, 'ip, 'q) gateway \<Rightarrow> bool" where
  "quiet c i g g' \<longleftrightarrow> (\<exists>tun bss. td_seq tun = td_seq (ts_heap (gt_srv g) ! i) \<and>
     gt_srv g' = (gt_srv g)\<lparr>ts_heap := (ts_heap (gt_srv g))[i := tun],
                             ts_sent := ts_sent (gt_srv g) @ frames c bss\<rparr>)"

lemma pop_recv_frames:
  "pop_loop R (recv_action c) script pq sent = Inr (r, pq', sent') \<Longrightarrow> \<exists>bss. sent' = sent @ frames c bss"
proof (induction script arbitrary: pq)
  have some: "\<exists>bss. sent' = sent @ frames c bss"
    if "pop_loop R (recv_action c) script pq sent = Inr (r, pq', sent')"
      "rb_pop R (pq_q pq) = (Some i, q')" for script pq i q'
  proof -
    have "pop_packet (recv_action c) i (pq\<lparr>pq_q := q'\<rparr>) sent = Inr (r, pq', sent')"
      using that by (simp add: pop_loop_some)
    then obtain bs where "sent' = sent @ [(c, ''PAKT'' @ bs, Some 130)]"
      by (auto simp: pop_packet_def recv_action_def ebind_eq_Inr Let_def)
    then show ?thesis by (intro exI [of _ "[bs]"]) (simp add: frames_def)
  qed
  {
    case Nil
    then show ?case
      using some by (cases "rb_pop R (pq_q pq)"; cases "fst (rb_pop R (pq_q pq))") (auto simp: pop_loop_none)
  next
    case (Cons w script)
    obtain b f where w: "w = (b, f)" by (cases w)
    obtain oi q' where q: "rb_pop R (pq_q pq) = (oi, q')" by (cases "rb_pop R (pq_q pq)")
    show ?case
    proof (cases oi)
      case (Some i)
      then show ?thesis using some [OF Cons.prems] q by simp
    next
      case None
      note e = pop_loop_none [OF q [unfolded None]]
      show ?thesis
      proof (cases b)
        case True
        then show ?thesis using Cons.prems by (simp add: w e frames_def)
      next
        case False
        then show ?thesis using Cons.prems by (intro Cons.IH) (simp add: w e)
      qed
    qed
  }
qed


lemma quiet_heap:
  assumes "gt_srv g' = (gt_srv g)\<lparr>ts_heap := (ts_heap (gt_srv g))[i := tun]\<rparr>"
    "td_seq tun = td_seq (ts_heap (gt_srv g) ! i)"
  shows "quiet c i g g'"
  unfolding quiet_def
  by (intro exI [of _ tun] exI [of _ "[]"]) (use assms in \<open>cases "gt_srv g"; simp add: frames_def\<close>)

lemma quiet_refl: "gt_srv g' = gt_srv g \<Longrightarrow> quiet c i g g'"
  by (rule quiet_heap [where tun = "ts_heap (gt_srv g) ! i"]) (cases "gt_srv g"; simp)+

lemma quiet_event:
  assumes d: "gateway_do L th (c, e) g = Inr g'" and e: "event_ok L t e" "e \<noteq> Leave"
    "\<And>ev bs ia. e \<noteq> Init ev bs ia" "\<And>ev. e \<noteq> StatTurn ev"
  shows "ts_tunDevices (gt_srv g) c = None \<Longrightarrow> g' = g"
    "ts_tunDevices (gt_srv g) c = Some i \<Longrightarrow> quiet c i g g'"
proof -
  show "g' = g" if "ts_tunDevices (gt_srv g) c = None"
    using that d e by (cases e) (auto simp: on_device_def on_server_def onmessage_no_device [simplified])
  assume i: "ts_tunDevices (gt_srv g) c = Some i"
  let ?tun = "ts_heap (gt_srv g) ! i"
  show "quiet c i g g'"
  proof (cases e)
    case (Message ev bs)
    then have b: "length bs < 2 ^ 63" using e(1) by simp
    from d Message show ?thesis
      by (auto simp: on_server_def onmessage_pakt [OF i b, simplified] ebind_eq_Inr
          intro: quiet_heap [where tun = "?tun\<lparr>td_toTun := q\<rparr>" for q])
  next
    case (WriteTurn ret)
    show ?thesis
    proof (cases "td_running ?tun")
      case False
      then show ?thesis using d WriteTurn i by (auto simp: on_device_def write_turn_def intro: quiet_refl)
    next
      case run: True
      show ?thesis
      proof (cases "isEcho (td_ifAddrs ?tun)")
        case True
        then show ?thesis
          using d WriteTurn i run
          by (auto simp: on_device_def write_turn_def on_server_def device_turn_def echo_step_def
              ebind_eq_Inr Let_def intro: quiet_heap)
      next
        case False
        then show ?thesis
          using d WriteTurn i run
          by (auto simp: on_device_def write_turn_def to_tun_step_def ebind_eq_Inr Let_def intro: quiet_heap)
      qed
    qed
  next
    case ReadTurn
    then show ?thesis
      using d i by (auto simp: on_device_def read_turn_def tun_read_turn_def ebind_eq_Inr Let_def
          intro: quiet_heap quiet_refl split: if_splits)
  next
    case SendTurn
    with d i obtain r pq' sent' where
      p: "pop_loop (pf_ring L) (recv_action c) [(True, \<lambda>pq. pq)] (td_fromTun ?tun) (ts_sent (gt_srv g)) =
        Inr (r, pq', sent')"
      and g': "gt_srv g' = (gt_srv g)\<lparr>ts_heap := (ts_heap (gt_srv g))[i := ?tun\<lparr>td_fromTun := pq'\<rparr>], ts_sent := sent'\<rparr>"
      by (auto simp: on_device_def on_server_def recv_turn_def pop_def ebind_eq_Inr Let_def)
    from pop_recv_frames [OF p] g' show ?thesis
      unfolding quiet_def by (intro exI [of _ "?tun\<lparr>td_fromTun := pq'\<rparr>"]) auto
  next
    case (Arrival f)
    then show ?thesis using d i by (auto simp: on_device_def intro: quiet_refl)
  qed (use e in auto)
qed


text \<open>An event of another connection.\<close>

lemma texts_to_other: "\<forall>f \<in> set fs. fst f \<noteq> c \<Longrightarrow> texts_to c fs = []"
  by (auto simp: texts_to_def filter_empty_conv)

lemma texts_to_frames [simp]: "texts_to c (frames c' bss) = []"
  by (simp add: texts_to_def frames_def filter_map comp_def)

lemma other_event:
  assumes R: "ring_laws (pf_ring L)" and J: "json_laws (pf_json L)"
    and d: "gateway_do L th (c', e) g = Inr g'" and ok: "srv_ok (pf_ring L) (gt_srv g)"
    and e: "event_ok L t e" and c: "c' \<noteq> c"
  shows "ts_tunDevices (gt_srv g') c = ts_tunDevices (gt_srv g) c \<and> reports_to c g' = reports_to c g \<and>
    (\<forall>i. ts_tunDevices (gt_srv g) c = Some i \<longrightarrow> ts_heap (gt_srv g') ! i = ts_heap (gt_srv g) ! i)"
proof -
  have len: "i < length (ts_heap (gt_srv g))" if "ts_tunDevices (gt_srv g) c = Some i" for i
    using ok that by (auto simp: srv_ok_def)
  have ne: "i \<noteq> j" if "ts_tunDevices (gt_srv g) c = Some i" "ts_tunDevices (gt_srv g) c' = Some j" for i j
    using ok that c unfolding srv_ok_def by blast
  show ?thesis
  proof (cases e)
    case (Init ev s ia)
    then obtain data where "action_message L ev s ''init'' data" using e by auto
    then have "\<exists>srv'. actionInit L ev data c' (gt_srv g) = Inr srv' \<and> g' = g\<lparr>gt_srv := srv'\<rparr>"
      using d Init unfolding Init gateway_do.simps on_server_def by (auto simp: onmessage_init ebind_eq_Inr simp del: append.simps)
    then obtain srv' where a: "actionInit L ev data c' (gt_srv g) = Inr srv'" "gt_srv g' = srv'" by auto
    from actionInit_isolated [OF R a(1)] c show ?thesis
      by (auto simp: a(2) reports_to_def texts_to_append texts_to_other nth_append dest: len)
  next
    case (StatTurn ev)
    show ?thesis
    proof (cases "ts_tunDevices (gt_srv g) c'")
      case None
      then show ?thesis using d StatTurn by (simp add: on_device_def)
    next
      case (Some j)
      show ?thesis
      proof (cases "td_running (ts_heap (gt_srv g) ! j)")
        case False
        then show ?thesis using d StatTurn Some by (auto simp: on_device_def on_server_def stat_turn_def)
      next
        case True
        obtain tun bs where s: "sendTun L ev ''stat-res'' (ts_heap (gt_srv g) ! j) c' (gt_srv g) =
            Inr (tun, (gt_srv g)\<lparr>ts_sent := ts_sent (gt_srv g) @ [(c', ''JSON'' @ bs, None)]\<rparr>)"
          using sendTun_ok [where ev = ev and msg = "''stat-res''" and tun = "ts_heap (gt_srv g) ! j" and c = c'
            and srv = "gt_srv g", OF J] by (elim exE)
        then show ?thesis
          using d StatTurn Some True ne [OF _ Some] c
          by (auto simp: on_device_def on_server_def stat_turn_def reports_to_def texts_to_append texts_to_other)
      qed
    qed
  next
    case Leave
    show ?thesis
    proof (cases "ts_tunDevices (gt_srv g) c'")
      case None
      then show ?thesis using d Leave by (auto simp: on_server_def disconnect_def)
    next
      case (Some j)
      from d Leave ne [OF _ Some] c show ?thesis
        by (auto simp: on_server_def disconnect_eq [OF ok Some] reports_to_def)
    qed
  qed (use quiet_event [OF d e] ne c in \<open>cases "ts_tunDevices (gt_srv g) c'"; force simp: quiet_def
      reports_to_def texts_to_append\<close>)+
qed


text \<open>The connection's own \<open>init\<close> and its turns of the stat thread.\<close>

lemma own_init:
  assumes J: "json_laws (pf_json L)" and t: "ts_tunaTor (gt_srv g) = t"
    and e: "event_ok L t (Init ev s ia)" and d: "gateway_do L th (c, Init ev s ia) g = Inr g'"
  shows "\<exists>reply tun. says (pf_json L) (''init-res'', 1, True) reply \<and> td_seq tun = 1 \<and>
    gt_srv g' = (gt_srv g)\<lparr>ts_tunDevices := (if c \<in> dom (ts_tunDevices (gt_srv g)) then ts_tunDevices (gt_srv g)
        else (ts_tunDevices (gt_srv g))(c \<mapsto> length (ts_heap (gt_srv g)))),
      ts_heap := ts_heap (gt_srv g) @ [tun], ts_sent := ts_sent (gt_srv g) @ [(c, reply, None)]\<rparr>"
proof -
  let ?srv = "gt_srv g" and ?tun = "init_device (pf_ring L) ev t ia"
  obtain data where a: "action_message L ev s ''init'' data"
    "IfAddrs_fromJson (pf_json L) (pf_ip L) data IfAddrs_new = Inr (True, ia)" using e by auto
  obtain dev fd where st: "start (pf_asCommands L) (ev_os ev) ?tun = Inr (True, ?tun\<lparr>td_running := True,
      td_tunDevName := dev, td_tunFd := fd, td_fromTunThread := Some Joinable, td_toTunThread := Some Joinable\<rparr>)"
    by (rule init_starts [OF e])
  obtain srv' where i: "actionInit L ev data c ?srv = Inr srv'" "gt_srv g' = srv'"
    using d unfolding gateway_do.simps on_server_def onmessage_init [OF a(1)] by (auto simp: ebind_eq_Inr)
  note start = st [unfolded init_device_def t [symmetric]]
  let ?map = "if c \<in> dom (ts_tunDevices ?srv) then ts_tunDevices ?srv
    else (ts_tunDevices ?srv)(c \<mapsto> length (ts_heap ?srv))"
  from i(1) have "\<exists>tun3 tun4 srv2. sendTun L ev ''init-res'' tun3 c (?srv\<lparr>ts_tunDevices := ?map\<rparr>) =
      Inr (tun4, srv2) \<and> td_seq tun3 + 1 = of_nat 1 \<and> td_running tun3 \<and>
      srv' = srv2\<lparr>ts_heap := ts_heap srv2 @ [tun4]\<rparr>"
    unfolding actionInit_eq a(2) ebind_Inr prod.case Let_def start
    by (auto simp: ebind_eq_Inr setStatThread_def setRecvThread_def new_thread_Inr TunDevice_new_def
        simp del: dom_def split del: if_split) (intro exI conjI, assumption, simp_all)
  then obtain tun3 tun4 srv2 where
    sd: "sendTun L ev ''init-res'' tun3 c (?srv\<lparr>ts_tunDevices := ?map\<rparr>) = Inr (tun4, srv2)"
    and t3: "td_seq tun3 + 1 = of_nat 1" "td_running tun3"
    and srv': "srv' = srv2\<lparr>ts_heap := ts_heap srv2 @ [tun4]\<rparr>"
    by (elim exE conjE)
  from sendTun_says [OF J sd t3(1)] obtain reply where
    "srv2 = ?srv\<lparr>ts_tunDevices := ?map\<rparr>\<lparr>ts_sent := ts_sent (?srv\<lparr>ts_tunDevices := ?map\<rparr>) @ [(c, reply, None)]\<rparr>"
    "says (pf_json L) (''init-res'', 1, td_running tun3) reply" "td_seq tun4 = of_nat 1"
    by blast
  then show ?thesis using t3(2) i(2) srv' by (intro exI [of _ reply] exI [of _ tun4]) simp
qed

lemma own_stat:
  assumes J: "json_laws (pf_json L)" and i: "ts_tunDevices (gt_srv g) c = Some i"
    and m: "td_seq (ts_heap (gt_srv g) ! i) = of_nat m" and d: "gateway_do L th (c, StatTurn ev) g = Inr g'"
  shows "\<not> td_running (ts_heap (gt_srv g) ! i) \<Longrightarrow> gt_srv g' = gt_srv g"
    "td_running (ts_heap (gt_srv g) ! i) \<Longrightarrow> \<exists>reply tun. says (pf_json L) (''stat-res'', Suc m, True) reply \<and>
      td_seq tun = of_nat (Suc m) \<and> gt_srv g' = (gt_srv g)\<lparr>ts_heap := (ts_heap (gt_srv g))[i := tun],
        ts_sent := ts_sent (gt_srv g) @ [(c, reply, None)]\<rparr>"
proof -
  let ?tun = "ts_heap (gt_srv g) ! i"
  show "gt_srv g' = gt_srv g" if "\<not> td_running ?tun"
    using that d i by (auto simp: on_device_def on_server_def stat_turn_def)
  assume run: "td_running ?tun"
  with d i obtain tun srv1 where s: "sendTun L ev ''stat-res'' ?tun c (gt_srv g) = Inr (tun, srv1)"
    "gt_srv g' = srv1\<lparr>ts_heap := (ts_heap srv1)[i := tun]\<rparr>"
    by (auto simp: on_device_def on_server_def stat_turn_def ebind_eq_Inr)
  have "td_seq ?tun + 1 = of_nat (Suc m)" by (simp add: m)
  from sendTun_says [OF J s(1) this] obtain reply where
    "srv1 = (gt_srv g)\<lparr>ts_sent := ts_sent (gt_srv g) @ [(c, reply, None)]\<rparr>"
    "says (pf_json L) (''stat-res'', Suc m, td_running ?tun) reply" "td_seq tun = of_nat (Suc m)"
    by blast
  then show "\<exists>reply tun. says (pf_json L) (''stat-res'', Suc m, True) reply \<and>
      td_seq tun = of_nat (Suc m) \<and> gt_srv g' = (gt_srv g)\<lparr>ts_heap := (ts_heap (gt_srv g))[i := tun],
        ts_sent := ts_sent (gt_srv g) @ [(c, reply, None)]\<rparr>"
    using run s(2) by (intro exI [of _ reply] exI [of _ tun]) simp
qed

section \<open>Runs\<close>

text \<open>The state of the specification and the device of the connection.\<close>

definition linked :: "'c \<Rightarrow> ('c, 'ip, 'q) gateway \<Rightarrow> conn option \<Rightarrow> (conn \<times> nat) option \<Rightarrow> bool" where
  "linked c g k s \<longleftrightarrow> (case s of None \<Rightarrow> k = None
     | Some (k', m) \<Rightarrow> k = Some k' \<and> (\<exists>i. ts_tunDevices (gt_srv g) c = Some i \<and>
         td_seq (ts_heap (gt_srv g) ! i) = of_nat m))"

lemma linked_other:
  assumes "linked c g k s" "ts_tunDevices (gt_srv g') c = ts_tunDevices (gt_srv g) c"
    "\<forall>i. ts_tunDevices (gt_srv g) c = Some i \<longrightarrow> ts_heap (gt_srv g') ! i = ts_heap (gt_srv g) ! i"
  shows "linked c g' k s"
  using assms by (auto simp: linked_def split: option.splits)

lemma own_event:
  assumes J: "json_laws (pf_json L)" and rel: "gw_rel (pf_ring L) th t g a"
    and e: "event_ok L t e" and d: "gateway_do L th (c, e) g = Inr g'" and l: "linked c g (fst a c) s"
    and st: "report_step n mtu e s = (out, s')" and nm: "n = unat (tt_qSize t)" "mtu = unat (tt_mtu t)"
  shows "linked c g' (fst (gw_step n mtu (c, e) a) c) s' \<and>
    (\<exists>bss. reports_to c g' = reports_to c g @ bss \<and> list_all2 (says (pf_json L)) out bss)"
proof -
  obtain conns sent where a: "a = (conns, sent)" by (cases a)
  have ok: "srv_ok (pf_ring L) (gt_srv g)" and t: "ts_tunaTor (gt_srv g) = t"
    using rel by (simp_all add: gw_rel_def Let_def)
  note dev = gw_rel_conn [OF rel, of c]
  have len: "i < length (ts_heap (gt_srv g))" if "ts_tunDevices (gt_srv g) c = Some i" for i
    using ok that by (auto simp: srv_ok_def)
  show ?thesis
  proof (cases e)
    case (Init ev x ia)
    from own_init [OF J t e [unfolded Init] d [unfolded Init]] obtain reply tun where
      r: "says (pf_json L) (''init-res'', 1, True) reply" "td_seq tun = 1"
      "gt_srv g' = (gt_srv g)\<lparr>ts_tunDevices := (if c \<in> dom (ts_tunDevices (gt_srv g)) then ts_tunDevices (gt_srv g)
        else (ts_tunDevices (gt_srv g))(c \<mapsto> length (ts_heap (gt_srv g)))),
      ts_heap := ts_heap (gt_srv g) @ [tun], ts_sent := ts_sent (gt_srv g) @ [(c, reply, None)]\<rparr>"
      by (elim exE conjE)
    have rep: "reports_to c g' = reports_to c g @ [reply]" "out = [(''init-res'', 1, True)]"
      using st by (auto simp: Init r(3) reports_to_def texts_to_def split: option.splits) (cases s; auto)
    show ?thesis
    proof (cases s)
      case None
      then have "fst a c = None" using l by (simp add: linked_def)
      with dev(1) r(2) st None have "linked c g' (fst (gw_step n mtu (c, e) a) c) s'"
        by (auto simp: linked_def Init a r(3))
      then show ?thesis using rep r(1) by simp
    next
      case (Some p)
      then have "linked c g' (fst (gw_step n mtu (c, e) a) c) s'"
        using l st by (cases p) (auto simp: linked_def Init a r(3) nth_append dom_def dest: len)
      then show ?thesis using rep r(1) by simp
    qed
  next
    case (StatTurn ev)
    show ?thesis
    proof (cases s)
      case None
      then have "fst a c = None" using l by (simp add: linked_def)
      with dev(1) d st None show ?thesis by (auto simp: StatTurn on_device_def linked_def a)
    next
      case (Some p)
      obtain k m where p: "p = (k, m)" by (cases p)
      obtain i where i: "ts_tunDevices (gt_srv g) c = Some i" "td_seq (ts_heap (gt_srv g) ! i) = of_nat m"
        "conns c = Some k"
        using l by (auto simp: linked_def Some p a)
      have run: "td_running (ts_heap (gt_srv g) ! i) = cn_running k"
        using dev(2) [of k] i by (auto simp: a conn_rel_def)
      note o = own_stat [OF J i(1,2) d [unfolded StatTurn]]
      show ?thesis
      proof (cases "cn_running k")
        case False
        then show ?thesis using o(1) run l st i(3) by (auto simp: StatTurn Some p linked_def reports_to_def a)
      next
        case True
        then show ?thesis using o(2) run st i len
          by (auto simp: StatTurn Some p linked_def reports_to_def texts_to_def a)
      qed
    qed
  next
    case Leave
    show ?thesis
    proof (cases "ts_tunDevices (gt_srv g) c")
      case None
      then show ?thesis using d st by (auto simp: Leave on_server_def disconnect_def linked_def a)
    next
      case (Some j)
      from d st show ?thesis
        by (auto simp: Leave on_server_def disconnect_eq [OF ok Some] reports_to_def linked_def a)
    qed
  qed (insert st l d dev quiet_event [OF d e] len, (cases s; force simp: linked_def quiet_def reports_to_def texts_to_append a)+)
qed


lemma reports_run:
  assumes laws: "ring_laws (pf_ring L)" "json_laws (pf_json L)" and m: "0 < unat (tt_mtu t)"
    and nm: "n = unat (tt_qSize t)" "mtu = unat (tt_mtu t)"
    and e: "\<forall>x \<in> set xs. event_ok L t (snd x)" and rel: "gw_rel (pf_ring L) th t g a"
    and l: "linked c g (fst a c) s"
  shows "\<exists>g' bss. gateway_run L th xs g = Inr g' \<and> reports_to c g' = reports_to c g @ bss \<and>
    list_all2 (says (pf_json L)) (report_list n mtu (map snd (of_conn c xs)) s) bss"
  using e rel l
proof (induction xs arbitrary: g a s)
  case Nil
  then show ?case by (simp add: of_conn_def)
next
  case (Cons x xs)
  obtain c' ev where x: "x = (c', ev)" by (cases x)
  have ok: "event_ok L t ev" and rest: "\<forall>x \<in> set xs. event_ok L t (snd x)" using Cons.prems(1) x by auto
  from gw_simulation [OF laws m Cons.prems(2), of x] ok x obtain g1 where
    d: "gateway_do L th (c', ev) g = Inr g1" and r: "gw_rel (pf_ring L) th t g1 (gw_step n mtu (c', ev) a)"
    by (auto simp: nm)
  have srv: "srv_ok (pf_ring L) (gt_srv g)" using Cons.prems(2) by (simp add: gw_rel_def Let_def)
  show ?case
  proof (cases "c' = c")
    case True
    obtain out s' where st: "report_step n mtu ev s = (out, s')" by (cases "report_step n mtu ev s")
    from own_event [OF laws(2) Cons.prems(2) ok d [unfolded True] Cons.prems(3) st nm] obtain bss where
      o: "linked c g1 (fst (gw_step n mtu (c, ev) a) c) s'" "reports_to c g1 = reports_to c g @ bss"
      "list_all2 (says (pf_json L)) out bss" by blast
    from Cons.IH [OF rest r [unfolded True] o(1)] obtain g' bss' where
      "gateway_run L th xs g1 = Inr g'" "reports_to c g' = reports_to c g1 @ bss'"
      "list_all2 (says (pf_json L)) (report_list n mtu (map snd (of_conn c xs)) s') bss'" by blast
    then show ?thesis
      using o(2,3) d by (auto simp: x True of_conn_def st intro!: exI [of _ "bss @ bss'"] list_all2_appendI)
  next
    case False
    from other_event [OF laws d srv ok False] have
      o: "ts_tunDevices (gt_srv g1) c = ts_tunDevices (gt_srv g) c" "reports_to c g1 = reports_to c g"
      "\<forall>i. ts_tunDevices (gt_srv g) c = Some i \<longrightarrow> ts_heap (gt_srv g1) ! i = ts_heap (gt_srv g) ! i" by blast+
    have "fst (gw_step n mtu (c', ev) a) c = fst a c"
      using gw_step_other [OF False, of n mtu ev a] by (simp add: view_def)
    with linked_other [OF Cons.prems(3) o(1,3)] have "linked c g1 (fst (gw_step n mtu (c', ev) a) c) s" by simp
    from Cons.IH [OF rest r this] o(2) d False show ?thesis by (auto simp: x of_conn_def)
  qed
qed

text \<open>
  A connection that sends one \<open>init\<close> and stays gets its reports numbered from one without a
  gap, and from an echo device one for each turn of the stat thread.
\<close>

fun stat_turns :: "'ip gw_event list \<Rightarrow> nat" where
  "stat_turns [] = 0"
| "stat_turns (StatTurn ev # es) = Suc (stat_turns es)"
| "stat_turns (e # es) = stat_turns es"

lemma report_list_numbered:
  assumes "Leave \<notin> set es" "\<And>ev x ia. Init ev x ia \<notin> set es"
  shows "\<exists>j \<le> stat_turns es. report_list n mtu es (Some (k, m)) =
      map (\<lambda>i. (''stat-res'', Suc (m + i), True)) [0..<j] \<and>
    (cn_echo k \<and> cn_running k \<longrightarrow> j = stat_turns es)"
  using assms
proof (induction es arbitrary: k m)
  case (Cons e es)
  have es: "Leave \<notin> set es" "\<And>ev x ia. Init ev x ia \<notin> set es" using Cons.prems by auto
  show ?case
  proof (cases "(\<exists>ev. e = StatTurn ev) \<and> cn_running k")
    case True
    obtain j where j: "j \<le> stat_turns es" "report_list n mtu es (Some (k, Suc m)) =
        map (\<lambda>i. (''stat-res'', Suc (Suc m + i), True)) [0..<j]"
      "cn_echo k \<and> cn_running k \<longrightarrow> j = stat_turns es"
      using Cons.IH [OF es] by blast
    have "map (\<lambda>i. (''stat-res'', Suc (m + i), True)) [0..<Suc j] =
        (''stat-res'', Suc m, True) # map (\<lambda>i. (''stat-res'', Suc (Suc m + i), True)) [0..<j]"
      by (simp add: upt_conv_Cons map_Suc_upt [symmetric] comp_def del: upt_Suc)
    then show ?thesis using j True by (intro exI [of _ "Suc j"]) (auto simp del: upt_Suc)
  next
    case False
    have "\<exists>k'. report_step n mtu e (Some (k, m)) = ([], Some (k', m)) \<and>
        (cn_echo k \<and> cn_running k \<longrightarrow> cn_echo k' \<and> cn_running k' \<and> stat_turns (e # es) = stat_turns es) \<and>
        stat_turns es \<le> stat_turns (e # es)"
      using False Cons.prems by (cases e) (auto split: list.splits)
    then obtain k' where k': "report_step n mtu e (Some (k, m)) = ([], Some (k', m))"
      "cn_echo k \<and> cn_running k \<longrightarrow> cn_echo k' \<and> cn_running k' \<and> stat_turns (e # es) = stat_turns es"
      "stat_turns es \<le> stat_turns (e # es)" by blast
    obtain j where "j \<le> stat_turns es" "report_list n mtu es (Some (k', m)) =
        map (\<lambda>i. (''stat-res'', Suc (m + i), True)) [0..<j]"
      "cn_echo k' \<and> cn_running k' \<longrightarrow> j = stat_turns es"
      using Cons.IH [OF es] by blast
    then show ?thesis using k' by (intro exI [of _ j]) auto
  qed
qed simp

lemma reports_new: "reports_to c (gateway_new t) = []"
  by (simp add: reports_to_def texts_to_def gateway_new_def TunaServer_new_def)

section \<open>Properties\<close>



end
