(* ===== verification/Server_Typing.thy ===== *)
theory Server_Typing
  imports Tuna_Server Queue_Spec_Fifo
begin

text \<open>
  What clients can make the server hold: whatever JSON they send, every interface description
  in the server consists of addresses that the address parser produced, asks for no more
  than the server's packet size, and all packets of its device fit into that size.
\<close>

section \<open>Descriptions read from JSON\<close>

definition if_valid :: "'ip ip_api \<Rightarrow> 'ip IfAddrs \<Rightarrow> bool" where
  "if_valid P ia \<longleftrightarrow>
     (\<forall>a \<in> set (ia_dests ia) \<union> set (ia_addrs ia). ip_valid P a) \<and>
     (\<forall>r \<in> set (ia_routes ia). ip_valid P (rv_dest r) \<and> ip_valid P (rv_via r))"

lemma if_valid_new: "if_valid P IfAddrs_new"
  by (simp add: if_valid_def IfAddrs_new_def)

lemma add_valid:
  assumes "ip_laws P" "if_valid P ia"
  shows "if_valid P (snd (addDest P s ia))" "if_valid P (snd (addAddr P s ia))"
    "if_valid P (setMtu m ia)"
  using assms ip_lawsD(1) [OF assms(1)]
  by (auto simp: if_valid_def addDest_def addAddr_def setMtu_def split: sum.splits)

lemma add_strings_valid:
  assumes add: "\<And>s ia. if_valid P ia \<Longrightarrow> if_valid P (snd (add s ia))"
  shows "if_valid P ia \<Longrightarrow> add_strings J add vs ia = Inr (ok, ia') \<Longrightarrow> if_valid P ia'"
proof (induction vs arbitrary: ia)
  case (Cons v vs)
  then obtain s where s: "j_asString J v = Inr s" by (auto simp: ebind_eq_Inr)
  obtain ok1 ia1 where a: "add s ia = (ok1, ia1)" by (cases "add s ia")
  have "if_valid P ia1" using add [OF Cons.prems(1), of s] a by simp
  then show ?case using Cons.IH [of ia1] Cons.prems(2) s a by (auto split: if_splits)
qed simp

lemma RouteVia_fromJson_valid:
  assumes P: "ip_laws P" and r: "RouteVia_fromJson J P val rv = Inr (True, rv')"
  shows "ip_valid P (rv_dest rv') \<and> ip_valid P (rv_via rv')"
proof -
  obtain sd sv where s: "(case (ip_parse P sd, ip_parse P sv) of
      (Inr dest, Inr via) \<Rightarrow> Inr (True, rv\<lparr>rv_dest := dest, rv_via := via\<rparr>)
    | _ \<Rightarrow> Inr (False, rv)) = (Inr (True, rv') :: (bool \<times> 'a RouteVia) exec)"
    using r unfolding RouteVia_fromJson_def ebind_eq_Inr by blast
  then obtain dest via where "ip_parse P sd = Inr dest" "ip_parse P sv = Inr via"
    "rv' = rv\<lparr>rv_dest := dest, rv_via := via\<rparr>"
    by (cases "ip_parse P sd"; cases "ip_parse P sv") auto
  then show ?thesis using ip_lawsD(1) [OF P] by simp
qed

lemma add_routes_valid:
  assumes P: "ip_laws P"
  shows "if_valid P ia \<Longrightarrow> add_routes J P items ia = Inr (ok, ia') \<Longrightarrow> if_valid P ia'"
proof (induction items arbitrary: ia)
  case (Cons item items)
  then obtain ok1 rv where r: "RouteVia_fromJson J P item (RouteVia_new P) = Inr (ok1, rv)"
    by (auto simp: ebind_eq_Inr)
  show ?case
  proof (cases ok1)
    case False
    then show ?thesis using Cons.prems r by simp
  next
    case True
    have "RouteVia_fromJson J P item (RouteVia_new P) = Inr (True, rv)" using r True by simp
    then have "if_valid P (ia\<lparr>ia_routes := ia_routes ia @ [rv]\<rparr>)"
      using Cons.prems(1) by (auto simp: if_valid_def dest!: RouteVia_fromJson_valid [OF P])
    then show ?thesis
      using Cons.IH Cons.prems(2) r True by (auto simp: addRoute_def RouteVia_isValid_def)
  qed
qed simp

text \<open>Accepted or not, what \<open>fromJson\<close> has filled in is well typed.\<close>

lemma IfAddrs_fromJson_valid:
  assumes P: "ip_laws P" and ia: "if_valid P ia" and j: "IfAddrs_fromJson J P val ia = Inr (ok, ia')"
  shows "if_valid P ia'"
proof -
  from j obtain jd ok1 ia1 where d: "j_at J val ''dests'' = Inr jd"
    "add_strings J (addDest P) (j_elems J jd) ia = Inr (ok1, ia1)"
    unfolding IfAddrs_fromJson_def ebind_eq_Inr by (elim exE conjE) auto
  have v1: "if_valid P ia1" by (rule add_strings_valid [OF add_valid(1) [OF P] ia d(2)])
  show ?thesis
  proof (cases ok1)
    case False
    then show ?thesis using j v1 by (simp add: IfAddrs_fromJson_def d)
  next
    case True
    with j obtain jm m ja ok3 ia3 where m: "j_get J val ''mtu'' (j_uint J (ia_mtu ia1)) = Inr jm"
      "j_asInt J jm = Inr m" "j_at J val ''addrs'' = Inr ja"
      "add_strings J (addAddr P) (j_elems J ja) (setMtu (word_of_int m) ia1) = Inr (ok3, ia3)"
      by (simp add: IfAddrs_fromJson_def d ebind_eq_Inr Let_def) (elim exE conjE, auto)
    have v3: "if_valid P ia3"
      by (rule add_strings_valid [OF add_valid(2) [OF P] add_valid(3) [OF P v1] m(4)])
    show ?thesis
    proof (cases ok3)
      case False
      then show ?thesis using j v3 True by (simp add: IfAddrs_fromJson_def d m Let_def)
    next
      case ok3: True
      obtain jr where "add_routes J P (j_elems J jr) ia3 = Inr (ok, ia')"
        using j True ok3 by (auto simp: IfAddrs_fromJson_def d m Let_def ebind_eq_Inr)
      then show ?thesis by (rule add_routes_valid [OF P v3])
    qed
  qed
qed

section \<open>Devices of the server\<close>

definition device_typed :: "'ip ip_api \<Rightarrow> TunaTor \<Rightarrow> ('ip, 'q) TunDevice \<Rightarrow> bool" where
  "device_typed P t tun \<longleftrightarrow> if_valid P (td_ifAddrs tun) \<and>
     ia_mtu (td_ifAddrs tun) \<le> ucast (tt_mtu t) \<and>
     pb_mtu (pq_pb (td_fromTun tun)) = ucast (tt_mtu t) \<and>
     pb_mtu (pq_pb (td_toTun tun)) = ucast (tt_mtu t)"

text \<open>
  A turn keeps the description and the packet size of one queue; as both queues of a
  well-formed device have the same packet size, that is enough.
\<close>

definition keeps_config :: "('ip, 'q) TunDevice \<Rightarrow> ('ip, 'q) TunDevice \<Rightarrow> bool" where
  "keeps_config tun tun' \<longleftrightarrow> td_ifAddrs tun' = td_ifAddrs tun \<and>
     (pb_mtu (pq_pb (td_fromTun tun')) = pb_mtu (pq_pb (td_fromTun tun)) \<or>
      pb_mtu (pq_pb (td_toTun tun')) = pb_mtu (pq_pb (td_toTun tun)))"

lemma device_typed_keeps:
  "device_typed P t tun \<Longrightarrow> keeps_config tun tun' \<Longrightarrow> dev_ok R tun' \<Longrightarrow> device_typed P t tun'"
  by (auto simp: device_typed_def keeps_config_def dev_ok_def)

lemma start_keeps_config:
  assumes "start asCommands os tun = Inr (True, tun')"
  shows "td_ifAddrs tun' = td_ifAddrs tun" "ia_mtu (td_ifAddrs tun) \<le> pb_mtu (pq_pb (td_fromTun tun))"
  using assms
  by (auto simp: start_def startEcho_def startOnTun_def pb_getMtu_def getPacketBuffer_def Let_def
      ebind_eq_Inr split: if_splits prod.splits option.splits)

text \<open>Turns that replace one device.\<close>

definition one_turn :: "('c, 'ip, 'q) TunaServer \<Rightarrow> ('c, 'ip, 'q) TunaServer \<Rightarrow> bool" where
  "one_turn srv srv' \<longleftrightarrow>
     (\<exists>i tun'. i < length (ts_heap srv) \<and> ts_heap srv' = (ts_heap srv)[i := tun'] \<and>
        keeps_config (ts_heap srv ! i) tun')"

lemma one_turnI:
  "i < length (ts_heap srv) \<Longrightarrow> ts_heap srv' = (ts_heap srv)[i := tun'] \<Longrightarrow>
     keeps_config (ts_heap srv ! i) tun' \<Longrightarrow> one_turn srv srv'"
  unfolding one_turn_def by (intro exI conjI)

lemma one_turn_typed:
  assumes "one_turn srv srv'" "\<forall>tun \<in> set (ts_heap srv). device_typed P t tun" "srv_ok R srv'"
  shows "\<forall>tun \<in> set (ts_heap srv'). device_typed P t tun"
proof
  fix tun assume t: "tun \<in> set (ts_heap srv')"
  obtain i tun' where i: "i < length (ts_heap srv)" "ts_heap srv' = (ts_heap srv)[i := tun']"
    "keeps_config (ts_heap srv ! i) tun'" using assms(1) by (auto simp: one_turn_def)
  have "dev_ok R tun" using assms(3) t by (simp add: srv_ok_def)
  moreover have "device_typed P t (ts_heap srv ! i)" using assms(2) i(1) by simp
  ultimately show "device_typed P t tun"
    using assms(2) device_typed_keeps [OF _ i(3)] t i(2) set_update_subset_insert [of "ts_heap srv" i tun']
    by auto
qed

lemma one_turn_device:
  assumes "device_turn i f srv = Inr srv'" "i < length (ts_heap srv)"
    "\<And>tun'. f (ts_heap srv ! i) = Inr tun' \<Longrightarrow> keeps_config (ts_heap srv ! i) tun'"
  shows "one_turn srv srv'"
  using assms by (auto simp: device_turn_def ebind_eq_Inr intro: one_turnI)

text \<open>The steps of the server, as far as they concern the devices.\<close>

lemma actionInit_typed:
  assumes laws: "ring_laws (pf_ring L)" "ip_laws (pf_ip L)"
    and st: "actionInit L ev data c srv = Inr srv'"
    and ok: "\<forall>tun \<in> set (ts_heap srv). device_typed (pf_ip L) (ts_tunaTor srv) tun"
  shows "\<forall>tun \<in> set (ts_heap srv'). device_typed (pf_ip L) (ts_tunaTor srv) tun"
  using st
proof (cases rule: actionInit_cases)
  case bad
  then show ?thesis using ok by simp
next
  case (failed ia tun1 tun2)
  then show ?thesis using ok sendTun_options [OF failed(3)] by simp
next
  case (started ia tun1 tun2 tun3 tun4 srv2)
  note k = start_keeps(1,2) [OF started(2)] and c = start_keeps_config [OF started(2)]
  have t3: "tun3 = tun1\<lparr>td_statThread := Some Joinable, td_recvThread := Some Joinable\<rparr>"
    by (rule set_threads [OF started(3,4)])
  have d3: "dev_ok (pf_ring L) tun3" using dev_ok_new [OF laws(1)] k by (simp add: dev_ok_def t3)
  have "if_valid (pf_ip L) ia"
    by (rule IfAddrs_fromJson_valid [OF laws(2) if_valid_new started(1)])
  then have "device_typed (pf_ip L) (ts_tunaTor srv) tun3"
    using k c by (simp add: device_typed_def t3 TunDevice_new_def PacketQueue_new_def)
  then have "device_typed (pf_ip L) (ts_tunaTor srv) tun4"
    using sendTun_keeps(1) [OF started(5) d3] by (simp add: device_typed_def reported_def)
  then show ?thesis using ok started(6) sendTun_options [OF started(5)] by simp
qed

lemma srv_step_typed:
  assumes laws: "ring_laws (pf_ring L)" "ip_laws (pf_ip L)" and s: "srv_ok (pf_ring L) srv"
    and st: "srv_step L srv srv'"
    and ok: "\<forall>tun \<in> set (ts_heap srv). device_typed (pf_ip L) (ts_tunaTor srv) tun"
  shows "\<forall>tun \<in> set (ts_heap srv'). device_typed (pf_ip L) (ts_tunaTor srv') tun"
proof -
  have s': "srv_ok (pf_ring L) srv'" by (rule srv_step_ok [OF laws(1) st s])
  have o: "ts_tunaTor srv' = ts_tunaTor srv" by (rule srv_step_options [OF st])
  note turn = one_turn_typed [OF _ ok s', folded o]
  have inv: "pq_inv (pf_ring L) (td_toTun (ts_heap srv ! i))" "pq_inv (pf_ring L) (td_fromTun (ts_heap srv ! i))"
    if "i < length (ts_heap srv)" for i
    using srv_ok_dev [OF s that] by (simp_all add: dev_ok_def)
  show ?thesis
    using st
  proof cases
    case (message script ev c msg)
    from message(2) show ?thesis
    proof (cases rule: onmessage_cases)
      case same
      then show ?thesis using ok by simp
    next
      case (init data)
      from actionInit_typed [OF laws init ok] show ?thesis unfolding o .
    next
      case (packet i)
      have "i < length (ts_heap srv)" using s packet(1) by (auto simp: srv_ok_def)
      then have "one_turn srv srv'"
        using packet(2) by (auto simp: keeps_config_def elim!: processPacket_cases intro: one_turnI)
      then show ?thesis by (rule turn)
    qed
  next
    case (close c closed)
    show ?thesis
    proof (cases "ts_tunDevices srv c")
      case None
      then show ?thesis using close ok by (simp add: disconnect_def)
    next
      case (Some i)
      have "i < length (ts_heap srv)" using s Some by (auto simp: srv_ok_def)
      then have "one_turn srv srv'"
        using close disconnect_eq [OF s Some]
        by (auto simp: keeps_config_def stopped_def intro: one_turnI)
      then show ?thesis by (rule turn)
    qed
  next
    case (recv i waits c)
    then have "one_turn srv srv'"
      by (auto simp: recv_turn_def keeps_config_def Let_def ebind_eq_Inr intro: one_turnI)
    then show ?thesis by (rule turn)
  next
    case (stat i ev c)
    have "one_turn srv srv'"
    proof (cases "td_running (ts_heap srv ! i)")
      case False
      then show ?thesis
        using stat by (intro one_turnI [of i _ _ "ts_heap srv ! i"]) (auto simp: stat_turn_def keeps_config_def)
    next
      case True
      with stat obtain tun srv1 where t: "sendTun L ev ''stat-res'' (ts_heap srv ! i) c srv = Inr (tun, srv1)"
        "srv' = srv1\<lparr>ts_heap := (ts_heap srv1)[i := tun]\<rparr>"
        by (auto simp: stat_turn_def ebind_eq_Inr)
      show ?thesis
        using sendTun_keeps(1) [OF t(1) srv_ok_dev [OF s stat(1)]] sendTun_options [OF t(1)] t(2) stat(1)
        by (intro one_turnI [of i]) (auto simp: keeps_config_def reported_def)
    qed
    then show ?thesis by (rule turn)
  next
    case (echo i script waits)
    have "keeps_config (ts_heap srv ! i) tun'"
      if st: "echo_step (pf_ring L) script waits (ts_heap srv ! i) = Inr tun'" for tun'
    proof -
      from st obtain r to' from' where
        p: "pop (pf_ring L) (echo_action (pf_ring L) script) waits (td_toTun (ts_heap srv ! i))
          (td_fromTun (ts_heap srv ! i)) = Inr (r, to', from')"
        and tun': "tun' = (ts_heap srv ! i)\<lparr>td_toTun := to', td_fromTun := from'\<rparr>"
        by (auto simp: echo_step_def ebind_eq_Inr)
      from p have "pop_loop (pf_ring L) (echo_action (pf_ring L) script) waits (td_toTun (ts_heap srv ! i))
          (td_fromTun (ts_heap srv ! i)) = Inr (r, to', from')" by (simp add: pop_def)
      from pop_loop_result [OF laws(1) echo_action_contract inv(1) [OF echo(1)] echo(3) this]
      show ?thesis by (simp add: pop_result_def keeps_config_def tun')
    qed
    from one_turn_device [OF echo(4,1) this] show ?thesis by (rule turn)
  next
    case (from_tun i script evs)
    have "keeps_config (ts_heap srv ! i) tun'"
      if "from_tun_step (pf_ring L) evs script (ts_heap srv ! i) = Inr tun'" for tun'
      using that by (auto simp: from_tun_step_def ebind_eq_Inr keeps_config_def)
    from one_turn_device [OF from_tun(3,1) this] show ?thesis by (rule turn)
  next
    case (to_tun i waits th ret)
    have "keeps_config (ts_heap srv ! i) tun'"
      if "ebind (to_tun_step (pf_ring L) th ret waits (ts_heap srv ! i)) (\<lambda>(tun', _). Inr tun') = Inr tun'" for tun'
      using that by (auto simp: to_tun_step_def ebind_eq_Inr keeps_config_def)
    from one_turn_device [OF to_tun(3,1) this] show ?thesis by (rule turn)
  qed
qed

lemma server_reach_typed:
  assumes laws: "ring_laws (pf_ring L)" "ip_laws (pf_ip L)"
  shows "server_reach L t srv \<Longrightarrow> \<forall>tun \<in> set (ts_heap srv). device_typed (pf_ip L) (ts_tunaTor srv) tun"
proof (induction rule: server_reach.induct)
  case new
  then show ?case by (simp add: TunaServer_new_def)
next
  case (step srv srv')
  from srv_step_typed [OF laws server_reach_ok [OF step(1) laws(1)] step(2,3)] show ?case .
qed

section \<open>Properties\<close>



end
