(* ===== verification/Queue_Threads.thy ===== *)
theory Queue_Threads
  imports Packet_Queue
begin

text \<open>
  The two threads of a \<open>PacketQueue\<close>, step by step: one calls \<open>push\<close> again and again,
  the other \<open>pop\<close>. Each access to a shared \<open>used\<close> flag, to the bytes of a packet, to its
  size and to the ring is one step, and the steps of the two threads interleave in any
  order (the memory is taken to be sequentially consistent; the counters of the
  statistic, which nobody decides on, are left out). Sleeping and waiting on the condition
  variable are states that may end at any time, so every timeout is covered.
\<close>

section \<open>The scan of alloc, one access at a time\<close>

text \<open>\<open>ATest i\<close> is about to read \<open>packet.used\<close> of packet \<open>i\<close>, \<open>AMark i\<close> to set it.\<close>

datatype alloc_pc = ATest nat | AMark nat | ADone "nat option"

fun alloc_micro :: "PacketBuffer \<Rightarrow> alloc_pc \<Rightarrow> PacketBuffer \<times> alloc_pc" where
  "alloc_micro b (ATest i) =
     (b, if i < unat (pb_size b)
         then (if used (packets b ! i) then ATest (Suc i) else AMark i)
         else ADone None)"
| "alloc_micro b (AMark i) =
     (b\<lparr>packets := (packets b)[i := (packets b ! i)\<lparr>used := True\<rparr>]\<rparr>, ADone (Some i))"
| "alloc_micro b (ADone r) = (b, ADone r)"

section \<open>States\<close>

text \<open>
  Where the producer is in \<open>push\<close>, and the consumer in \<open>pop\<close>. The bytes in \<open>Store\<close> and
  \<open>Enqueue\<close> are the ones the closure wrote; they are kept for the statements only.
\<close>

datatype producer =
    Between
  | Alloc alloc_pc
  | Action nat
  | Store nat bytes
  | Enqueue nat bytes
  | Discard nat
  | Sleep

datatype consumer =
    Ready
  | Consume nat
  | Release nat
  | Wait

record 'q threads =
  th_pool :: PacketBuffer
  th_ring :: 'q
  th_prod :: producer
  th_cons :: consumer
  th_in :: "bytes list"
  th_out :: "bytes list"

definition threads_init ::
  "'q ring_api \<Rightarrow> (nat \<Rightarrow> char) \<Rightarrow> size_t \<Rightarrow> size_t \<Rightarrow> 'q threads" where
  "threads_init R raw mtu n =
     \<lparr>th_pool = PacketBuffer_new raw mtu n, th_ring = rb_new R n,
      th_prod = Between, th_cons = Ready, th_in = [], th_out = []\<rparr>"

section \<open>Steps\<close>

inductive producer_step :: "'q ring_api \<Rightarrow> 'q threads \<Rightarrow> 'q threads \<Rightarrow> bool" for R where
  p_call: "th_prod s = Between \<Longrightarrow> producer_step R s (s\<lparr>th_prod := Alloc (ATest 0)\<rparr>)"
| p_test: "th_prod s = Alloc (ATest i) \<Longrightarrow> alloc_micro (th_pool s) (ATest i) = (b, pc) \<Longrightarrow>
    producer_step R s (s\<lparr>th_pool := b, th_prod := Alloc pc\<rparr>)"
| p_mark: "th_prod s = Alloc (AMark i) \<Longrightarrow> alloc_micro (th_pool s) (AMark i) = (b, pc) \<Longrightarrow>
    producer_step R s (s\<lparr>th_pool := b, th_prod := Alloc pc\<rparr>)"
| p_got: "th_prod s = Alloc (ADone (Some i)) \<Longrightarrow> producer_step R s (s\<lparr>th_prod := Action i\<rparr>)"
| p_full: "th_prod s = Alloc (ADone None) \<Longrightarrow> producer_step R s (s\<lparr>th_prod := Sleep\<rparr>)"
| p_retry: "th_prod s = Sleep \<Longrightarrow> producer_step R s (s\<lparr>th_prod := Alloc (ATest 0)\<rparr>)"
| p_timeout: "th_prod s = Sleep \<Longrightarrow> producer_step R s (s\<lparr>th_prod := Between\<rparr>)"
| p_write: "th_prod s = Action i \<Longrightarrow> 0 < length bs \<Longrightarrow>
    length bs \<le> unat (maxSize (packets (th_pool s) ! i)) \<Longrightarrow>
    mem_write (buffer (th_pool s)) (unat (buf (packets (th_pool s) ! i))) bs = Inr m \<Longrightarrow>
    producer_step R s (s\<lparr>th_pool := (th_pool s)\<lparr>buffer := m\<rparr>, th_prod := Store i bs\<rparr>)"
| p_fail: "th_prod s = Action i \<Longrightarrow>
    length bs \<le> unat (maxSize (packets (th_pool s) ! i)) \<Longrightarrow>
    mem_write (buffer (th_pool s)) (unat (buf (packets (th_pool s) ! i))) bs = Inr m \<Longrightarrow>
    producer_step R s (s\<lparr>th_pool := (th_pool s)\<lparr>buffer := m\<rparr>, th_prod := Discard i\<rparr>)"
| p_size: "th_prod s = Store i bs \<Longrightarrow>
    producer_step R s
      (s\<lparr>th_pool := pb_setSize i (of_nat (length bs)) (th_pool s), th_prod := Enqueue i bs\<rparr>)"
| p_push: "th_prod s = Enqueue i bs \<Longrightarrow> rb_push R i (th_ring s) = (True, q) \<Longrightarrow>
    producer_step R s (s\<lparr>th_ring := q, th_prod := Between, th_in := th_in s @ [bs]\<rparr>)"
| p_reject: "th_prod s = Enqueue i bs \<Longrightarrow> rb_push R i (th_ring s) = (False, q) \<Longrightarrow>
    producer_step R s (s\<lparr>th_ring := q, th_prod := Discard i\<rparr>)"
| p_free: "th_prod s = Discard i \<Longrightarrow>
    producer_step R s (s\<lparr>th_pool := pb_free i (th_pool s), th_prod := Between\<rparr>)"

inductive consumer_step :: "'q ring_api \<Rightarrow> 'q threads \<Rightarrow> 'q threads \<Rightarrow> bool" for R where
  c_pop: "th_cons s = Ready \<Longrightarrow> rb_pop R (th_ring s) = (Some i, q) \<Longrightarrow>
    consumer_step R s (s\<lparr>th_ring := q, th_cons := Consume i\<rparr>)"
| c_empty: "th_cons s = Ready \<Longrightarrow> rb_pop R (th_ring s) = (None, q) \<Longrightarrow>
    consumer_step R s (s\<lparr>th_ring := q, th_cons := Wait\<rparr>)"
| c_wake: "th_cons s = Wait \<Longrightarrow> consumer_step R s (s\<lparr>th_cons := Ready\<rparr>)"
| c_read: "th_cons s = Consume i \<Longrightarrow>
    mem_read (buffer (th_pool s)) (unat (buf (packets (th_pool s) ! i)))
      (unat (psize (packets (th_pool s) ! i))) = Inr bs \<Longrightarrow>
    consumer_step R s (s\<lparr>th_cons := Release i, th_out := th_out s @ [bs]\<rparr>)"
| c_free: "th_cons s = Release i \<Longrightarrow>
    consumer_step R s (s\<lparr>th_pool := pb_free i (th_pool s), th_cons := Ready\<rparr>)"

inductive threads_reach ::
  "'q ring_api \<Rightarrow> (nat \<Rightarrow> char) \<Rightarrow> size_t \<Rightarrow> size_t \<Rightarrow> 'q threads \<Rightarrow> bool" for R raw mtu n where
  start: "threads_reach R raw mtu n (threads_init R raw mtu n)"
| prod: "threads_reach R raw mtu n s \<Longrightarrow> producer_step R s s' \<Longrightarrow> threads_reach R raw mtu n s'"
| cons: "threads_reach R raw mtu n s \<Longrightarrow> consumer_step R s s' \<Longrightarrow> threads_reach R raw mtu n s'"


section \<open>The invariant\<close>

fun prod_slot :: "producer \<Rightarrow> nat set" where
  "prod_slot (Alloc (ADone (Some i))) = {i}"
| "prod_slot (Action i) = {i}"
| "prod_slot (Store i bs) = {i}"
| "prod_slot (Enqueue i bs) = {i}"
| "prod_slot (Discard i) = {i}"
| "prod_slot _ = {}"

fun cons_slot :: "consumer \<Rightarrow> nat set" where
  "cons_slot (Consume i) = {i}"
| "cons_slot (Release i) = {i}"
| "cons_slot _ = {}"

text \<open>The packet that was taken from the ring and not yet read.\<close>

fun cons_pending :: "consumer \<Rightarrow> nat list" where
  "cons_pending (Consume i) = [i]"
| "cons_pending _ = []"

fun prod_data :: "PacketBuffer \<Rightarrow> producer \<Rightarrow> bool" where
  "prod_data b (Alloc (AMark i)) \<longleftrightarrow> i < capacity b \<and> \<not> used_at b i"
| "prod_data b (Store i bs) \<longleftrightarrow> length bs \<le> unat (pb_mtu b) \<and>
     take (length bs) (drop (unat (buf (packets b ! i))) (buffer b)) = bs"
| "prod_data b (Enqueue i bs) \<longleftrightarrow>
     unat (psize (packets b ! i)) \<le> unat (pb_mtu b) \<and> payload b i = bs"
| "prod_data b _ \<longleftrightarrow> True"

definition th_slots :: "'q ring_api \<Rightarrow> 'q threads \<Rightarrow> bool" where
  "th_slots R s \<longleftrightarrow>
     (let c = rb_content R (th_ring s); P = prod_slot (th_prod s); C = cons_slot (th_cons s) in
      wf_pb (th_pool s) \<and> rb_cap R (th_ring s) = capacity (th_pool s) \<and> distinct c \<and>
      held used_at (th_pool s) = set c \<union> P \<union> C \<and>
      set c \<inter> P = {} \<and> set c \<inter> C = {} \<and> P \<inter> C = {})"

definition th_data :: "'q ring_api \<Rightarrow> 'q threads \<Rightarrow> bool" where
  "th_data R s \<longleftrightarrow>
     (let c = cons_pending (th_cons s) @ rb_content R (th_ring s) in
      (\<forall>i \<in> set c. unat (psize (packets (th_pool s) ! i)) \<le> unat (pb_mtu (th_pool s))) \<and>
      th_in s = th_out s @ map (payload (th_pool s)) c \<and>
      prod_data (th_pool s) (th_prod s))"

lemma cons_pending_slot: "set (cons_pending c) \<subseteq> cons_slot c"
  by (cases c) auto

lemma th_slots_cap:
  assumes "th_slots R s" "i \<in> set (rb_content R (th_ring s)) \<union> prod_slot (th_prod s) \<union> cons_slot (th_cons s)"
  shows "i < capacity (th_pool s)"
  using assms pb_pool.held_subset [of "th_pool s"] by (auto simp: th_slots_def Let_def)

text \<open>
  A change to the bytes of the producer's packet, or to its size, leaves every packet
  that was handed on as it is.
\<close>

lemma th_queue_keep:
  assumes sl: "th_slots R s" and i: "i \<in> prod_slot (th_prod s)" and d: "th_data R s"
    and w: "mem_write (buffer (th_pool s)) (unat (buf (packets (th_pool s) ! i))) bs = Inr m"
    and l: "length bs \<le> unat (maxSize (packets (th_pool s) ! i))"
    and j: "j \<in> set (cons_pending (th_cons s) @ rb_content R (th_ring s))"
  shows "payload ((th_pool s)\<lparr>buffer := m\<rparr>) j = payload (th_pool s) j"
proof (rule payload_other)
  have "j \<in> set (rb_content R (th_ring s)) \<union> cons_slot (th_cons s)"
    using j cons_pending_slot by auto
  then show "i \<noteq> j" "i < capacity (th_pool s)" "j < capacity (th_pool s)"
    using sl i th_slots_cap [OF sl] by (auto simp: th_slots_def Let_def)
  show "length m = length (buffer (th_pool s))" using mem_write_length [OF w] .
  then show "m ! k = buffer (th_pool s) ! k"
    if "k < length m" "k < unat (buf (packets (th_pool s) ! i)) \<or>
      unat (buf (packets (th_pool s) ! i)) + unat (maxSize (packets (th_pool s) ! i)) \<le> k" for k
    using that l by (intro mem_write_nth [OF w]) auto
qed (use sl d j in \<open>auto simp: th_slots_def th_data_def Let_def\<close>)

lemma threads_init_inv:
  assumes "ring_laws R" "unat mtu + 8 < 2 ^ 64" "unat (packetSize_of mtu) * unat n < 2 ^ 64"
  shows "th_slots R (threads_init R raw mtu n)" "th_data R (threads_init R raw mtu n)"
  using wf_pb_new [OF assms(2,3)] ring_new [OF assms(1)]
  by (simp_all add: th_slots_def th_data_def threads_init_def held_def)

lemma used_at_mark:
  assumes "wf_pb b" "i < capacity b"
  shows "used_at (b\<lparr>packets := (packets b)[i := (packets b ! i)\<lparr>used := True\<rparr>]\<rparr>) =
      (used_at b)(i := True)"
    "wf_pb (b\<lparr>packets := (packets b)[i := (packets b ! i)\<lparr>used := True\<rparr>]\<rparr>)"
    "capacity (b\<lparr>packets := (packets b)[i := (packets b ! i)\<lparr>used := True\<rparr>]\<rparr>) = capacity b"
  using assms wf_pb_upd [OF assms(1), where f = "\<lambda>p. p\<lparr>used := True\<rparr>"]
  by (auto simp: used_at_def wf_pb_def capacity_def nth_update_if fun_eq_iff)

lemma held_upd:
  "used_at b' = (used_at b)(i := True) \<Longrightarrow> held used_at b' = insert i (held used_at b)"
  "used_at b' = (used_at b)(i := False) \<Longrightarrow> held used_at b' = held used_at b - {i}"
  "used_at b' = used_at b \<Longrightarrow> held used_at b' = held used_at b"
  by (auto simp: held_def)

lemma producer_step_slots:
  assumes R: "ring_laws R" and st: "producer_step R s s'" and sl: "th_slots R s" and d: "th_data R s"
  shows "th_slots R s'"
  using st
proof cases
  case (p_test i b pc)
  then have "prod_slot (Alloc pc) = {}" by (cases pc) (simp_all split: if_splits)
  then show ?thesis using p_test sl by (simp add: th_slots_def Let_def)
next
  case (p_mark i b pc)
  then have i: "i < capacity (th_pool s)" "\<not> used_at (th_pool s) i" and wf: "wf_pb (th_pool s)"
    using d sl by (auto simp: th_data_def th_slots_def Let_def)
  then have "i \<notin> held used_at (th_pool s)" by (simp add: held_def)
  with p_mark sl used_at_mark [OF wf i(1)] held_upd(1) [OF used_at_mark(1) [OF wf i(1)]]
  show ?thesis by (auto simp: th_slots_def Let_def)
next
  case (p_write i bs m)
  then show ?thesis
    using sl wf_pb_buffer [OF _ mem_write_length]
    by (auto simp: th_slots_def Let_def held_upd(3) [OF used_at_buffer])
next
  case (p_fail i bs m)
  then show ?thesis
    using sl wf_pb_buffer [OF _ mem_write_length]
    by (auto simp: th_slots_def Let_def held_upd(3) [OF used_at_buffer])
next
  case (p_size i bs)
  then show ?thesis
    using sl by (auto simp: th_slots_def Let_def held_upd(3) [OF used_at_setSize])
next
  case (p_push i bs q)
  then show ?thesis
    using sl ring_pushD [OF R p_push(3)] by (auto simp: th_slots_def Let_def)
next
  case (p_reject i bs q)
  then show ?thesis
    using sl ring_pushD [OF R p_reject(3)] by (auto simp: th_slots_def Let_def)
next
  case (p_free i)
  have wf: "wf_pb (th_pool s)" using sl by (simp add: th_slots_def Let_def)
  then show ?thesis
    using p_free sl held_upd(2) [OF used_at_free [OF wf]] by (auto simp: th_slots_def Let_def)
qed (use sl in \<open>auto simp: th_slots_def Let_def\<close>)

lemma consumer_step_slots:
  assumes R: "ring_laws R" and st: "consumer_step R s s'" and sl: "th_slots R s"
  shows "th_slots R s'"
  using st
proof cases
  case (c_pop q i)
  then show ?thesis
    using sl ring_popD(1,3) [OF R c_pop(3)] by (auto simp: th_slots_def Let_def)
next
  case (c_empty q)
  then show ?thesis
    using sl ring_popD(1,2) [OF R c_empty(3)] by (auto simp: th_slots_def Let_def)
next
  case (c_free i)
  have wf: "wf_pb (th_pool s)" using sl by (simp add: th_slots_def Let_def)
  then show ?thesis
    using c_free sl held_upd(2) [OF used_at_free [OF wf]] by (auto simp: th_slots_def Let_def)
qed (use sl in \<open>auto simp: th_slots_def Let_def\<close>)

lemma payload_queue:
  "(\<And>j. j \<in> set c \<Longrightarrow> payload b' j = payload b j) \<Longrightarrow> map (payload b') c = map (payload b) c"
  by simp

lemma producer_step_data:
  assumes R: "ring_laws R" and st: "producer_step R s s'" and sl: "th_slots R s" and d: "th_data R s"
  shows "th_data R s'"
proof -
  let ?c = "cons_pending (th_cons s) @ rb_content R (th_ring s)"
  note keep = th_queue_keep [OF sl _ d]
  from st show ?thesis
  proof cases
    case (p_test i b pc)
    then have "prod_data (th_pool s) (Alloc pc)" by (auto simp: capacity_def used_at_def)
    then show ?thesis using p_test d by (simp add: th_data_def Let_def)
  next
    case (p_mark i b pc)
    then show ?thesis using d by (auto simp: th_data_def Let_def nth_update_if)
  next
    case (p_write i bs m)
    have "i < capacity (th_pool s)" using th_slots_cap [OF sl, of i] p_write(2) by simp
    then have mx: "maxSize (packets (th_pool s) ! i) = pb_mtu (th_pool s)"
      using wf_pb_slot(3) [of "th_pool s" i] sl by (simp add: th_slots_def Let_def)
    have "payload ((th_pool s)\<lparr>buffer := m\<rparr>) j = payload (th_pool s) j" if "j \<in> set ?c" for j
      using keep [of i bs m j] p_write that by simp
    moreover have "take (length bs) (drop (unat (buf (packets (th_pool s) ! i))) m) = bs"
      using mem_read_write_same [OF p_write(5)] by (simp add: mem_read_def split: if_splits)
    ultimately show ?thesis
      using d p_write mx by (auto simp: th_data_def Let_def)
  next
    case (p_fail i bs m)
    have "payload ((th_pool s)\<lparr>buffer := m\<rparr>) j = payload (th_pool s) j" if "j \<in> set ?c" for j
      using keep [of i bs m j] p_fail that by simp
    then show ?thesis using d p_fail by (auto simp: th_data_def Let_def)
  next
    case (p_size i bs)
    have wf: "wf_pb (th_pool s)" using sl by (simp add: th_slots_def Let_def)
    have "i < capacity (th_pool s)" using th_slots_cap [OF sl, of i] p_size(2) by simp
    then have il: "i < length (packets (th_pool s))" using wf by (simp add: wf_pb_def capacity_def)
    have ni: "i \<notin> set ?c"
      using sl p_size(2) cons_pending_slot [of "th_cons s"] by (auto simp: th_slots_def Let_def)
    have bs: "length bs \<le> unat (pb_mtu (th_pool s))"
      "take (length bs) (drop (unat (buf (packets (th_pool s) ! i))) (buffer (th_pool s))) = bs"
      using d p_size(2) by (auto simp: th_data_def Let_def)
    have "length bs < 2 ^ 64"
      using bs(1) unsigned_less [of "pb_mtu (th_pool s)", where 'a = nat] by simp
    then have "unat (of_nat (length bs) :: size_t) = length bs" by (simp add: unat_of_nat)
    with il ni bs d p_size show ?thesis
      by (auto simp: th_data_def Let_def payload_setSize psize_setSize)
  next
    case (p_push i bs q)
    with d ring_pushD(3) [OF R p_push(3)] show ?thesis by (auto simp: th_data_def Let_def)
  next
    case (p_reject i bs q)
    with d ring_pushD(3) [OF R p_reject(3)] show ?thesis by (auto simp: th_data_def Let_def)
  next
    case (p_free i)
    with d show ?thesis by (auto simp: th_data_def Let_def)
  qed (use d in \<open>auto simp: th_data_def Let_def\<close>)
qed

lemma prod_data_free:
  assumes "wf_pb b" "prod_data b pc"
  shows "prod_data (pb_free i b) pc"
proof -
  have "buf (packets (pb_free i b) ! j) = buf (packets b ! j)" for j
    by (simp add: pb_free_def Packet_free_def nth_update_if)
  then show ?thesis
    using assms by (cases "(b, pc)" rule: prod_data.cases) (auto simp: used_at_free)
qed

lemma consumer_step_data:
  assumes R: "ring_laws R" and st: "consumer_step R s s'" and sl: "th_slots R s" and d: "th_data R s"
  shows "th_data R s'"
  using st
proof cases
  case (c_pop q i)
  then show ?thesis using d ring_popD(3) [OF R c_pop(3)] by (auto simp: th_data_def Let_def)
next
  case (c_empty q)
  then show ?thesis using d ring_popD(2) [OF R c_empty(3)] by (auto simp: th_data_def Let_def)
next
  case (c_read i bs)
  then have "bs = payload (th_pool s) i"
    by (simp add: mem_read_def payload_def split: if_splits)
  then show ?thesis using c_read d by (auto simp: th_data_def Let_def)
next
  case (c_free i)
  have "wf_pb (th_pool s)" using sl by (simp add: th_slots_def Let_def)
  then show ?thesis using c_free d prod_data_free by (auto simp: th_data_def Let_def)
qed (use d in \<open>auto simp: th_data_def Let_def\<close>)

lemma threads_reach_inv:
  assumes "ring_laws R" "unat mtu + 8 < 2 ^ 64" "unat (packetSize_of mtu) * unat n < 2 ^ 64"
    and "threads_reach R raw mtu n s"
  shows "th_slots R s \<and> th_data R s"
  using assms(4)
proof (induction rule: threads_reach.induct)
  case start
  then show ?case using threads_init_inv [OF assms(1-3)] by blast
next
  case (prod s s')
  then show ?case
    using producer_step_slots [OF assms(1)] producer_step_data [OF assms(1)] by blast
next
  case (cons s s')
  then show ?case
    using consumer_step_slots [OF assms(1)] consumer_step_data [OF assms(1)] by blast
qed

lemma threads_reach_inv16:
  fixes mtu n :: "16 word"
  assumes "ring_laws R" "threads_reach R raw (ucast mtu) (ucast n) s"
  shows "th_slots R s \<and> th_data R s"
  using assms(2)
proof (induction rule: threads_reach.induct)
  case start
  then show ?case
    using wf_pb_new16 [of raw mtu n] ring_new [OF assms(1)]
    by (simp add: th_slots_def th_data_def threads_init_def held_def)
next
  case (prod s s')
  then show ?case
    using producer_step_slots [OF assms(1)] producer_step_data [OF assms(1)] by blast
next
  case (cons s s')
  then show ?case
    using consumer_step_slots [OF assms(1)] consumer_step_data [OF assms(1)] by blast
qed

lemma th_slots_mem:
  assumes "th_slots R s" "i \<in> prod_slot (th_prod s) \<union> cons_slot (th_cons s)"
  shows "unat (buf (packets (th_pool s) ! i)) + unat (pb_mtu (th_pool s)) \<le> length (buffer (th_pool s))"
proof -
  have "wf_pb (th_pool s)" "i < capacity (th_pool s)"
    using assms th_slots_cap [OF assms(1), of i] by (auto simp: th_slots_def Let_def)
  then show ?thesis using wf_pb_slot(1,3) [of "th_pool s" i] by simp
qed

lemma th_slots_room:
  assumes "th_slots R s" "i \<in> prod_slot (th_prod s)"
  shows "length (rb_content R (th_ring s)) < rb_cap R (th_ring s)"
proof -
  let ?c = "rb_content R (th_ring s)" and ?n = "capacity (th_pool s)"
  have "distinct (i # ?c)" "rb_cap R (th_ring s) = ?n"
    using assms by (auto simp: th_slots_def Let_def)
  moreover have "set (i # ?c) \<subseteq> {..<?n}" using assms th_slots_cap [OF assms(1)] by auto
  ultimately show ?thesis
    using card_mono [of "{..<?n}" "set (i # ?c)"] by (simp add: distinct_card)
qed

text \<open>The consumer on its own empties the ring.\<close>

lemma drain_one:
  assumes R: "ring_laws R" and sl: "th_slots R s" and d: "th_data R s"
    and c: "th_cons s = Ready" "rb_content R (th_ring s) = i # is"
  shows "\<exists>s'. (consumer_step R)\<^sup>*\<^sup>* s s' \<and> th_cons s' = Ready \<and> rb_content R (th_ring s') = is"
proof -
  obtain q where p: "rb_pop R (th_ring s) = (Some i, q)" and q: "rb_content R q = is"
    using c(2) ring_popD(2,3) [OF R] by (cases "rb_pop R (th_ring s)"; cases "fst (rb_pop R (th_ring s))") force+
  let ?s1 = "s\<lparr>th_ring := q, th_cons := Consume i\<rparr>"
  have s1: "consumer_step R s ?s1" by (rule c_pop [OF c(1) p])
  note i1 = consumer_step_slots [OF R s1 sl] consumer_step_data [OF R s1 sl d]
  have "unat (buf (packets (th_pool s) ! i)) + unat (psize (packets (th_pool s) ! i))
      \<le> length (buffer (th_pool s))"
    using th_slots_mem [OF i1(1), of i] i1(2) by (simp add: th_data_def Let_def)
  then obtain bs where rd: "mem_read (buffer (th_pool s)) (unat (buf (packets (th_pool s) ! i)))
      (unat (psize (packets (th_pool s) ! i))) = Inr bs"
    using mem_read_ok by blast
  let ?s2 = "?s1\<lparr>th_cons := Release i, th_out := th_out ?s1 @ [bs]\<rparr>"
  have s2: "consumer_step R ?s1 ?s2" by (rule c_read) (simp_all add: rd)
  let ?s3 = "?s2\<lparr>th_pool := pb_free i (th_pool ?s2), th_cons := Ready\<rparr>"
  have s3: "consumer_step R ?s2 ?s3" by (rule c_free) simp
  from s1 s2 s3 have "(consumer_step R)\<^sup>*\<^sup>* s ?s3"
    by (meson converse_rtranclp_into_rtranclp rtranclp.rtrancl_refl)
  then show ?thesis using q by (intro exI [of _ ?s3]) simp
qed

lemma consumer_steps_inv:
  assumes "ring_laws R" "(consumer_step R)\<^sup>*\<^sup>* s s'" "th_slots R s" "th_data R s"
  shows "th_slots R s' \<and> th_data R s'"
  using assms(2)
  by (induction rule: rtranclp_induct)
    (use assms consumer_step_slots [OF assms(1)] consumer_step_data [OF assms(1)] in auto)

lemma consumer_steps_in:
  "(consumer_step R)\<^sup>*\<^sup>* s s' \<Longrightarrow> th_in s' = th_in s"
  by (induction rule: rtranclp_induct) (auto elim: consumer_step.cases)

lemma consumer_ready:
  assumes "th_slots R s" "th_data R s"
  shows "\<exists>s'. (consumer_step R)\<^sup>*\<^sup>* s s' \<and> th_cons s' = Ready"
proof (cases "th_cons s")
  case Ready
  then show ?thesis by blast
next
  case Wait
  then have "consumer_step R s (s\<lparr>th_cons := Ready\<rparr>)" by (rule c_wake)
  then show ?thesis by (intro exI conjI, rule r_into_rtranclp) simp_all
next
  case (Release i)
  then have "consumer_step R s (s\<lparr>th_pool := pb_free i (th_pool s), th_cons := Ready\<rparr>)"
    by (rule c_free)
  then show ?thesis by (intro exI conjI, rule r_into_rtranclp) simp_all
next
  case (Consume i)
  have "unat (buf (packets (th_pool s) ! i)) + unat (psize (packets (th_pool s) ! i))
      \<le> length (buffer (th_pool s))"
    using th_slots_mem [OF assms(1), of i] assms(2) Consume by (simp add: th_data_def Let_def)
  then obtain bs where "mem_read (buffer (th_pool s)) (unat (buf (packets (th_pool s) ! i)))
      (unat (psize (packets (th_pool s) ! i))) = Inr bs"
    using mem_read_ok by blast
  let ?s1 = "s\<lparr>th_cons := Release i, th_out := th_out s @ [bs]\<rparr>"
  let ?s2 = "?s1\<lparr>th_pool := pb_free i (th_pool ?s1), th_cons := Ready\<rparr>"
  have "consumer_step R s ?s1" by (rule c_read [OF Consume]) fact
  moreover have "consumer_step R ?s1 ?s2" by (rule c_free) simp
  ultimately have "(consumer_step R)\<^sup>*\<^sup>* s ?s2"
    by (meson converse_rtranclp_into_rtranclp rtranclp.rtrancl_refl)
  moreover have "th_cons ?s2 = Ready" by simp
  ultimately show ?thesis by blast
qed

lemma drain_all:
  assumes R: "ring_laws R"
  shows "th_slots R s \<Longrightarrow> th_data R s \<Longrightarrow> th_cons s = Ready \<Longrightarrow> rb_content R (th_ring s) = is \<Longrightarrow>
    \<exists>s'. (consumer_step R)\<^sup>*\<^sup>* s s' \<and> th_cons s' = Ready \<and> rb_content R (th_ring s') = []"
proof (induction "is" arbitrary: s)
  case (Cons i "is")
  from drain_one [OF R Cons.prems] obtain s1 where s1: "(consumer_step R)\<^sup>*\<^sup>* s s1"
    "th_cons s1 = Ready" "rb_content R (th_ring s1) = is"
    by blast
  have "th_slots R s1" "th_data R s1"
    using consumer_steps_inv [OF R s1(1) Cons.prems(1,2)] by auto
  from Cons.IH [OF this s1(2,3)] s1(1) show ?case by (meson rtranclp_trans)
qed blast

text \<open>The scan run without interruption.\<close>

definition alloc_micro_run :: "nat \<Rightarrow> PacketBuffer \<Rightarrow> PacketBuffer \<times> alloc_pc" where
  "alloc_micro_run k b = ((\<lambda>(b, pc). alloc_micro b pc) ^^ k) (b, ATest 0)"

lemma alloc_micro_loop:
  "\<exists>k. ((\<lambda>(b, pc). alloc_micro b pc) ^^ k) (b, ATest i) =
     (snd (alloc_loop b i), ADone (fst (alloc_loop b i)))"
proof (induction b i rule: alloc_loop.induct)
  case (1 b i)
  let ?f = "\<lambda>(b, pc). alloc_micro b pc"
  show ?case
  proof (cases "i < unat (pb_size b)")
    case False
    then have "(?f ^^ 1) (b, ATest i) = (snd (alloc_loop b i), ADone (fst (alloc_loop b i)))"
      by (simp add: alloc_loop.simps [of b i])
    then show ?thesis by blast
  next
    case True
    show ?thesis
    proof (cases "used (packets b ! i)")
      case u: True
      from "1" [OF True u] obtain k where "(?f ^^ k) (b, ATest (Suc i)) =
          (snd (alloc_loop b (Suc i)), ADone (fst (alloc_loop b (Suc i))))" ..
      then have "(?f ^^ Suc k) (b, ATest i) = (snd (alloc_loop b i), ADone (fst (alloc_loop b i)))"
        using True u by (simp add: funpow_swap1 [of ?f k] funpow_Suc_right alloc_loop.simps [of b i]
            del: funpow.simps)
      then show ?thesis by blast
    next
      case u: False
      have "(?f ^^ 2) (b, ATest i) = (snd (alloc_loop b i), ADone (fst (alloc_loop b i)))"
        using True u by (simp add: eval_nat_numeral alloc_loop.simps [of b i])
      then show ?thesis by blast
    qed
  qed
qed

text \<open>Two threads in \<open>alloc\<close> of the same pool, scheduled by a list of turns.\<close>

fun two_allocs :: "bool list \<Rightarrow> PacketBuffer \<times> alloc_pc \<times> alloc_pc \<Rightarrow>
    PacketBuffer \<times> alloc_pc \<times> alloc_pc" where
  "two_allocs [] (b, p, q) = (b, p, q)"
| "two_allocs (t # ts) (b, p, q) =
     (if t then (let (b', p') = alloc_micro b p in two_allocs ts (b', p', q))
      else (let (b', q') = alloc_micro b q in two_allocs ts (b', p, q')))"

text \<open>The producer alone can finish a push once it has a packet.\<close>

lemma producer_push_steps:
  fixes mtu n :: "16 word"
  assumes R: "ring_laws R" and s: "threads_reach R raw (ucast mtu) (ucast n) s"
    and p: "th_prod s = Alloc (ADone (Some i))"
    and bs: "bs \<noteq> []" "length bs \<le> unat (pb_mtu (th_pool s))"
  shows "\<exists>s1 s2 s3 s4. producer_step R s s1 \<and> producer_step R s1 s2 \<and> producer_step R s2 s3 \<and>
    producer_step R s3 s4 \<and> th_in s1 = th_in s \<and> th_in s2 = th_in s \<and> th_in s3 = th_in s \<and>
    th_prod s4 = Between \<and> th_in s4 = th_in s @ [bs] \<and> th_out s4 = th_out s \<and> th_cons s4 = th_cons s \<and>
    rb_content R (th_ring s4) = rb_content R (th_ring s) @ [i]"
proof -
  let ?s1 = "s\<lparr>th_prod := Action i\<rparr>"
  have p1: "producer_step R s ?s1" by (rule p_got [OF p])
  then have s1: "threads_reach R raw (ucast mtu) (ucast n) ?s1" by (rule threads_reach.prod [OF s])
  note inv = threads_reach_inv16 [OF R s1]
  have mem: "unat (maxSize (packets (th_pool ?s1) ! i)) = unat (pb_mtu (th_pool ?s1))"
    "unat (buf (packets (th_pool ?s1) ! i)) + unat (pb_mtu (th_pool ?s1)) \<le> length (buffer (th_pool ?s1))"
    using th_slots_mem [of R ?s1 i] th_slots_cap [of R ?s1 i] inv wf_pb_slot [of "th_pool ?s1" i]
    by (simp_all add: th_slots_def Let_def)
  obtain m where m: "mem_write (buffer (th_pool ?s1)) (unat (buf (packets (th_pool ?s1) ! i))) bs = Inr m"
    using mem_write_ok [of "unat (buf (packets (th_pool ?s1) ! i))" bs "buffer (th_pool ?s1)"] mem(2) bs(2)
    by auto
  let ?s2 = "?s1\<lparr>th_pool := (th_pool ?s1)\<lparr>buffer := m\<rparr>, th_prod := Store i bs\<rparr>"
  have p2: "producer_step R ?s1 ?s2" by (rule p_write) (use bs m mem(1) in simp_all)
  then have s2: "threads_reach R raw (ucast mtu) (ucast n) ?s2" by (rule threads_reach.prod [OF s1])
  let ?s3 = "?s2\<lparr>th_pool := pb_setSize i (of_nat (length bs)) (th_pool ?s2), th_prod := Enqueue i bs\<rparr>"
  have p3: "producer_step R ?s2 ?s3" by (rule p_size) simp
  then have s3: "threads_reach R raw (ucast mtu) (ucast n) ?s3" by (rule threads_reach.prod [OF s2])
  obtain ok q where q: "rb_push R i (th_ring ?s3) = (ok, q)" by (cases "rb_push R i (th_ring ?s3)")
  then have ok and c: "rb_content R q = rb_content R (th_ring s) @ [i]"
    using th_slots_room [of R ?s3 i] threads_reach_inv16 [OF R s3] ring_pushD [OF R q] by auto
  let ?s4 = "?s3\<lparr>th_ring := q, th_prod := Between, th_in := th_in ?s3 @ [bs]\<rparr>"
  have p4: "producer_step R ?s3 ?s4" by (rule p_push) (use q \<open>ok\<close> in simp_all)
  show ?thesis
    by (rule exI [of _ ?s1], rule exI [of _ ?s2], rule exI [of _ ?s3], rule exI [of _ ?s4])
      (use p1 p2 p3 p4 c in simp)
qed

lemma producer_pushes:
  fixes mtu n :: "16 word"
  assumes R: "ring_laws R" and s: "threads_reach R raw (ucast mtu) (ucast n) s"
    and p: "th_prod s = Alloc (ADone (Some i))"
    and bs: "bs \<noteq> []" "length bs \<le> unat (pb_mtu (th_pool s))"
  shows "\<exists>s'. threads_reach R raw (ucast mtu) (ucast n) s' \<and> th_prod s' = Between \<and>
    th_in s' = th_in s @ [bs] \<and> th_out s' = th_out s \<and> th_cons s' = th_cons s"
proof -
  from producer_push_steps [OF assms] obtain s1 s2 s3 s4 where st: "producer_step R s s1"
    "producer_step R s1 s2" "producer_step R s2 s3" "producer_step R s3 s4"
    and e: "th_prod s4 = Between" "th_in s4 = th_in s @ [bs]" "th_out s4 = th_out s" "th_cons s4 = th_cons s"
    by (elim exE conjE) (rule that)
  from s have "threads_reach R raw (ucast mtu) (ucast n) s4"
    by (rule threads_reach.prod [OF threads_reach.prod [OF threads_reach.prod [OF threads_reach.prod]]]) (fact st)+
  with e show ?thesis by blast
qed

text \<open>The example: a pool of two packets, one of which has been pushed.\<close>

lemma threads_example:
  "\<exists>s. threads_reach list_ring (\<lambda>_. CHR 0x00) (ucast (9 :: 16 word)) (ucast (2 :: 16 word)) s \<and>
     th_in s = [''packet''] \<and> th_out s = [] \<and> th_cons s = Ready \<and> th_prod s = Between"
proof -
  let ?R = "threads_reach list_ring (\<lambda>_. CHR 0x00) (ucast (9 :: 16 word)) (ucast (2 :: 16 word))"
  let ?s0 = "threads_init list_ring (\<lambda>_. CHR 0x00) (ucast (9 :: 16 word)) (ucast (2 :: 16 word))"
  let ?s1 = "?s0\<lparr>th_prod := Alloc (ATest 0)\<rparr>"
  let ?s2 = "?s1\<lparr>th_pool := th_pool ?s1, th_prod := Alloc (AMark 0)\<rparr>"
  let ?s3 = "?s2\<lparr>th_pool := fst (alloc_micro (th_pool ?s2) (AMark 0)), th_prod := Alloc (ADone (Some 0))\<rparr>"
  have "?R ?s1" by (rule threads_reach.prod [OF threads_reach.start], rule p_call)
      (simp add: threads_init_def)
  then have "?R ?s2"
    by (rule threads_reach.prod, intro p_test [of _ 0])
      (simp_all add: threads_init_def PacketBuffer_new_def Let_def)
  then have s3: "?R ?s3" by (rule threads_reach.prod, intro p_mark [of _ 0]) simp_all
  have "\<exists>s'. ?R s' \<and> th_prod s' = Between \<and> th_in s' = th_in ?s3 @ [''packet''] \<and>
      th_out s' = th_out ?s3 \<and> th_cons s' = th_cons ?s3"
    by (rule producer_pushes [OF list_ring_laws s3])
      (simp_all add: threads_init_def PacketBuffer_new_def Let_def)
  then show ?thesis by (auto simp: threads_init_def)
qed

section \<open>Properties\<close>

text \<open>C9: one owner per packet. In every interleaving of a producer and a consumer, the packet
  the producer is working on, the packet the consumer is working on and the packets in the
  ring are all different, and a packet is marked used exactly when it is one of those; so
  nothing leaks and nothing is written while it is read.\<close>
theorem threads_one_owner:
  fixes mtu n :: "16 word"
  assumes "ring_laws R" "threads_reach R raw (ucast mtu) (ucast n) s"
  shows "prod_slot (th_prod s) \<inter> cons_slot (th_cons s) = {} \<and>
    set (rb_content R (th_ring s)) \<inter> (prod_slot (th_prod s) \<union> cons_slot (th_cons s)) = {} \<and>
    distinct (rb_content R (th_ring s)) \<and>
    held used_at (th_pool s) =
       set (rb_content R (th_ring s)) \<union> prod_slot (th_prod s) \<union> cons_slot (th_cons s)"
  using threads_reach_inv16 [OF assms] by (auto simp: th_slots_def Let_def)

theorem threads_one_owner_witness:
  "\<exists>s. threads_reach list_ring (\<lambda>_. CHR 0x00) (ucast (9 :: 16 word)) (ucast (2 :: 16 word)) s \<and>
     th_in s = [''packet''] \<and> held used_at (th_pool s) = set (rb_content list_ring (th_ring s))"
proof -
  obtain s where s: "threads_reach list_ring (\<lambda>_. CHR 0x00) (ucast (9 :: 16 word)) (ucast (2 :: 16 word)) s"
    "th_in s = [''packet'']" "th_cons s = Ready" "th_prod s = Between"
    using threads_example by blast
  have "held used_at (th_pool s) = set (rb_content list_ring (th_ring s))"
    using threads_one_owner [OF list_ring_laws s(1)] s(3,4) by simp
  with s(1,2) show ?thesis by blast
qed

text \<open>C8: first in, first out, under every interleaving. What the consumer has read, followed
  by the packet it is about to read and the packets in the ring, is at every moment exactly
  the sequence of packets the producer has pushed, byte for byte: no packet is lost,
  duplicated, reordered or overwritten while it waits.\<close>
theorem threads_fifo:
  fixes mtu n :: "16 word"
  assumes "ring_laws R" "threads_reach R raw (ucast mtu) (ucast n) s"
  shows "th_in s = th_out s @
    map (payload (th_pool s)) (cons_pending (th_cons s) @ rb_content R (th_ring s))"
  using threads_reach_inv16 [OF assms] by (simp add: th_data_def Let_def)

theorem threads_fifo_witness:
  "\<exists>s. threads_reach list_ring (\<lambda>_. CHR 0x00) (ucast (9 :: 16 word)) (ucast (2 :: 16 word)) s \<and>
     map (payload (th_pool s)) (rb_content list_ring (th_ring s)) = [''packet'']"
proof -
  obtain s where s: "threads_reach list_ring (\<lambda>_. CHR 0x00) (ucast (9 :: 16 word)) (ucast (2 :: 16 word)) s"
    "th_in s = [''packet'']" "th_out s = []" "th_cons s = Ready"
    using threads_example by blast
  have "map (payload (th_pool s)) (rb_content list_ring (th_ring s)) = [''packet'']"
    using threads_fifo [OF list_ring_laws s(1)] by (simp add: s(2-4))
  then show ?thesis by (intro exI [of _ s] conjI s(1))
qed

text \<open>C10: no step goes wrong. In every interleaving, whatever at most \<open>mtu\<close> bytes the
  producer's closure writes lie inside the byte array, the ring never refuses the packet
  (the branch that counts \<open>pushFailed\<close> is dead), and the bytes the consumer's closure reads
  lie inside the byte array.\<close>
theorem threads_accesses_safe:
  fixes mtu n :: "16 word"
  assumes "ring_laws R" "threads_reach R raw (ucast mtu) (ucast n) s"
  shows "(th_prod s = Action i \<and> length bs \<le> unat (pb_mtu (th_pool s)) \<longrightarrow>
      (\<exists>m. mem_write (buffer (th_pool s)) (unat (buf (packets (th_pool s) ! i))) bs = Inr m)) \<and>
    (th_prod s = Enqueue i bs \<longrightarrow> fst (rb_push R i (th_ring s))) \<and>
    (th_cons s = Consume i \<longrightarrow>
      (\<exists>bs. mem_read (buffer (th_pool s)) (unat (buf (packets (th_pool s) ! i)))
        (unat (psize (packets (th_pool s) ! i))) = Inr bs))"
proof -
  note inv = threads_reach_inv16 [OF assms]
  have c1: "\<exists>m. mem_write (buffer (th_pool s)) (unat (buf (packets (th_pool s) ! i))) bs = Inr m"
    if "th_prod s = Action i" "length bs \<le> unat (pb_mtu (th_pool s))"
    by (rule mem_write_ok) (use th_slots_mem [of R s i] inv that in auto)
  have c2: "fst (rb_push R i (th_ring s))" if "th_prod s = Enqueue i bs"
    using th_slots_room [of R s i] inv that ring_pushD(2) [OF assms(1), of i "th_ring s"]
    by (cases "rb_push R i (th_ring s)") auto
  have c3: "\<exists>bs. mem_read (buffer (th_pool s)) (unat (buf (packets (th_pool s) ! i)))
        (unat (psize (packets (th_pool s) ! i))) = Inr bs" if "th_cons s = Consume i"
  proof -
    have "unat (psize (packets (th_pool s) ! i)) \<le> unat (pb_mtu (th_pool s))"
      using inv that by (simp add: th_data_def Let_def)
    then have "unat (buf (packets (th_pool s) ! i)) + unat (psize (packets (th_pool s) ! i))
        \<le> length (buffer (th_pool s))"
      using th_slots_mem [of R s i] inv that by simp
    then show ?thesis using mem_read_ok by blast
  qed
  show ?thesis using c1 c2 c3 by blast
qed

theorem threads_accesses_safe_witness:
  "\<exists>s m. threads_reach list_ring (\<lambda>_. CHR 0x00) (ucast (9 :: 16 word)) (ucast (2 :: 16 word)) s \<and>
     th_prod s = Action 0 \<and>
     mem_write (buffer (th_pool s)) (unat (buf (packets (th_pool s) ! 0))) ''packet'' = Inr m"
proof -
  let ?R = "threads_reach list_ring (\<lambda>_. CHR 0x00) (ucast (9 :: 16 word)) (ucast (2 :: 16 word))"
  let ?s0 = "threads_init list_ring (\<lambda>_. CHR 0x00) (ucast (9 :: 16 word)) (ucast (2 :: 16 word))"
  let ?s1 = "?s0\<lparr>th_prod := Alloc (ATest 0)\<rparr>"
  let ?s2 = "?s1\<lparr>th_pool := th_pool ?s1, th_prod := Alloc (AMark 0)\<rparr>"
  let ?s3 = "?s2\<lparr>th_pool := fst (alloc_micro (th_pool ?s2) (AMark 0)), th_prod := Alloc (ADone (Some 0))\<rparr>"
  let ?s4 = "?s3\<lparr>th_prod := Action 0\<rparr>"
  have "?R ?s1" by (rule threads_reach.prod [OF threads_reach.start], rule p_call)
      (simp add: threads_init_def)
  then have "?R ?s2"
    by (rule threads_reach.prod, intro p_test [of _ 0])
      (simp_all add: threads_init_def PacketBuffer_new_def Let_def)
  then have "?R ?s3" by (rule threads_reach.prod, intro p_mark [of _ 0]) simp_all
  then have "?R ?s4" by (rule threads_reach.prod, intro p_got) simp
  moreover from threads_accesses_safe [OF list_ring_laws this, of 0 "''packet''"]
  have "\<exists>m. mem_write (buffer (th_pool ?s4)) (unat (buf (packets (th_pool ?s4) ! 0))) ''packet'' = Inr m"
    by (simp add: threads_init_def PacketBuffer_new_def Let_def)
  moreover have "th_prod ?s4 = Action 0" by simp
  ultimately show ?thesis by blast
qed

text \<open>C24: the consumer catches up. From every state that the two threads can reach, the
  consumer alone can go on, and does after finitely many of its steps reach a state where
  the ring is empty and everything that was pushed has been read.\<close>
theorem threads_drain:
  fixes mtu n :: "16 word"
  assumes "ring_laws R" "threads_reach R raw (ucast mtu) (ucast n) s"
  shows "\<exists>s'. (consumer_step R)\<^sup>*\<^sup>* s s' \<and> th_out s' = th_in s \<and>
    rb_content R (th_ring s') = [] \<and> th_cons s' = Ready"
proof -
  have inv: "th_slots R s" "th_data R s" using threads_reach_inv16 [OF assms] by auto
  from consumer_ready [OF inv] obtain s1 where s1: "(consumer_step R)\<^sup>*\<^sup>* s s1" "th_cons s1 = Ready"
    by blast
  have inv1: "th_slots R s1" "th_data R s1" using consumer_steps_inv [OF assms(1) s1(1) inv] by auto
  from drain_all [OF assms(1) inv1 s1(2) refl] obtain s' where s': "(consumer_step R)\<^sup>*\<^sup>* s1 s'"
    "th_cons s' = Ready" "rb_content R (th_ring s') = []"
    by blast
  have st: "(consumer_step R)\<^sup>*\<^sup>* s s'" using s1(1) s'(1) by (rule rtranclp_trans)
  have "th_data R s'" using consumer_steps_inv [OF assms(1) st inv] by simp
  then have "th_out s' = th_in s"
    using s'(2,3) consumer_steps_in [OF st] by (simp add: th_data_def Let_def)
  with st s' show ?thesis by blast
qed

theorem threads_drain_witness:
  "\<exists>s s'. th_out s = [] \<and> (consumer_step list_ring)\<^sup>*\<^sup>* s s' \<and> th_out s' = [''packet'']"
proof -
  obtain s where s: "threads_reach list_ring (\<lambda>_. CHR 0x00) (ucast (9 :: 16 word)) (ucast (2 :: 16 word)) s"
    "th_in s = [''packet'']" "th_out s = []"
    using threads_example by blast
  from threads_drain [OF list_ring_laws s(1)] s(2) obtain s' where
    "(consumer_step list_ring)\<^sup>*\<^sup>* s s'" "th_out s' = [''packet'']" by auto
  with s(3) show ?thesis by blast
qed

text \<open>The fine-grained scan refines \<open>alloc\<close>. Run without interruption, the single reads
  and writes reach the pool and the result that \<open>alloc\<close> computes.\<close>
theorem alloc_micro_refines:
  "\<exists>k. alloc_micro_run k b = (snd (alloc b), ADone (fst (alloc b)))"
  using alloc_micro_loop [of b 0] by (simp add: alloc_micro_run_def alloc_def)

text \<open>The pool is for one producer only. With two threads in \<open>alloc\<close> of the same fresh pool
  there is a schedule (both test the flag, then both set it) after which both hold the same
  packet.\<close>
theorem two_producers_share:
  fixes mtu n :: "16 word"
  assumes "0 < unat n"
  shows "snd (two_allocs [True, False, True, False]
      (PacketBuffer_new raw (ucast mtu) (ucast n), ATest 0, ATest 0)) =
    (ADone (Some 0), ADone (Some 0))"
  using assms by (simp add: PacketBuffer_new_def Let_def)

theorem two_producers_share_witness:
  "snd (two_allocs [True, False, True, False]
      (PacketBuffer_new (\<lambda>_. CHR 0x00) (ucast (1500 :: 16 word)) (ucast (64 :: 16 word)), ATest 0, ATest 0)) =
    (ADone (Some 0), ADone (Some 0))"
  by (rule two_producers_share) simp

end
