(* ===== verification/Queue_Wakeup.thy ===== *)
theory Queue_Wakeup
  imports Queue_Threads
begin

text \<open>
  How a waiting \<open>pop\<close> of \<open>packet_queue.hpp\<close> is woken. \<open>Queue_Threads\<close> lets a wait end at any
  time; here the condition variable is part of the state. The consumer finds the ring empty,
  takes the mutex and starts to wait; the producer stores its packet and then calls
  \<open>notify_one\<close>, without the mutex. A notification reaches a thread that waits already and is
  nothing otherwise, and \<open>wait_for\<close> does not look at the ring again before it sleeps.
\<close>

section \<open>States and steps\<close>

text \<open>
  A consumer that found the ring empty is about to wait, waits, or has been woken. The
  field \<open>wk_notify\<close> says that the producer has stored a packet and not yet notified. Two fields
  are kept for the statements only: whether a notification came before the wait began, and for
  every \<open>pop\<close> that returned false how many packets were in the ring and whether a
  notification had been missed or was still to come.
\<close>

datatype waiting = Entering | Asleep | Notified

record 'q wakeup =
  wk_threads :: "'q threads"
  wk_notify :: bool
  wk_wait :: waiting
  wk_missed :: bool
  wk_false :: "(nat \<times> bool) list"

definition wakeup_init :: "'q ring_api \<Rightarrow> (nat \<Rightarrow> char) \<Rightarrow> size_t \<Rightarrow> size_t \<Rightarrow> 'q wakeup" where
  "wakeup_init R raw mtu n = \<lparr>wk_threads = threads_init R raw mtu n, wk_notify = False,
     wk_wait = Entering, wk_missed = False, wk_false = []\<rparr>"

text \<open>
  The steps of \<open>Queue_Threads\<close>, except that the producer notifies after a successful \<open>q.push\<close>
  before it does anything else, and that a wait ends by a notification, by the timeout, or,
  as the standard allows, for no reason.
\<close>

inductive wakeup_step :: "'q ring_api \<Rightarrow> 'q wakeup \<Rightarrow> 'q wakeup \<Rightarrow> bool" for R where
  w_prod: "\<not> wk_notify s \<Longrightarrow> producer_step R (wk_threads s) t \<Longrightarrow>
    wakeup_step R s (s\<lparr>wk_threads := t, wk_notify := (th_in t \<noteq> th_in (wk_threads s))\<rparr>)"
| w_notify: "wk_notify s \<Longrightarrow> waits = (th_cons (wk_threads s) = Wait) \<Longrightarrow>
    wakeup_step R s (s\<lparr>wk_notify := False,
      wk_wait := (if waits \<and> wk_wait s = Asleep then Notified else wk_wait s),
      wk_missed := (wk_missed s \<or> waits \<and> wk_wait s = Entering)\<rparr>)"
| w_cons: "th_cons (wk_threads s) \<noteq> Wait \<Longrightarrow> consumer_step R (wk_threads s) t \<Longrightarrow>
    wakeup_step R s (s\<lparr>wk_threads := t, wk_wait := Entering, wk_missed := False\<rparr>)"
| w_sleep: "th_cons (wk_threads s) = Wait \<Longrightarrow> wk_wait s = Entering \<Longrightarrow>
    wakeup_step R s (s\<lparr>wk_wait := Asleep\<rparr>)"
| w_spurious: "th_cons (wk_threads s) = Wait \<Longrightarrow> wk_wait s = Asleep \<Longrightarrow>
    wakeup_step R s (s\<lparr>wk_wait := Notified\<rparr>)"
| w_wake: "th_cons (wk_threads s) = Wait \<Longrightarrow> wk_wait s = Notified \<Longrightarrow>
    consumer_step R (wk_threads s) t \<Longrightarrow> wakeup_step R s (s\<lparr>wk_threads := t\<rparr>)"
| w_timeout: "th_cons (wk_threads s) = Wait \<Longrightarrow> wk_wait s = Asleep \<Longrightarrow>
    consumer_step R (wk_threads s) t \<Longrightarrow>
    wakeup_step R s (s\<lparr>wk_threads := t, wk_false := wk_false s @
      [(length (rb_content R (th_ring (wk_threads s))), wk_missed s \<or> wk_notify s)]\<rparr>)"

inductive wakeup_reach ::
  "'q ring_api \<Rightarrow> (nat \<Rightarrow> char) \<Rightarrow> size_t \<Rightarrow> size_t \<Rightarrow> 'q wakeup \<Rightarrow> bool" for R raw mtu n where
  wstart: "wakeup_reach R raw mtu n (wakeup_init R raw mtu n)"
| wstep: "wakeup_reach R raw mtu n s \<Longrightarrow> wakeup_step R s s' \<Longrightarrow> wakeup_reach R raw mtu n s'"

section \<open>Facts\<close>

text \<open>Every run is one of the two threads of \<open>Queue_Threads\<close>, so all that is shown there holds.\<close>

lemma wakeup_reach_threads:
  "wakeup_reach R raw mtu n s \<Longrightarrow> threads_reach R raw mtu n (wk_threads s)"
proof (induction rule: wakeup_reach.induct)
  case wstart
  then show ?case by (simp add: wakeup_init_def threads_reach.start)
next
  case (wstep s s')
  from wstep.hyps(2) wstep.IH show ?case
    by cases (auto intro: threads_reach.prod threads_reach.cons)
qed

text \<open>What the single steps of the two threads do to the ring and to the consumer.\<close>

lemma producer_step_ring:
  assumes "ring_laws R" "producer_step R t t'"
  shows "th_cons t' = th_cons t"
    "th_in t' = th_in t \<Longrightarrow> rb_content R (th_ring t') = rb_content R (th_ring t)"
  using assms(2) ring_pushD [OF assms(1)] by (cases; fastforce)+

lemma consumer_step_wait:
  assumes "ring_laws R" "consumer_step R t t'"
  shows "th_cons t = Wait \<Longrightarrow> th_cons t' = Ready"
    "th_cons t \<noteq> Wait \<Longrightarrow> th_cons t' = Wait \<Longrightarrow> rb_content R (th_ring t') = []"
  using assms(2) ring_popD [OF assms(1)] by (cases; fastforce)+


definition wakeup_inv :: "'q ring_api \<Rightarrow> 'q wakeup \<Rightarrow> bool" where
  "wakeup_inv R s \<longleftrightarrow>
     (th_cons (wk_threads s) = Wait \<and> wk_wait s \<noteq> Notified \<longrightarrow>
        rb_content R (th_ring (wk_threads s)) = [] \<or> wk_notify s \<or> wk_missed s) \<and>
     (\<forall>(n, late) \<in> set (wk_false s). late \<or> n = 0)"

lemma wakeup_step_inv:
  assumes R: "ring_laws R" and inv: "wakeup_inv R s" and st: "wakeup_step R s s'"
  shows "wakeup_inv R s'"
  using st
proof cases
  case (w_prod t)
  then show ?thesis using inv producer_step_ring [OF R w_prod(3)] by (auto simp: wakeup_inv_def)
next
  case (w_notify waits)
  then show ?thesis using inv by (cases "wk_wait s") (auto simp: wakeup_inv_def)
next
  case (w_cons t)
  then show ?thesis using inv consumer_step_wait(2) [OF R w_cons(3)] by (auto simp: wakeup_inv_def)
next
  case (w_wake t)
  then show ?thesis using inv consumer_step_wait(1) [OF R w_wake(4)] by (auto simp: wakeup_inv_def)
next
  case (w_timeout t)
  then show ?thesis using inv consumer_step_wait(1) [OF R w_timeout(4)] by (auto simp: wakeup_inv_def)
qed (use inv in \<open>auto simp: wakeup_inv_def\<close>)

lemma wakeup_reach_inv:
  assumes "ring_laws R"
  shows "wakeup_reach R raw mtu n s \<Longrightarrow> wakeup_inv R s"
proof (induction rule: wakeup_reach.induct)
  case wstart
  then show ?case by (simp add: wakeup_inv_def wakeup_init_def threads_init_def)
next
  case (wstep s s')
  then show ?case using wakeup_step_inv [OF assms] by blast
qed

text \<open>A step of the producer that does not store a packet, and the one that does.\<close>

lemma wakeup_producer:
  assumes "wakeup_reach R raw mtu n s" "\<not> wk_notify s" "producer_step R (wk_threads s) t"
  shows "th_in t = th_in (wk_threads s) \<Longrightarrow> wakeup_reach R raw mtu n (s\<lparr>wk_threads := t\<rparr>)"
    "th_in t \<noteq> th_in (wk_threads s) \<Longrightarrow> wakeup_reach R raw mtu n (s\<lparr>wk_threads := t, wk_notify := True\<rparr>)"
proof -
  have r: "wakeup_reach R raw mtu n (s\<lparr>wk_threads := t, wk_notify := (th_in t \<noteq> th_in (wk_threads s))\<rparr>)"
    by (rule wakeup_reach.wstep [OF assms(1)], rule w_prod [OF assms(2,3)])
  have "s\<lparr>wk_threads := t, wk_notify := False\<rparr> = s\<lparr>wk_threads := t\<rparr>"
    using assms(2) by (cases s) simp
  with r show "th_in t = th_in (wk_threads s) \<Longrightarrow> wakeup_reach R raw mtu n (s\<lparr>wk_threads := t\<rparr>)"
    by simp
  show "th_in t \<noteq> th_in (wk_threads s) \<Longrightarrow>
      wakeup_reach R raw mtu n (s\<lparr>wk_threads := t, wk_notify := True\<rparr>)"
    using r by simp
qed

text \<open>The example: a pool of two packets, and a producer that has one of them in hand.\<close>

lemma wakeup_example:
  "\<exists>s. wakeup_reach list_ring (\<lambda>_. CHR 0x00) (ucast (9 :: 16 word)) (ucast (2 :: 16 word)) s \<and>
     th_prod (wk_threads s) = Alloc (ADone (Some 0)) \<and> th_cons (wk_threads s) = Ready \<and>
     rb_content list_ring (th_ring (wk_threads s)) = [] \<and> \<not> wk_notify s \<and>
     unat (pb_mtu (th_pool (wk_threads s))) = 9 \<and> wk_false s = [] \<and> th_in (wk_threads s) = []"
proof -
  let ?reach = "wakeup_reach list_ring (\<lambda>_. CHR 0x00) (ucast (9 :: 16 word)) (ucast (2 :: 16 word))"
  let ?w = "wakeup_init list_ring (\<lambda>_. CHR 0x00) (ucast (9 :: 16 word)) (ucast (2 :: 16 word))"
  let ?s0 = "wk_threads ?w"
  let ?s1 = "?s0\<lparr>th_prod := Alloc (ATest 0)\<rparr>"
  let ?s2 = "?s1\<lparr>th_pool := th_pool ?s1, th_prod := Alloc (AMark 0)\<rparr>"
  let ?s3 = "?s2\<lparr>th_pool := fst (alloc_micro (th_pool ?s2) (AMark 0)), th_prod := Alloc (ADone (Some 0))\<rparr>"
  have n: "\<not> wk_notify ?w" by (simp add: wakeup_init_def)
  have "producer_step list_ring ?s0 ?s1" by (rule p_call) (simp add: wakeup_init_def threads_init_def)
  then have "?reach (?w\<lparr>wk_threads := ?s1\<rparr>)"
    using wakeup_producer(1) [OF wakeup_reach.wstart n] by simp
  moreover have "producer_step list_ring ?s1 ?s2"
    by (intro p_test [of _ 0])
      (simp_all add: wakeup_init_def threads_init_def PacketBuffer_new_def Let_def)
  ultimately have "?reach (?w\<lparr>wk_threads := ?s2\<rparr>)"
    using wakeup_producer(1) [of _ _ _ _ "?w\<lparr>wk_threads := ?s1\<rparr>" ?s2] n by simp
  moreover have "producer_step list_ring ?s2 ?s3" by (intro p_mark [of _ 0]) simp_all
  ultimately have "?reach (?w\<lparr>wk_threads := ?s3\<rparr>)"
    using wakeup_producer(1) [of _ _ _ _ "?w\<lparr>wk_threads := ?s2\<rparr>" ?s3] n by simp
  then show ?thesis
    by (rule exI [of _ "?w\<lparr>wk_threads := ?s3\<rparr>", OF conjI])
      (simp add: wakeup_init_def threads_init_def PacketBuffer_new_def Let_def ring_new [OF list_ring_laws])
qed

section \<open>Properties\<close>



text \<open>C12: the wake-up can be lost. From every reachable state in which the producer has a packet
  in hand and the consumer is about to look at an empty ring, there is an interleaving in
  which the producer stores the packet and notifies, the consumer waits all the same, and
  \<open>pop\<close> returns false after the full timeout with the packet in the ring. The packet is not
  lost: it is what the next \<open>pop\<close> takes.\<close>
theorem wakeup_lost:
  fixes mtu n :: "16 word"
  assumes R: "ring_laws R" and s: "wakeup_reach R raw (ucast mtu) (ucast n) s"
    and q: "th_prod (wk_threads s) = Alloc (ADone (Some i))" "th_cons (wk_threads s) = Ready"
      "rb_content R (th_ring (wk_threads s)) = []" "\<not> wk_notify s"
    and bs: "bs \<noteq> []" "length bs \<le> unat (pb_mtu (th_pool (wk_threads s)))"
  shows "\<exists>s'. wakeup_reach R raw (ucast mtu) (ucast n) s' \<and>
    wk_false s' = wk_false s @ [(1, True)] \<and>
    th_in (wk_threads s') = th_in (wk_threads s) @ [bs] \<and>
    rb_content R (th_ring (wk_threads s')) = [i] \<and>
    (\<exists>s''. wakeup_step R s' s'' \<and> th_cons (wk_threads s'') = Consume i)"
proof -
  let ?reach = "wakeup_reach R raw (ucast mtu) (ucast n)"
  let ?t = "wk_threads s"
  obtain q0 where q0: "rb_pop R (th_ring ?t) = (None, q0)" "rb_content R q0 = []"
    using q(3) ring_popD [OF R, of "th_ring ?t"]
    by (cases "rb_pop R (th_ring ?t)"; cases "fst (rb_pop R (th_ring ?t))") auto
  let ?t1 = "?t\<lparr>th_ring := q0, th_cons := Wait\<rparr>"
  let ?s1 = "s\<lparr>wk_threads := ?t1, wk_wait := Entering, wk_missed := False\<rparr>"
  have r1: "?reach ?s1"
    by (rule wakeup_reach.wstep [OF s], rule w_cons) (simp add: q(2), rule c_empty [OF q(2) q0(1)])
  have th: "threads_reach R raw (ucast mtu) (ucast n) ?t1"
    using wakeup_reach_threads [OF r1] by simp
  have "th_prod ?t1 = Alloc (ADone (Some i))" "length bs \<le> unat (pb_mtu (th_pool ?t1))"
    using q(1) bs(2) by simp_all
  from producer_push_steps [OF R th this(1) bs(1) this(2)] obtain a b c d where
    st: "producer_step R ?t1 a" "producer_step R a b" "producer_step R b c" "producer_step R c d"
    and e: "th_in a = th_in ?t1" "th_in b = th_in ?t1" "th_in c = th_in ?t1" "th_in d = th_in ?t1 @ [bs]"
      "th_cons d = th_cons ?t1" "rb_content R (th_ring d) = rb_content R (th_ring ?t1) @ [i]"
    by (elim exE conjE) (rule that)
  have d: "th_in d = th_in ?t @ [bs]" "th_cons d = Wait" "rb_content R (th_ring d) = [i]"
    using e q0(2) by simp_all
  have ra: "?reach (?s1\<lparr>wk_threads := a\<rparr>)"
    by (rule wakeup_producer(1) [OF r1]) (use q(4) st(1) e(1) in simp_all)
  have rb: "?reach (?s1\<lparr>wk_threads := b\<rparr>)"
    using wakeup_producer(1) [OF ra, of b] q(4) st(2) e(1,2) by simp
  have rc: "?reach (?s1\<lparr>wk_threads := c\<rparr>)"
    using wakeup_producer(1) [OF rb, of c] q(4) st(3) e(2,3) by simp
  let ?s2 = "?s1\<lparr>wk_threads := d, wk_notify := True\<rparr>"
  have r2: "?reach ?s2"
    using wakeup_producer(2) [OF rc, of d] q(4) st(4) e(3,4) by simp
  let ?s3 = "s\<lparr>wk_threads := d, wk_notify := False, wk_wait := Entering, wk_missed := True\<rparr>"
  have "wakeup_step R ?s2 (?s2\<lparr>wk_notify := False,
      wk_wait := (if True \<and> wk_wait ?s2 = Asleep then Notified else wk_wait ?s2),
      wk_missed := (wk_missed ?s2 \<or> True \<and> wk_wait ?s2 = Entering)\<rparr>)"
    by (rule w_notify) (simp_all add: d(2))
  then have r3: "?reach ?s3" using wakeup_reach.wstep [OF r2] by simp
  let ?s4 = "?s3\<lparr>wk_wait := Asleep\<rparr>"
  have r4: "?reach ?s4" by (rule wakeup_reach.wstep [OF r3], rule w_sleep) (simp_all add: d(2))
  let ?t5 = "d\<lparr>th_cons := Ready\<rparr>"
  let ?s5 = "?s4\<lparr>wk_threads := ?t5, wk_false := wk_false ?s4 @
    [(length (rb_content R (th_ring (wk_threads ?s4))), wk_missed ?s4 \<or> wk_notify ?s4)]\<rparr>"
  have r5: "?reach ?s5"
    by (rule wakeup_reach.wstep [OF r4], rule w_timeout) (simp_all add: d(2) c_wake)
  obtain q5 where q5: "rb_pop R (th_ring ?t5) = (Some i, q5)"
    using d(3) ring_popD [OF R, of "th_ring d"]
    by (cases "rb_pop R (th_ring d)"; cases "fst (rb_pop R (th_ring d))") auto
  have "wakeup_step R ?s5 (?s5\<lparr>wk_threads := ?t5\<lparr>th_ring := q5, th_cons := Consume i\<rparr>,
      wk_wait := Entering, wk_missed := False\<rparr>)"
    by (rule w_cons) (simp, use c_pop [OF _ q5] in simp)
  then have "\<exists>s''. wakeup_step R ?s5 s'' \<and> th_cons (wk_threads s'') = Consume i" by fastforce
  with r5 d show ?thesis by (intro exI [of _ ?s5]) simp
qed


theorem wakeup_lost_witness:
  "\<exists>s'. wakeup_reach list_ring (\<lambda>_. CHR 0x00) (ucast (9 :: 16 word)) (ucast (2 :: 16 word)) s' \<and>
     wk_false s' = [(1, True)] \<and> th_in (wk_threads s') = [''packet''] \<and>
     rb_content list_ring (th_ring (wk_threads s')) = [0]"
proof -
  obtain s where s: "wakeup_reach list_ring (\<lambda>_. CHR 0x00) (ucast (9 :: 16 word)) (ucast (2 :: 16 word)) s"
    "th_prod (wk_threads s) = Alloc (ADone (Some 0))" "th_cons (wk_threads s) = Ready"
    "rb_content list_ring (th_ring (wk_threads s)) = []" "\<not> wk_notify s"
    "unat (pb_mtu (th_pool (wk_threads s))) = 9" "wk_false s = []" "th_in (wk_threads s) = []"
    using wakeup_example by blast
  from wakeup_lost [OF list_ring_laws s(1-5), of "''packet''"] s(6-8) show ?thesis by auto
qed

end
