(* ===== verification/Queue_Report.thy ===== *)
theory Queue_Report
  imports Queue_Spec_Fifo
begin

text \<open>
  The statistic of a packet queue as part of its contract. \<open>Queue_Spec_Fifo\<close> says what calls
  return; here the specification also keeps two tables of counters, those of the current
  window and those of all closed ones, and says by how much each call raises which counter
  and what \<open>getStatistic\<close> reports. The locale \<open>reporting_fifo\<close> extends \<open>bounded_fifo\<close> and is
  interpreted on the packet queue; the program \<open>packet_queue_test.cpp\<close> is run on the result.
\<close>

section \<open>The specification\<close>

text \<open>
  The counting calls that a call makes when nobody else touches the queue: a push into a full
  queue fails \<open>tries\<close> times to get a packet and then times out.
\<close>

fun op_counts :: "nat \<Rightarrow> nat \<Rightarrow> fifo_op \<Rightarrow> bytes list \<Rightarrow> stat_call list" where
  "op_counts cap tries (Put bs) xs =
     (if length xs = cap then replicate tries (Inc AllocFailed) @ [Inc PushTimeout]
      else if bs = [] then [Inc AllocOk, Inc PushActionFailed]
      else [Inc AllocOk, AddPush (of_nat (length bs)), Inc PushOk])"
| "op_counts cap tries Get [] = [Inc PopEmpty, Inc PopTimeout]"
| "op_counts cap tries Get (x # xs) = [AddPop (of_nat (length x)), Inc PopOk]"

type_synonym counts = "counter \<Rightarrow> size_t"

definition plus_counts :: "counts \<Rightarrow> counts \<Rightarrow> counts" where
  "plus_counts f g = (\<lambda>k. f k + g k)"

definition adds :: "stat_call list \<Rightarrow> counts" where
  "adds cs = (\<lambda>k. \<Sum>c\<leftarrow>cs. call_adds c k)"

datatype report_op = Call fifo_op | Report time_point

datatype outcome = Returned fifo_res | Reported counts counts

fun report_run :: "nat \<Rightarrow> nat \<Rightarrow> report_op list \<Rightarrow> bytes list \<Rightarrow> counts \<Rightarrow> counts \<Rightarrow> outcome list" where
  "report_run cap tries [] xs cur tot = []"
| "report_run cap tries (Call c # ops) xs cur tot =
     (let (r, ys) = fifo_call cap c xs
      in Returned r # report_run cap tries ops ys (plus_counts cur (adds (op_counts cap tries c xs))) tot)"
| "report_run cap tries (Report now # ops) xs cur tot =
     Reported cur (plus_counts tot cur) # report_run cap tries ops xs (\<lambda>_. 0) (plus_counts tot cur)"

section \<open>The contract\<close>

fun report_runs ::
  "(bytes \<Rightarrow> 's \<Rightarrow> (bool \<times> 's) exec) \<Rightarrow> ('s \<Rightarrow> (bytes option \<times> 's) exec) \<Rightarrow>
   (time_point \<Rightarrow> 's \<Rightarrow> counts \<times> counts \<times> 's) \<Rightarrow> report_op list \<Rightarrow> 's \<Rightarrow> (outcome list \<times> 's) exec" where
  "report_runs put get report [] s = Inr ([], s)"
| "report_runs put get report (Call c # ops) s =
     ebind (fifo_do put get c s) (\<lambda>(r, s1).
     ebind (report_runs put get report ops s1) (\<lambda>(os, s2). Inr (Returned r # os, s2)))"
| "report_runs put get report (Report now # ops) s =
     (let (w, t, s1) = report now s
      in ebind (report_runs put get report ops s1) (\<lambda>(os, s2). Inr (Reported w t # os, s2)))"

locale reporting_fifo = bounded_fifo put get inv content cap width
  for put :: "bytes \<Rightarrow> 's \<Rightarrow> (bool \<times> 's) exec"
    and get :: "'s \<Rightarrow> (bytes option \<times> 's) exec"
    and inv :: "'s \<Rightarrow> bool"
    and content :: "'s \<Rightarrow> bytes list"
    and cap :: "'s \<Rightarrow> nat"
    and width :: "'s \<Rightarrow> nat" +
  fixes report :: "time_point \<Rightarrow> 's \<Rightarrow> counts \<times> counts \<times> 's"
    and current :: "'s \<Rightarrow> counts"
    and total :: "'s \<Rightarrow> counts"
    and tries :: "'s \<Rightarrow> nat"
  assumes call_counts: "inv s \<Longrightarrow> (\<And>bs. c = Put bs \<Longrightarrow> length bs \<le> width s) \<Longrightarrow>
      fifo_do put get c s = Inr (r, s') \<Longrightarrow>
      current s' = plus_counts (current s) (adds (op_counts (cap s) (tries s) c (content s))) \<and>
      total s' = total s \<and> tries s' = tries s"
    and report_closes: "inv s \<Longrightarrow>
      \<exists>s'. report now s = (current s, plus_counts (total s) (current s), s') \<and> inv s' \<and>
        content s' = content s \<and> cap s' = cap s \<and> width s' = width s \<and> tries s' = tries s \<and>
        current s' = (\<lambda>_. 0) \<and> total s' = plus_counts (total s) (current s)"
begin

lemma run_reports:
  assumes "inv s" "\<And>bs. Call (Put bs) \<in> set ops \<Longrightarrow> length bs \<le> width s"
  shows "\<exists>s'. report_runs put get report ops s =
      Inr (report_run (cap s) (tries s) ops (content s) (current s) (total s), s') \<and> inv s'"
  using assms
proof (induction ops arbitrary: s)
  case (Cons op ops)
  show ?case
  proof (cases op)
    case (Call c)
    obtain r ys where f: "fifo_call (cap s) c (content s) = (r, ys)"
      by (cases "fifo_call (cap s) c (content s)")
    have w: "\<And>bs. c = Put bs \<Longrightarrow> length bs \<le> width s" using Cons.prems(2) Call by simp
    obtain s1 where
      1: "fifo_do put get c s = Inr (r, s1)" "inv s1" "content s1 = ys" "cap s1 = cap s"
        "width s1 = width s"
      using call_refines [of s c, OF Cons.prems(1) w] f by auto
    note n = call_counts [OF Cons.prems(1) w 1(1)]
    have "\<And>bs. Call (Put bs) \<in> set ops \<Longrightarrow> length bs \<le> width s1" using Cons.prems(2) 1(5) by simp
    from Cons.IH [OF 1(2) this] show ?thesis using 1(1,3-5) n f Call by (auto simp: split_beta)
  next
    case (Report now)
    obtain s1 where
      1: "report now s = (current s, plus_counts (total s) (current s), s1)" "inv s1"
        "content s1 = content s" "cap s1 = cap s" "width s1 = width s" "tries s1 = tries s"
        "current s1 = (\<lambda>_. 0)" "total s1 = plus_counts (total s) (current s)"
      using report_closes [OF Cons.prems(1)] by blast
    have "\<And>bs. Call (Put bs) \<in> set ops \<Longrightarrow> length bs \<le> width s1" using Cons.prems(2) 1(5) by simp
    from Cons.IH [OF 1(2) this] show ?thesis using 1 Report by auto
  qed
qed simp

end

section \<open>The packet queue\<close>

text \<open>
  How often a push that never gets a packet asks for one: the turns of its loop for a given
  \<open>blockWait\<close>. The first argument bounds their number as in \<open>idle_sleeps\<close>.
\<close>

fun tries_from :: "nat \<Rightarrow> size_t \<Rightarrow> size_t \<Rightarrow> size_t \<Rightarrow> nat" where
  "tries_from 0 bw wait tw = 0"
| "tries_from (Suc n) bw wait tw =
     (if tw < bw then Suc (tries_from n bw (min wait 100 + 10) (tw + min wait 100)) else 0)"

definition push_tries :: "size_t \<Rightarrow> nat" where
  "push_tries bw = tries_from (unat bw div 10 + 2) bw 0 0"

lemma push_loop_full_counts:
  assumes "fst (alloc (pq_pb pq)) = None"
  shows "push_loop R act bw (replicate n (\<lambda>_ pq. pq)) wait tw pq e = Inl Blocked \<or>
    push_loop R act bw (replicate n (\<lambda>_ pq. pq)) wait tw pq e = Inr (False, pq\<lparr>pq_ps :=
      foldl stat_step (pq_ps pq) (replicate (tries_from n bw wait tw) (Inc AllocFailed) @ [Inc PushTimeout])\<rparr>, e)"
  using assms
proof (induction n arbitrary: wait tw pq)
  case 0
  then show ?case
    by (cases "tw < bw"; cases "alloc (pq_pb pq)") (auto simp: push_loop_timeout push_loop_full(1))
next
  case (Suc n)
  then obtain b where al: "alloc (pq_pb pq) = (None, b)" by (cases "alloc (pq_pb pq)") auto
  show ?case
  proof (cases "tw < bw")
    case True
    then show ?thesis
      using Suc.IH [of "pq\<lparr>pq_ps := incAllocFailed (pq_ps pq)\<rparr>" "min wait 100 + 10" "tw + min wait 100"]
        Suc.prems by (simp add: push_loop_full(2) [OF True al])
  next
    case False
    then show ?thesis by (simp add: push_loop_timeout)
  qed
qed

lemma queue_put_counts:
  assumes inv: "fifo_inv R pq" and len: "length bs \<le> unat (pb_mtu (pq_pb pq))"
    and p: "queue_put R bs pq = Inr (r, pq')"
  shows "pq_ps pq' = foldl stat_step (pq_ps pq)
    (op_counts (capacity (pq_pb pq)) (push_tries (pq_blockWait pq)) (Put bs) (pq_queue R pq))"
proof -
  have R: "ring_laws R" and pq: "pq_inv R pq" and bw: "0 < pq_blockWait pq"
    and mtu: "length bs < 2 ^ 63"
    using inv len by (simp_all add: fifo_inv_def)
  have p': "push R (mem_store bs) (idle_sleeps pq) pq () = Inr (r, pq', ())"
    using p by (auto simp: queue_put_def ebind_eq_Inr)
  show ?thesis
  proof (cases "fst (alloc (pq_pb pq))")
    case None
    with push_loop_full_counts [OF None, of R "mem_store bs" "pq_blockWait pq"
        "unat (pq_blockWait pq) div 10 + 2" 0 0 "()"] p' pq_inv_alloc_cases [OF pq]
    show ?thesis by (auto simp: push_def idle_sleeps_def push_tries_def)
  next
    case (Some i)
    then obtain b where al: "alloc (pq_pb pq) = (Some i, b)" by (cases "alloc (pq_pb pq)") auto
    let ?pq = "pq\<lparr>pq_pb := b, pq_ps := incAllocOk (pq_ps pq)\<rparr>"
    have sl: "pq_slots R {i} ?pq" using alloc_slots(1) [OF _ al] pq by (simp add: pq_inv_def)
    have pp: "push_packet R (mem_store bs) i ?pq () = Inr (r, pq', ())"
      using p' by (simp add: push_def push_loop_got [OF bw al])
    then obtain m where m: "mem_store bs (packets (pq_pb ?pq) ! i) (buffer (pq_pb ?pq)) () =
        Inr (of_nat (length bs), m, ())"
      by (auto simp: push_packet_def mem_store_def ebind_eq_Inr)
    have "pq' = pushed R i (of_nat (length bs)) m ?pq"
      using push_packet_eq [where act = "mem_store bs", OF R sl singletonI m] pp by simp
    then have "pq_ps pq' = (if 0 < sint (of_nat (length bs) :: size_t)
        then incPushOk (addPushPacketSize (of_nat (length bs)) (incAllocOk (pq_ps pq)))
        else incPushActionFailed (incAllocOk (pq_ps pq)))"
      by (simp add: pushed_def)
    moreover have "length (pq_queue R pq) \<noteq> capacity (pq_pb pq)"
      using pq_inv_alloc_cases [OF pq] Some by simp
    ultimately show ?thesis
      using sint_of_nat_pos [of "length bs"] mtu by (cases "bs = []") auto
  qed
qed

lemma queue_get_counts:
  assumes inv: "fifo_inv R pq" and p: "queue_get R pq = Inr (r, pq')"
  shows "pq_ps pq' = foldl stat_step (pq_ps pq)
    (op_counts (capacity (pq_pb pq)) tries Get (pq_queue R pq))"
proof -
  have R: "ring_laws R" and pq: "pq_inv R pq" using inv by (simp_all add: fifo_inv_def)
  obtain ok e where p': "pop R mem_fetch [(True, \<lambda>pq. pq)] pq [] = Inr (ok, pq', e)"
    using p by (auto simp: queue_get_def ebind_eq_Inr)
  obtain oi q' where q: "rb_pop R (pq_q pq) = (oi, q')" by (cases "rb_pop R (pq_q pq)")
  show ?thesis
  proof (cases oi)
    case None
    with p' q rb_pop_none_inv(2) [OF R pq] show ?thesis
      by (auto simp: pop_def pop_loop_none(2))
  next
    case (Some i)
    have sl: "pq_slots R {} pq" using pq by (simp add: pq_inv_def)
    note h = q [unfolded Some]
    note rp = rb_pop_slots [OF R sl h]
    have pp: "pop_packet mem_fetch i (pq\<lparr>pq_q := q'\<rparr>) [] = Inr (ok, pq', e)"
      using p' by (simp add: pop_def pop_loop_some [OF h])
    then obtain bs where bs: "mem_read (buffer (pq_pb pq)) (unat (buf (packets (pq_pb pq) ! i)))
        (unat (psize (packets (pq_pb pq) ! i))) = Inr bs"
      and e: "pq_ps pq' = incPopOk (addPopPacketSize (psize (packets (pq_pb pq) ! i)) (pq_ps pq))"
      by (auto simp: pop_packet_def mem_fetch_def ebind_eq_Inr Let_def)
    have "bs = payload (pq_pb pq) i" "length bs = unat (psize (packets (pq_pb pq) ! i))"
      using bs by (auto simp: mem_read_def payload_def split: if_splits)
    then have "of_nat (length (payload (pq_pb pq) i)) = psize (packets (pq_pb pq) ! i)" by simp
    then show ?thesis using e rp(2) by simp
  qed
qed


lemma total_fold:
  "(\<And>now. Collect now \<notin> set cs) \<Longrightarrow> st_total (foldl stat_step s cs) = st_total s"
proof (induction cs arbitrary: s)
  case (Cons c cs)
  have "st_total (stat_step s c) = st_total s"
    using Cons.prems by (cases "(s, c)" rule: stat_step.cases) (auto simp: inc_defs)
  then show ?case using Cons.IH [of "stat_step s c"] Cons.prems by simp
qed simp

lemma op_counts_no_collect: "Collect now \<notin> set (op_counts cap tries c xs)"
  by (cases "(cap, tries, c, xs)" rule: op_counts.cases) auto

definition current_counts :: "'q PacketQueue \<Rightarrow> counts" where
  "current_counts pq = (\<lambda>k. cval k (getCurrent (pq_ps pq)))"

definition total_counts :: "'q PacketQueue \<Rightarrow> counts" where
  "total_counts pq = (\<lambda>k. cval k (getTotal (pq_ps pq)))"

text \<open>\<open>getStatistic\<close>, with the two tables that the returned object carries.\<close>

definition queue_report :: "time_point \<Rightarrow> 'q PacketQueue \<Rightarrow> counts \<times> counts \<times> 'q PacketQueue" where
  "queue_report now pq =
     (let (ret, pq') = getStatistic now pq
      in (\<lambda>k. cval k (getCurrent ret), \<lambda>k. cval k (getTotal ret), pq'))"

lemma queue_call_counts:
  assumes "pq_ps pq' = foldl stat_step (pq_ps pq) (op_counts cap tries c xs)"
  shows "current_counts pq' = plus_counts (current_counts pq) (adds (op_counts cap tries c xs))"
    "total_counts pq' = total_counts pq"
  using current_fold [OF op_counts_no_collect, of _ "pq_ps pq" cap tries c xs]
    total_fold [OF op_counts_no_collect, of "pq_ps pq" cap tries c xs]
  by (simp_all add: assms current_counts_def total_counts_def plus_counts_def adds_def
      getCurrent_def getTotal_def)

lemma queue_call_shape:
  assumes inv: "fifo_inv R pq" and len: "\<And>bs. c = Put bs \<Longrightarrow> length bs \<le> unat (pb_mtu (pq_pb pq))"
    and d: "fifo_do (queue_put R) (queue_get R) c pq = Inr (r, pq')"
  shows "same_shape pq pq'"
proof (cases c)
  case (Put bs)
  show ?thesis
  proof (cases "bs = [] \<or> length (pq_queue R pq) = capacity (pq_pb pq)")
    case True
    from queue_put_refused [OF inv this] Put d show ?thesis by auto
  next
    case False
    then have "bs \<noteq> []" "length (pq_queue R pq) < capacity (pq_pb pq)"
      using queue_fifo.bounded [OF inv] by auto
    from queue_put_room [OF inv this(1) len [OF Put] this(2)] Put d show ?thesis by auto
  qed
next
  case Get
  with d show ?thesis
    using queue_get_some [OF inv] queue_get_none [OF inv] by (cases "pq_queue R pq") fastforce+
qed

interpretation queue_reports: reporting_fifo "queue_put R" "queue_get R" "fifo_inv R" "pq_queue R"
  "\<lambda>pq. capacity (pq_pb pq)" "\<lambda>pq. unat (pb_mtu (pq_pb pq))" queue_report current_counts
  total_counts "\<lambda>pq. push_tries (pq_blockWait pq)" for R :: "'q ring_api"
proof unfold_locales
  fix pq pq' :: "'q PacketQueue" and c r
  assume inv: "fifo_inv R pq" and len: "\<And>bs. c = Put bs \<Longrightarrow> length bs \<le> unat (pb_mtu (pq_pb pq))"
    and d: "fifo_do (queue_put R) (queue_get R) c pq = Inr (r, pq')"
  have "pq_ps pq' = foldl stat_step (pq_ps pq)
      (op_counts (capacity (pq_pb pq)) (push_tries (pq_blockWait pq)) c (pq_queue R pq))"
  proof (cases c)
    case (Put bs)
    with d obtain ok where "queue_put R bs pq = Inr (ok, pq')" by (auto simp: ebind_eq_Inr)
    from queue_put_counts [OF inv len [OF Put] this] Put show ?thesis by simp
  next
    case Get
    with d obtain out where "queue_get R pq = Inr (out, pq')" by (auto simp: ebind_eq_Inr)
    from queue_get_counts [OF inv this] Get show ?thesis by simp
  qed
  from queue_call_counts [OF this] queue_call_shape [OF inv len d]
  show "current_counts pq' = plus_counts (current_counts pq)
      (adds (op_counts (capacity (pq_pb pq)) (push_tries (pq_blockWait pq)) c (pq_queue R pq))) \<and>
    total_counts pq' = total_counts pq \<and> push_tries (pq_blockWait pq') = push_tries (pq_blockWait pq)"
    by (simp add: same_shape_def)
next
  fix pq :: "'q PacketQueue" and now
  assume inv: "fifo_inv R pq"
  obtain ret pq' where g: "getStatistic now pq = (ret, pq')" by (cases "getStatistic now pq")
  then have parts: "ret = fst (collect now (pq_ps pq))" "pq' = pq\<lparr>pq_ps := snd (collect now (pq_ps pq))\<rparr>"
    by (auto simp: getStatistic_def split_beta)
  have "pq_inv R pq'" using getStatistic_inv [of R pq now] inv g by (simp add: fifo_inv_def)
  then have "fifo_inv R pq'" using inv parts(2) by (simp add: fifo_inv_def)
  moreover have "queue_report now pq = (current_counts pq, plus_counts (total_counts pq) (current_counts pq), pq')"
    "current_counts pq' = (\<lambda>_. 0)" "total_counts pq' = plus_counts (total_counts pq) (current_counts pq)"
    using g parts by (simp_all add: queue_report_def current_counts_def total_counts_def plus_counts_def
        getCurrent_def getTotal_def collect_parts)
  ultimately show "\<exists>pq'. queue_report now pq =
      (current_counts pq, plus_counts (total_counts pq) (current_counts pq), pq') \<and> fifo_inv R pq' \<and>
      pq_queue R pq' = pq_queue R pq \<and> capacity (pq_pb pq') = capacity (pq_pb pq) \<and>
      unat (pb_mtu (pq_pb pq')) = unat (pb_mtu (pq_pb pq)) \<and>
      push_tries (pq_blockWait pq') = push_tries (pq_blockWait pq) \<and>
      current_counts pq' = (\<lambda>_. 0) \<and>
      total_counts pq' = plus_counts (total_counts pq) (current_counts pq)"
    using parts(2) by (intro exI [of _ pq']) (simp add: pq_queue_def)
qed


section \<open>The program packet_queue_test.cpp\<close>

text \<open>
  A round of the test: fill the queue, try to push \<open>k\<close> more packets, take the statistic,
  empty the queue, try to pop \<open>k\<close> times more, take the statistic. The program does ten rounds
  with a hundred packets and \<open>k = 10\<close>, and looks at the totals at the end. Its closures store
  the eight bytes of a number; \<open>extra\<close> stands for those that are never called.
\<close>

definition test_round :: "bytes list \<Rightarrow> nat \<Rightarrow> bytes \<Rightarrow> report_op list" where
  "test_round items k extra =
     map (\<lambda>bs. Call (Put bs)) items @ replicate k (Call (Put extra)) @ [Report 0] @
     replicate (length items) (Call Get) @ replicate k (Call Get) @ [Report 0]"

definition test_calls :: "bytes list \<Rightarrow> nat \<Rightarrow> bytes \<Rightarrow> nat \<Rightarrow> report_op list" where
  "test_calls items k extra rounds = concat (replicate rounds (test_round items k extra)) @ [Report 0]"

definition test_item :: "nat \<Rightarrow> bytes" where
  "test_item i = map (\<lambda>j. char_of (i div 256 ^ j)) [0..<8]"

text \<open>The windows of the two halves of a round, and what a round returns.\<close>

definition push_window :: "nat \<Rightarrow> bytes list \<Rightarrow> nat \<Rightarrow> counts" where
  "push_window tries items k = adds
     (concat (map (\<lambda>bs. [Inc AllocOk, AddPush (of_nat (length bs)), Inc PushOk]) items) @
      concat (replicate k (replicate tries (Inc AllocFailed) @ [Inc PushTimeout])))"

definition pop_window :: "bytes list \<Rightarrow> nat \<Rightarrow> counts" where
  "pop_window items k = adds
     (concat (map (\<lambda>bs. [AddPop (of_nat (length bs)), Inc PopOk]) items) @
      concat (replicate k [Inc PopEmpty, Inc PopTimeout]))"

definition round_outcomes :: "bytes list \<Rightarrow> nat \<Rightarrow> counts \<Rightarrow> counts \<Rightarrow> counts \<Rightarrow> outcome list" where
  "round_outcomes items k w1 w2 tot =
     map (\<lambda>bs. Returned (Stored True)) items @ replicate k (Returned (Stored False)) @
     [Reported w1 (plus_counts tot w1)] @
     map (\<lambda>bs. Returned (Fetched (Some bs))) items @ replicate k (Returned (Fetched None)) @
     [Reported w2 (plus_counts (plus_counts tot w1) w2)]"

lemma plus_counts_assoc: "plus_counts (plus_counts f g) h = plus_counts f (plus_counts g h)"
  by (simp add: plus_counts_def algebra_simps)

lemma plus_counts_zero [simp]: "plus_counts (\<lambda>_. 0) f = f" "plus_counts f (\<lambda>_. 0) = f"
  by (simp_all add: plus_counts_def)

lemma adds_simps [simp]:
  "adds [] = (\<lambda>_. 0)" "adds (c # cs) = plus_counts (call_adds c) (adds cs)"
  "adds (cs @ ds) = plus_counts (adds cs) (adds ds)"
  by (simp_all add: adds_def plus_counts_def)

text \<open>The four loops of a round on the specification.\<close>

lemma report_run_fill:
  "length xs + length items \<le> cap \<Longrightarrow> [] \<notin> set items \<Longrightarrow>
    report_run cap tries (map (\<lambda>bs. Call (Put bs)) items @ ops) xs cur tot =
    map (\<lambda>bs. Returned (Stored True)) items @ report_run cap tries ops (xs @ items)
      (plus_counts cur (adds (concat
        (map (\<lambda>bs. [Inc AllocOk, AddPush (of_nat (length bs)), Inc PushOk]) items)))) tot"
proof (induction items arbitrary: xs cur)
  case (Cons bs items)
  then have *: "length (xs @ [bs]) + length items \<le> cap" "[] \<notin> set items" "bs \<noteq> []" by auto
  from Cons.IH [OF *(1,2)] *(3) Cons.prems(1) show ?case
    by (simp add: plus_counts_assoc)
qed simp

lemma report_run_over:
  "length xs = cap \<Longrightarrow>
    report_run cap tries (replicate k (Call (Put bs)) @ ops) xs cur tot =
    replicate k (Returned (Stored False)) @ report_run cap tries ops xs
      (plus_counts cur (adds (concat (replicate k (replicate tries (Inc AllocFailed) @ [Inc PushTimeout]))))) tot"
  by (induction k arbitrary: cur) (simp_all add: plus_counts_assoc)

lemma report_run_drain:
  "report_run cap tries (replicate (length items) (Call Get) @ ops) items cur tot =
    map (\<lambda>bs. Returned (Fetched (Some bs))) items @ report_run cap tries ops []
      (plus_counts cur (adds (concat
        (map (\<lambda>bs. [AddPop (of_nat (length bs)), Inc PopOk]) items)))) tot"
  by (induction items arbitrary: cur) (simp_all add: plus_counts_assoc)

lemma report_run_empty:
  "report_run cap tries (replicate k (Call Get) @ ops) [] cur tot =
    replicate k (Returned (Fetched None)) @ report_run cap tries ops []
      (plus_counts cur (adds (concat (replicate k [Inc PopEmpty, Inc PopTimeout])))) tot"
  by (induction k arbitrary: cur) (simp_all add: plus_counts_assoc)

lemma report_run_round:
  assumes "length items = cap" "[] \<notin> set items"
  shows "report_run cap tries (test_round items k extra @ ops) [] (\<lambda>_. 0) tot =
    round_outcomes items k (push_window tries items k) (pop_window items k) tot @
    report_run cap tries ops [] (\<lambda>_. 0)
      (plus_counts (plus_counts tot (push_window tries items k)) (pop_window items k))"
  using assms
  using report_run_drain [of cap tries items]
  by (simp add: test_round_def round_outcomes_def report_run_fill report_run_over
      report_run_empty push_window_def pop_window_def plus_counts_assoc)

lemma report_run_rounds:
  fixes tries k :: nat
  assumes "length items = cap" "[] \<notin> set items"
  defines "w \<equiv> plus_counts (push_window tries items k) (pop_window items k)"
  shows "report_run cap tries (test_calls items k extra rounds) [] (\<lambda>_. 0) tot =
    concat (map (\<lambda>j. round_outcomes items k (push_window tries items k) (pop_window items k)
      (\<lambda>c. tot c + of_nat j * w c)) [0..<rounds]) @
    [Reported (\<lambda>_. 0) (\<lambda>c. tot c + of_nat rounds * w c)]"
proof (induction rounds arbitrary: tot)
  case (Suc r)
  let ?out = "round_outcomes items k (push_window tries items k) (pop_window items k)"
  let ?tot = "\<lambda>c. tot c + w c" and ?last = "\<lambda>n. [Reported (\<lambda>_. 0) (\<lambda>c. tot c + of_nat n * w c)]"
  have t: "plus_counts (plus_counts tot (push_window tries items k)) (pop_window items k) = ?tot"
    by (simp add: plus_counts_def w_def algebra_simps)
  have s: "(\<lambda>c. ?tot c + of_nat n * w c) = (\<lambda>c. tot c + of_nat (Suc n) * w c)" for n
    by (simp add: algebra_simps)
  have "test_calls items k extra (Suc r) = test_round items k extra @ test_calls items k extra r"
    by (simp add: test_calls_def)
  then have "report_run cap tries (test_calls items k extra (Suc r)) [] (\<lambda>_. 0) tot =
      ?out tot @ concat (map (\<lambda>j. ?out (\<lambda>c. tot c + of_nat (Suc j) * w c)) [0..<r]) @ ?last (Suc r)"
    by (simp only: report_run_round [OF assms(1,2)] t Suc.IH s)
  also have "\<dots> = concat (map (\<lambda>j. ?out (\<lambda>c. tot c + of_nat j * w c)) (0 # map Suc [0..<r])) @ ?last (Suc r)"
    by (simp add: comp_def del: of_nat_Suc)
  also have "0 # map Suc [0..<r] = [0..<Suc r]" by (simp only: map_Suc_upt upt_conv_Cons zero_less_Suc)
  finally show ?case .
qed (simp add: test_calls_def)

lemma adds_items:
  "adds (concat (map f items)) c = (\<Sum>bs\<leftarrow>items. adds (f bs) c)"
  "adds (concat (replicate k cs)) c = of_nat k * adds cs c"
  "adds (replicate k d) c = of_nat k * call_adds d c"
  by (induction items; simp add: plus_counts_def) (induction k; simp add: plus_counts_def algebra_simps)+

lemma window_counts:
  "push_window tries items k PushOk = of_nat (length items)"
  "push_window tries items k PushTimeout = of_nat k"
  "push_window tries items k PopOk = 0" "push_window tries items k PopTimeout = 0"
  "pop_window items k PushOk = 0" "pop_window items k PushTimeout = 0"
  "pop_window items k PopOk = of_nat (length items)"
  "pop_window items k PopTimeout = of_nat k" "pop_window items k PopEmpty = of_nat k"
  "pop_window items k PopActionFailed = 0"
  by (simp_all add: push_window_def pop_window_def adds_items plus_counts_def sum_list_triv)


section \<open>Properties\<close>

lemma queue_reports_new:
  fixes mtu n :: "16 word"
  assumes "ring_laws R" "0 < bw" "unat bw < 2 ^ 64 - 100"
    "\<And>bs. Call (Put bs) \<in> set ops \<Longrightarrow> length bs \<le> unat mtu"
  shows "\<exists>pq. report_runs (queue_put R) (queue_get R) queue_report ops
       (PacketQueue_new R raw now (ucast mtu) (ucast n) bw) =
     Inr (report_run (unat n) (push_tries bw) ops [] (\<lambda>_. 0) (\<lambda>_. 0), pq) \<and> fifo_inv R pq"
proof -
  let ?pq = "PacketQueue_new R raw now (ucast mtu) (ucast n) bw"
  note inv = fifo_inv_new16 [OF assms(1-3), of raw now mtu n]
  have new: "pq_queue R ?pq = []" "capacity (pq_pb ?pq) = unat n" "current_counts ?pq = (\<lambda>_. 0)"
    "total_counts ?pq = (\<lambda>_. 0)" "pq_blockWait ?pq = bw"
    using ring_new [OF assms(1)]
    by (simp_all add: pq_queue_def unat16_less current_counts_def total_counts_def getCurrent_def
        getTotal_def PacketQueue_new_def PacketStatistic_new_def)
  have "unat (pb_mtu (pq_pb ?pq)) = unat mtu"
    by (simp add: PacketBuffer_new_def Let_def unat16_less)
  then have w: "\<And>bs. Call (Put bs) \<in> set ops \<Longrightarrow> length bs \<le> unat (pb_mtu (pq_pb ?pq))"
    using assms(4) by simp
  show ?thesis using queue_reports.run_reports [of R ?pq ops, OF inv w] unfolding new .
qed

text \<open>C26: the statistic is part of the contract of the queue. For every sequence of stores,
  fetches and calls of \<open>getStatistic\<close> on a new queue, with nobody else at work, the results of
  the calls are those of the bounded first-in first-out queue, and the reports are those of
  the specification, for all twelve counters: a window holds exactly what the calls since
  the last report did, a push that gives up has asked for a packet once per turn of its loop,
  and the totals are the sum of all windows.\<close>
theorem queue_reports_exact:
  fixes mtu n :: "16 word"
  assumes "ring_laws R" "0 < bw" "unat bw < 2 ^ 64 - 100"
    "\<And>bs. Call (Put bs) \<in> set ops \<Longrightarrow> length bs \<le> unat mtu"
  shows "\<exists>pq. report_runs (queue_put R) (queue_get R) queue_report ops
       (PacketQueue_new R raw now (ucast mtu) (ucast n) bw) =
     Inr (report_run (unat n) (push_tries bw) ops [] (\<lambda>_. 0) (\<lambda>_. 0), pq) \<and> pq_inv R pq"
  using queue_reports_new [where raw = raw and now = now and n = n, OF assms] by (auto simp: fifo_inv_def)

theorem queue_reports_exact_witness:
  "\<exists>w1 t1 w2 t2 pq. report_runs (queue_put list_ring) (queue_get list_ring) queue_report
       [Call (Put ''one''), Call (Put ''two''), Report 5, Call Get, Call Get, Report 9]
       (PacketQueue_new list_ring (\<lambda>_. CHR 0x00) 0 (ucast (16 :: 16 word))
          (ucast (1 :: 16 word)) 10) =
     Inr ([Returned (Stored True), Returned (Stored False), Reported w1 t1,
       Returned (Fetched (Some ''one'')), Returned (Fetched None), Reported w2 t2], pq) \<and>
     w1 AllocOk = 1 \<and> w1 PushPacketSize = 3 \<and> w1 AllocFailed = 2 \<and> w1 PushTimeout = 1 \<and>
     w2 PushOk = 0 \<and> w2 PopOk = 1 \<and> w2 PopEmpty = 1 \<and> t2 PushOk = 1 \<and> t2 AllocFailed = 2"
proof -
  let ?new = "PacketQueue_new list_ring (\<lambda>_. CHR 0x00) 0 (ucast (16 :: 16 word)) (ucast (1 :: 16 word)) 10"
  let ?ops = "[Call (Put ''one''), Call (Put ''two''), Report 5, Call Get, Call Get, Report 9]"
  have w: "\<And>bs. Call (Put bs) \<in> set ?ops \<Longrightarrow> length bs \<le> unat (16 :: 16 word)" by auto
  have t: "push_tries 10 = 2" by code_simp
  obtain pq where "report_runs (queue_put list_ring) (queue_get list_ring) queue_report ?ops ?new =
      Inr (report_run (unat (1 :: 16 word)) (push_tries 10) ?ops [] (\<lambda>_. 0) (\<lambda>_. 0), pq)"
    using queue_reports_exact [of list_ring 10 ?ops 16 "\<lambda>_. CHR 0x00" 0 1, OF list_ring_laws _ _ w]
    by force
  moreover have "\<exists>w1 t1 w2 t2. report_run (unat (1 :: 16 word)) (push_tries 10) ?ops [] (\<lambda>_. 0) (\<lambda>_. 0) =
      [Returned (Stored True), Returned (Stored False), Reported w1 t1,
       Returned (Fetched (Some ''one'')), Returned (Fetched None), Reported w2 t2] \<and>
     w1 AllocOk = 1 \<and> w1 PushPacketSize = 3 \<and> w1 AllocFailed = 2 \<and> w1 PushTimeout = 1 \<and>
     w2 PushOk = 0 \<and> w2 PopOk = 1 \<and> w2 PopEmpty = 1 \<and> t2 PushOk = 1 \<and> t2 AllocFailed = 2" (is "\<exists>w1 t1 w2 t2. ?P w1 t1 w2 t2")
    by (simp add: t plus_counts_def numeral_2_eq_2)
  then obtain w1 t1 w2 t2 where "?P w1 t1 w2 t2" by (elim exE) (rule that)
  ultimately show ?thesis
    by (intro exI [of _ w1] exI [of _ t1] exI [of _ w2] exI [of _ t2] exI [of _ pq]) (simp only: simp_thms)
qed

text \<open>The scenario of \<open>packet_queue_test.cpp\<close>. On a new queue of \<open>n\<close> packets that hold a
  number each, every round of the test has the results it checks: all \<open>n\<close> pushes succeed, the
  \<open>k\<close> pushes after them fail, the numbers come back in order, \<open>k\<close> more pops fail; the
  window of the first half counts \<open>n\<close> pushes, that of the second \<open>n\<close> pops, \<open>k\<close> looks at an empty
  queue and no failed action; and the totals at the end count all rounds, with one timeout
  for every call that failed.\<close>
theorem packet_queue_test:
  fixes mtu n :: "16 word"
  assumes "ring_laws R" "8 \<le> unat mtu" "0 < bw" "unat bw < 2 ^ 64 - 100" "length extra \<le> unat mtu"
  shows "\<exists>pq w1 w2 tot. report_runs (queue_put R) (queue_get R) queue_report
       (test_calls (map test_item [0..<unat n]) k extra rounds)
       (PacketQueue_new R raw now (ucast mtu) (ucast n) bw) =
     Inr (concat (map (\<lambda>j. round_outcomes (map test_item [0..<unat n]) k w1 w2
         (\<lambda>c. of_nat j * (w1 c + w2 c))) [0..<rounds]) @ [Reported (\<lambda>_. 0) tot], pq) \<and>
     w1 PushOk = of_nat (unat n) \<and>
     w2 PopOk = of_nat (unat n) \<and> w2 PopEmpty = of_nat k \<and> w2 PopActionFailed = 0 \<and>
     tot PushOk = of_nat (rounds * unat n) \<and> tot PopOk = of_nat (rounds * unat n) \<and>
     tot PushTimeout = of_nat (rounds * k) \<and> tot PopTimeout = of_nat (rounds * k)"
proof -
  let ?items = "map test_item [0..<unat n]"
  let ?w1 = "push_window (push_tries bw) ?items k" and ?w2 = "pop_window ?items k"
  have len: "length bs \<le> unat mtu" if "Call (Put bs) \<in> set (test_calls ?items k extra rounds)" for bs
    using that assms(2,5)
    by (auto simp: test_calls_def test_round_def test_item_def split: if_splits)
  have items: "length ?items = unat n" "[] \<notin> set ?items" by (auto simp: test_item_def)
  from queue_reports_new [OF assms(1,3,4) len] obtain pq where
    "report_runs (queue_put R) (queue_get R) queue_report (test_calls ?items k extra rounds)
       (PacketQueue_new R raw now (ucast mtu) (ucast n) bw) =
     Inr (report_run (unat n) (push_tries bw) (test_calls ?items k extra rounds) [] (\<lambda>_. 0) (\<lambda>_. 0), pq)"
    by blast
  then show ?thesis
    unfolding report_run_rounds [OF items]
    by (intro exI [of _ pq] exI [of _ ?w1] exI [of _ ?w2]
        exI [of _ "\<lambda>c. of_nat rounds * plus_counts ?w1 ?w2 c"])
      (simp add: window_counts plus_counts_def algebra_simps)
qed

text \<open>The program itself: 100 packets of at most 1313 bytes, 10 milliseconds, ten rounds.\<close>

theorem packet_queue_test_witness:
  "\<exists>os pq tot. report_runs (queue_put list_ring) (queue_get list_ring) queue_report
       (test_calls (map test_item [0..<100]) 10 [] 10)
       (PacketQueue_new list_ring (\<lambda>_. CHR 0x00) 0 (ucast (1313 :: 16 word))
          (ucast (100 :: 16 word)) 10) = Inr (os @ [Reported (\<lambda>_. 0) tot], pq) \<and>
     tot PushOk = 1000 \<and> tot PopOk = 1000 \<and> tot PushTimeout = 100 \<and> tot PopTimeout = 100"
  using packet_queue_test [of list_ring 1313 10 "[]" 100 10 10 "\<lambda>_. CHR 0x00" 0, OF list_ring_laws]
  by simp blast

end
