(* ===== verification/Statistic_Threads.thy ===== *)
theory Statistic_Threads
  imports Packet_Statistic "HOL-Library.Multiset"
begin

text \<open>
  \<open>packet_statistic.hpp\<close> without the assumption that its methods are atomic: the members of
  \<open>current\<close> are plain \<open>size_t\<close>, the thread that pushes or pops counts with \<open>++\<close> and \<open>+=\<close>,
  and the statistic thread calls \<open>collect\<close> meanwhile. The accesses of both threads to the
  members are single steps in any order (sequential consistency). Each counter is written by
  one counting thread, as the counters of \<open>push\<close> and those of \<open>pop\<close> are different ones.
\<close>

section \<open>The accesses\<close>

fun cset :: "counter \<Rightarrow> size_t \<Rightarrow> Data \<Rightarrow> Data" where
  "cset AllocFailed v d = d\<lparr>allocFailed := v\<rparr>"
| "cset AllocOk v d = d\<lparr>allocOk := v\<rparr>"
| "cset PushActionFailed v d = d\<lparr>pushActionFailed := v\<rparr>"
| "cset PopActionFailed v d = d\<lparr>popActionFailed := v\<rparr>"
| "cset PushTimeout v d = d\<lparr>pushTimeout := v\<rparr>"
| "cset PopTimeout v d = d\<lparr>popTimeout := v\<rparr>"
| "cset PushPacketSize v d = d\<lparr>pushPacketSize := v\<rparr>"
| "cset PopPacketSize v d = d\<lparr>popPacketSize := v\<rparr>"
| "cset PushOk v d = d\<lparr>pushOk := v\<rparr>"
| "cset PopOk v d = d\<lparr>popOk := v\<rparr>"
| "cset PopEmpty v d = d\<lparr>popEmpty := v\<rparr>"
| "cset PushFailed v d = d\<lparr>pushFailed := v\<rparr>"

text \<open>
  Where \<open>collect\<close> is. \<open>std::swap(ret.current, this->current)\<close> copies all members of
  \<open>current\<close> into \<open>ret\<close> and then overwrites all of them with those of the fresh object;
  afterwards the copies are added to \<open>total\<close>. The lists hold the members that are still to
  be done, in no fixed order.
\<close>

datatype collector =
    NoCollect
  | Copying PacketStatistic "counter list"
  | Clearing PacketStatistic "counter list"
  | Adding PacketStatistic "counter list"

text \<open>
  The counting thread has loaded a member, which it is about to store increased: the
  counter, the amount, and what it loaded. The reports that \<open>collect\<close> returned are kept,
  and what was counted altogether.
\<close>

record stat_threads =
  sm_stat :: PacketStatistic
  sm_count :: "(counter \<times> size_t \<times> size_t) option"
  sm_collect :: collector
  sm_reports :: "PacketStatistic list"
  sm_counted :: "counter \<Rightarrow> size_t"

definition stat_threads_new :: "time_point \<Rightarrow> stat_threads" where
  "stat_threads_new now = \<lparr>sm_stat = PacketStatistic_new now, sm_count = None,
     sm_collect = NoCollect, sm_reports = [], sm_counted = (\<lambda>_. 0)\<rparr>"

datatype stat_access =
    Load counter size_t
  | Store
  | Begin time_point
  | Copy counter
  | Clear counter
  | Add counter

text \<open>One counting method, \<open>++current.x\<close> or \<open>current.x += n\<close>, as a load and a store.\<close>

fun count_micro :: "stat_access \<Rightarrow> stat_threads \<Rightarrow> stat_threads option" where
  "count_micro (Load k n) s =
     (case sm_count s of
        None \<Rightarrow> Some (s\<lparr>sm_count := Some (k, n, cval k (st_current (sm_stat s)))\<rparr>)
      | Some _ \<Rightarrow> None)"
| "count_micro Store s =
     (case sm_count s of
        None \<Rightarrow> None
      | Some (k, n, v) \<Rightarrow>
          Some (s\<lparr>sm_stat := (sm_stat s)\<lparr>st_current := cset k (v + n) (st_current (sm_stat s))\<rparr>,
                  sm_count := None, sm_counted := (sm_counted s)(k := sm_counted s k + n)\<rparr>))"
| "count_micro _ s = None"

text \<open>\<open>collect\<close>, member by member.\<close>

fun collect_micro :: "stat_access \<Rightarrow> stat_threads \<Rightarrow> stat_threads option" where
  "collect_micro (Begin now) s =
     (case sm_collect s of
        NoCollect \<Rightarrow> Some (s\<lparr>sm_collect := Copying (PacketStatistic_new now) enum_class.enum\<rparr>)
      | _ \<Rightarrow> None)"
| "collect_micro (Copy k) s =
     (case sm_collect s of
        Copying ret todo \<Rightarrow>
          if k \<notin> set todo then None else
          let ret1 = ret\<lparr>st_current := cset k (cval k (st_current (sm_stat s))) (st_current ret)\<rparr>;
              todo1 = remove1 k todo
          in Some (s\<lparr>sm_collect := (if todo1 = [] then Clearing ret1 enum_class.enum else Copying ret1 todo1)\<rparr>)
      | _ \<Rightarrow> None)"
| "collect_micro (Clear k) s =
     (case sm_collect s of
        Clearing ret todo \<Rightarrow>
          if k \<notin> set todo then None else
          let this1 = (sm_stat s)\<lparr>st_current := cset k 0 (st_current (sm_stat s))\<rparr>;
              todo1 = remove1 k todo
          in Some (if todo1 = []
               then s\<lparr>sm_stat := this1\<lparr>st_started := st_started ret\<rparr>,
                      sm_collect := Adding (ret\<lparr>st_started := st_started this1\<rparr>) enum_class.enum\<rparr>
               else s\<lparr>sm_stat := this1, sm_collect := Clearing ret todo1\<rparr>)
      | _ \<Rightarrow> None)"
| "collect_micro (Add k) s =
     (case sm_collect s of
        Adding ret todo \<Rightarrow>
          if k \<notin> set todo then None else
          let this1 = (sm_stat s)\<lparr>st_total :=
                cset k (cval k (st_total (sm_stat s)) + cval k (st_current ret)) (st_total (sm_stat s))\<rparr>;
              todo1 = remove1 k todo
          in Some (if todo1 = []
               then s\<lparr>sm_stat := this1, sm_collect := NoCollect,
                      sm_reports := sm_reports s @ [ret\<lparr>st_total := st_total this1\<rparr>]\<rparr>
               else s\<lparr>sm_stat := this1, sm_collect := Adding ret todo1\<rparr>)
      | _ \<Rightarrow> None)"
| "collect_micro _ s = None"

definition stat_micro :: "stat_access \<Rightarrow> stat_threads \<Rightarrow> stat_threads option" where
  "stat_micro e s =
     (case e of Load k n \<Rightarrow> count_micro e s | Store \<Rightarrow> count_micro e s | _ \<Rightarrow> collect_micro e s)"

fun stat_run :: "stat_access list \<Rightarrow> stat_threads \<Rightarrow> stat_threads option" where
  "stat_run [] s = Some s"
| "stat_run (e # es) s = Option.bind (stat_micro e s) (stat_run es)"

text \<open>
  The two accesses that get in each other's way: a store to a member that \<open>collect\<close> has
  copied and will overwrite, and overwriting a member that was loaded for counting.
\<close>

definition copied :: "counter \<Rightarrow> stat_threads \<Rightarrow> bool" where
  "copied k s = (case sm_collect s of
       Copying ret todo \<Rightarrow> k \<notin> set todo | Clearing ret todo \<Rightarrow> k \<in> set todo | _ \<Rightarrow> False)"

definition counting :: "counter \<Rightarrow> stat_threads \<Rightarrow> bool" where
  "counting k s = (case sm_count s of None \<Rightarrow> False | Some (j, _) \<Rightarrow> j = k)"

fun overlap :: "counter \<Rightarrow> stat_access \<Rightarrow> stat_threads \<Rightarrow> bool" where
  "overlap k Store s \<longleftrightarrow> counting k s \<and> copied k s"
| "overlap k (Clear j) s \<longleftrightarrow> j = k \<and> counting k s"
| "overlap k _ s \<longleftrightarrow> False"

fun race_free :: "counter \<Rightarrow> stat_access list \<Rightarrow> stat_threads \<Rightarrow> bool" where
  "race_free k [] s \<longleftrightarrow> True"
| "race_free k (e # es) s \<longleftrightarrow> \<not> overlap k e s \<and>
     (case stat_micro e s of None \<Rightarrow> True | Some s1 \<Rightarrow> race_free k es s1)"

section \<open>Facts\<close>

lemma cval_cset [simp]: "cval k (cset j v d) = (if k = j then v else cval k d)"
  by (cases j; cases k) simp_all

lemma counter_in_enum [simp]: "k \<in> set (enum_class.enum :: counter list)"
  by (simp add: UNIV_enum [symmetric])

lemma counters_distinct [simp]: "distinct (enum_class.enum :: counter list)"
  by (rule enum_distinct)

lemma counters_some [simp]: "(enum_class.enum :: counter list) \<noteq> []"
  by (simp add: enum_counter_def)

text \<open>
  The invariant of a counter: where its counts are. They are in \<open>total\<close> and \<open>current\<close>, and
  between the overwriting and the addition also in the copy.
\<close>

fun held :: "counter \<Rightarrow> collector \<Rightarrow> size_t" where
  "held k (Clearing ret todo) = (if k \<in> set todo then 0 else cval k (st_current ret))"
| "held k (Adding ret todo) = (if k \<in> set todo then cval k (st_current ret) else 0)"
| "held k _ = 0"

fun copy_of :: "counter \<Rightarrow> collector \<Rightarrow> size_t option" where
  "copy_of k (Copying ret todo) = (if k \<in> set todo then None else Some (cval k (st_current ret)))"
| "copy_of k (Clearing ret todo) = (if k \<in> set todo then Some (cval k (st_current ret)) else None)"
| "copy_of k _ = None"

fun todo_of :: "collector \<Rightarrow> counter list" where
  "todo_of (Copying ret todo) = todo"
| "todo_of (Clearing ret todo) = todo"
| "todo_of (Adding ret todo) = todo"
| "todo_of NoCollect = []"

definition stat_inv :: "counter \<Rightarrow> stat_threads \<Rightarrow> bool" where
  "stat_inv k s \<longleftrightarrow>
     lifetime (sm_stat s) k + held k (sm_collect s) = sm_counted s k \<and>
     (\<forall>v. copy_of k (sm_collect s) = Some v \<longrightarrow> v = cval k (st_current (sm_stat s))) \<and>
     (\<forall>n v. sm_count s = Some (k, n, v) \<longrightarrow> v = cval k (st_current (sm_stat s))) \<and>
     distinct (todo_of (sm_collect s))"


lemma stat_micro_simps [simp]:
  "stat_micro (Load k n) = count_micro (Load k n)" "stat_micro Store = count_micro Store"
  "stat_micro (Begin now) = collect_micro (Begin now)" "stat_micro (Copy k) = collect_micro (Copy k)"
  "stat_micro (Clear k) = collect_micro (Clear k)" "stat_micro (Add k) = collect_micro (Add k)"
  by (simp_all add: stat_micro_def fun_eq_iff)

lemma remove1_last: "remove1 j xs = [] \<Longrightarrow> k \<in> set xs \<Longrightarrow> k = j"
  by (metis empty_iff in_set_remove1 list.set(1))

lemma stat_inv_step:
  assumes inv: "stat_inv k s" and st: "stat_micro e s = Some s'" and no: "\<not> overlap k e s"
  shows "stat_inv k s'"
proof (cases e)
  case (Load j n)
  then show ?thesis using inv st by (auto simp: stat_inv_def split: option.splits)
next
  case Store
  then obtain j n v where c: "sm_count s = Some (j, n, v)"
    "s' = s\<lparr>sm_stat := (sm_stat s)\<lparr>st_current := cset j (v + n) (st_current (sm_stat s))\<rparr>,
      sm_count := None, sm_counted := (sm_counted s)(j := sm_counted s j + n)\<rparr>"
    using st by (auto split: option.splits)
  show ?thesis
  proof (cases "j = k")
    case True
    have "copy_of k (sm_collect s) = None"
      using no True Store by (cases "sm_collect s") (auto simp: copied_def counting_def c(1))
    then show ?thesis using inv True by (auto simp: stat_inv_def c lifetime_def algebra_simps)
  next
    case False
    then show ?thesis using inv by (simp add: stat_inv_def c lifetime_def)
  qed
next
  case (Begin now)
  then show ?thesis using inv st by (auto simp: stat_inv_def split: collector.splits)
next
  case (Copy j)
  then show ?thesis
    using inv st
    by (auto simp: stat_inv_def Let_def split: collector.splits if_splits dest: remove1_last)
next
  case (Clear j)
  then show ?thesis
    using inv st no
    by (auto simp: stat_inv_def Let_def lifetime_def counting_def split: collector.splits if_splits
        dest: remove1_last)
next
  case (Add j)
  then show ?thesis
    using inv st
    by (auto simp: stat_inv_def Let_def lifetime_def algebra_simps split: collector.splits if_splits
        dest: remove1_last)
qed


lemma stat_inv_run:
  "stat_run es s = Some s' \<Longrightarrow> stat_inv k s \<Longrightarrow> race_free k es s \<Longrightarrow> stat_inv k s'"
proof (induction es arbitrary: s)
  case (Cons e es)
  from Cons.prems(1) obtain s1 where s1: "stat_micro e s = Some s1" "stat_run es s1 = Some s'"
    by (auto simp: bind_eq_Some_conv)
  have "stat_inv k s1"
    by (rule stat_inv_step [OF Cons.prems(2) s1(1)]) (use Cons.prems(3) in simp)
  then show ?case using Cons.IH [OF s1(2)] Cons.prems(3) s1(1) by simp
qed simp

lemma stat_inv_new: "stat_inv k (stat_threads_new now)"
  by (simp add: stat_inv_def stat_threads_new_def)

text \<open>Races or not, the reported windows add up to the totals.\<close>

fun added :: "counter \<Rightarrow> collector \<Rightarrow> size_t" where
  "added k (Adding ret todo) = (if k \<in> set todo then 0 else cval k (st_current ret))"
| "added k _ = 0"

definition reports_inv :: "counter \<Rightarrow> stat_threads \<Rightarrow> bool" where
  "reports_inv k s \<longleftrightarrow>
     (\<Sum>r \<leftarrow> sm_reports s. cval k (st_current r)) + added k (sm_collect s) = cval k (st_total (sm_stat s)) \<and>
     distinct (todo_of (sm_collect s))"

lemma reports_inv_step:
  assumes inv: "reports_inv k s" and st: "stat_micro e s = Some s'"
  shows "reports_inv k s'"
proof (cases e)
  case (Add j)
  then show ?thesis
    using inv st
    by (auto simp: reports_inv_def Let_def algebra_simps split: collector.splits if_splits
        dest: remove1_last)
qed (use inv st in \<open>auto simp: reports_inv_def Let_def split: option.splits collector.splits if_splits\<close>)

lemma reports_inv_run:
  "stat_run es s = Some s' \<Longrightarrow> reports_inv k s \<Longrightarrow> reports_inv k s'"
proof (induction es arbitrary: s)
  case (Cons e es)
  from Cons.prems(1) obtain s1 where s1: "stat_micro e s = Some s1" "stat_run es s1 = Some s'"
    by (auto simp: bind_eq_Some_conv)
  then show ?case using Cons.IH [OF s1(2) reports_inv_step [OF Cons.prems(2) s1(1)]] by simp
qed simp

section \<open>A collect that is not disturbed\<close>

text \<open>The members \<open>ks\<close> of \<open>d\<close>, the others of \<open>d'\<close>.\<close>

definition merge :: "counter list \<Rightarrow> Data \<Rightarrow> Data \<Rightarrow> Data" where
  "merge ks d d' = fold (\<lambda>k. cset k (cval k d)) ks d'"

lemma cval_merge: "cval k (merge ks d d') = (if k \<in> set ks then cval k d else cval k d')"
  unfolding merge_def by (induction ks arbitrary: d') auto

lemma merge_Cons: "merge (k # ks) d d' = merge ks d (cset k (cval k d) d')"
  by (simp add: merge_def)

lemma merge_all: "set ks = UNIV \<Longrightarrow> merge ks d d' = d"
  by (rule Data_eqI) (simp add: cval_merge)

lemma stat_run_append: "stat_run (es @ es') s = Option.bind (stat_run es s) (stat_run es')"
proof (induction es arbitrary: s)
  case (Cons e es)
  then show ?case by (cases "stat_micro e s") simp_all
qed simp

lemma stat_run_then: "stat_run es s = Some s1 \<Longrightarrow> stat_run (es @ es') s = stat_run es' s1"
  by (simp add: stat_run_append)

text \<open>Each phase, for any order of its members.\<close>

lemma remove1_mset:
  assumes "mset (k # ks) = mset todo"
  shows "mset ks = mset (remove1 k todo)" "k \<in> set todo" "remove1 k todo = [] \<longleftrightarrow> ks = []"
proof -
  show m: "mset ks = mset (remove1 k todo)"
    using assms by (metis add_mset_remove_trivial mset.simps(2) mset_remove1)
  show "k \<in> set todo" using assms by (metis list.set_intros(1) set_mset_mset)
  show "remove1 k todo = [] \<longleftrightarrow> ks = []" using m by (metis mset_zero_iff)
qed

lemma run_copying:
  assumes "mset ks = mset todo" "todo \<noteq> []" "sm_collect s = Copying ret todo"
  shows "stat_run (map Copy ks) s = Some (s\<lparr>sm_collect := Clearing
    (ret\<lparr>st_current := merge ks (st_current (sm_stat s)) (st_current ret)\<rparr>) enum_class.enum\<rparr>)"
  using assms
proof (induction ks arbitrary: s ret todo)
  case (Cons k ks)
  note m = remove1_mset [OF Cons.prems(1)]
  then show ?case
    using Cons.prems(3) Cons.IH [OF m(1)] by (cases "ks = []") (simp_all add: merge_def)
qed simp

lemma run_clearing:
  assumes "mset ks = mset todo" "todo \<noteq> []" "sm_collect s = Clearing ret todo"
  shows "stat_run (map Clear ks) s = Some (s\<lparr>
    sm_stat := (sm_stat s)\<lparr>st_current := merge ks Data_new (st_current (sm_stat s)), st_started := st_started ret\<rparr>,
    sm_collect := Adding (ret\<lparr>st_started := st_started (sm_stat s)\<rparr>) enum_class.enum\<rparr>)"
  using assms
proof (induction ks arbitrary: s todo)
  case (Cons k ks)
  note m = remove1_mset [OF Cons.prems(1)]
  then show ?case
    using Cons.prems(3) Cons.IH [OF m(1)] by (cases "ks = []") (simp_all add: merge_def)
qed simp

lemma run_adding:
  assumes "mset ks = mset todo" "distinct ks" "todo \<noteq> []" "sm_collect s = Adding ret todo"
  shows "stat_run (map Add ks) s = (let total = merge ks
      (Data_add (st_total (sm_stat s)) (st_current ret)) (st_total (sm_stat s))
    in Some (s\<lparr>sm_stat := (sm_stat s)\<lparr>st_total := total\<rparr>, sm_collect := NoCollect,
      sm_reports := sm_reports s @ [ret\<lparr>st_total := total\<rparr>]\<rparr>))"
  using assms
proof (induction ks arbitrary: s todo)
  case (Cons k ks)
  note m = remove1_mset [OF Cons.prems(1)]
  let ?t = "st_total (sm_stat s)"
  let ?t1 = "cset k (cval k ?t + cval k (st_current ret)) ?t"
  have "merge ks (Data_add ?t1 (st_current ret)) ?t1 = merge (k # ks) (Data_add ?t (st_current ret)) ?t"
    using Cons.prems(2) by (intro Data_eqI) (auto simp: cval_merge)
  with m show ?case
    using Cons.prems(2,4) Cons.IH [OF m(1)] by (cases "ks = []") (simp_all add: merge_def Let_def)
qed simp


text \<open>An order in which each member occurs once.\<close>

definition member_order :: "counter list \<Rightarrow> bool" where
  "member_order ks \<longleftrightarrow> distinct ks \<and> set ks = UNIV"

lemma member_order_mset: "member_order ks \<Longrightarrow> mset ks = mset enum_class.enum"
  by (metis UNIV_enum counters_distinct member_order_def set_eq_iff_mset_eq_distinct)

lemma member_order_enum: "member_order enum_class.enum"
  by (simp add: member_order_def UNIV_enum [symmetric])

text \<open>The copies and the overwriting, as they are when nothing comes between.\<close>

lemma run_swap:
  assumes "member_order ks" "member_order ks'" "sm_collect s = NoCollect"
  shows "stat_run (Begin now # map Copy ks @ map Clear ks') s = Some (s\<lparr>
    sm_stat := (sm_stat s)\<lparr>st_current := Data_new, st_started := now\<rparr>,
    sm_collect := Adding \<lparr>st_started = st_started (sm_stat s), st_current = st_current (sm_stat s),
      st_total = Data_new\<rparr> enum_class.enum\<rparr>)"
proof -
  let ?s1 = "s\<lparr>sm_collect := Copying (PacketStatistic_new now) enum_class.enum\<rparr>"
  let ?ret = "(PacketStatistic_new now)\<lparr>st_current := st_current (sm_stat s)\<rparr>"
  have u: "set ks = UNIV" "set ks' = UNIV" using assms(1,2) by (simp_all add: member_order_def)
  have "stat_run (map Copy ks) ?s1 = Some (?s1\<lparr>sm_collect := Clearing ?ret enum_class.enum\<rparr>)"
    using run_copying [OF member_order_mset [OF assms(1)] counters_some, of ?s1]
    by (simp add: merge_all [OF u(1)])
  moreover have "stat_run (map Clear ks') (?s1\<lparr>sm_collect := Clearing ?ret enum_class.enum\<rparr>) =
      Some (s\<lparr>sm_stat := (sm_stat s)\<lparr>st_current := Data_new, st_started := now\<rparr>,
        sm_collect := Adding (?ret\<lparr>st_started := st_started (sm_stat s)\<rparr>) enum_class.enum\<rparr>)"
    using run_clearing [OF member_order_mset [OF assms(2)] counters_some,
        of "?s1\<lparr>sm_collect := Clearing ?ret enum_class.enum\<rparr>"]
    by (simp add: merge_all [OF u(2)] PacketStatistic_new_def)
  ultimately show ?thesis
    using assms(3) by (simp add: stat_run_append PacketStatistic_new_def)
qed

lemma run_totals:
  assumes "member_order ks" "sm_collect s = Adding ret enum_class.enum"
  shows "stat_run (map Add ks) s = (let total = Data_add (st_total (sm_stat s)) (st_current ret)
    in Some (s\<lparr>sm_stat := (sm_stat s)\<lparr>st_total := total\<rparr>, sm_collect := NoCollect,
      sm_reports := sm_reports s @ [ret\<lparr>st_total := total\<rparr>]\<rparr>))"
proof -
  have "distinct ks" "set ks = UNIV" using assms(1) by (simp_all add: member_order_def)
  then show ?thesis
    using run_adding [OF member_order_mset [OF assms(1)] _ counters_some assms(2)]
    by (simp add: merge_all Let_def)
qed

text \<open>
  So the accesses of \<open>collect\<close> alone do what \<open>collect\<close> does as one step, and those of a
  counting method what the method does.
\<close>

lemma collect_undisturbed:
  assumes "member_order ks" "member_order ks'" "member_order ks''" "sm_collect s = NoCollect"
  shows "stat_run (Begin now # map Copy ks @ map Clear ks' @ map Add ks'') s =
    Some (s\<lparr>sm_stat := snd (collect now (sm_stat s)),
            sm_reports := sm_reports s @ [fst (collect now (sm_stat s))]\<rparr>)"
proof -
  have "stat_run ((Begin now # map Copy ks @ map Clear ks') @ map Add ks'') s =
    Some (s\<lparr>sm_stat := snd (collect now (sm_stat s)),
            sm_reports := sm_reports s @ [fst (collect now (sm_stat s))]\<rparr>)"
    unfolding stat_run_append run_swap [OF assms(1,2,4)] bind.bind_lunit
    using run_totals [OF assms(3)] assms(4)
    by (simp add: collect_def PacketStatistic_new_def Let_def)
  then show ?thesis by simp
qed

lemma count_undisturbed:
  assumes "sm_count s = None"
  shows "stat_run [Load k 1, Store] s = Some (s\<lparr>sm_stat := stat_step (sm_stat s) (Inc k),
    sm_counted := (sm_counted s)(k := sm_counted s k + 1)\<rparr>)"
    "stat_run [Load PushPacketSize n, Store] s = Some (s\<lparr>sm_stat := addPushPacketSize n (sm_stat s),
      sm_counted := (sm_counted s)(PushPacketSize := sm_counted s PushPacketSize + n)\<rparr>)"
    "stat_run [Load PopPacketSize n, Store] s = Some (s\<lparr>sm_stat := addPopPacketSize n (sm_stat s),
      sm_counted := (sm_counted s)(PopPacketSize := sm_counted s PopPacketSize + n)\<rparr>)"
  using assms by (cases k; simp add: inc_defs)+

text \<open>An example: a window with five pushed packets.\<close>

definition five_pushed :: stat_threads where
  "five_pushed = \<lparr>sm_stat = (PacketStatistic_new 0)\<lparr>st_current := Data_new\<lparr>pushOk := 5\<rparr>\<rparr>,
     sm_count = None, sm_collect = NoCollect, sm_reports = [], sm_counted = (\<lambda>_. 0)(PushOk := 5)\<rparr>"

section \<open>Properties\<close>

text \<open>C28: the statistic is exact when the two threads do not get in each other's way. Take any
  interleaving of the member accesses of a counting thread and of the thread that collects, in
  which no store to a counter falls between the moments where \<open>collect\<close> copies and overwrites
  it, and it is not overwritten while it is loaded for counting. When no \<open>collect\<close> is in
  progress, then \<open>total\<close> and \<open>current\<close> together, and likewise the windows of all reports
  together with \<open>current\<close>, hold exactly what was counted.\<close>
theorem statistic_exact:
  assumes "stat_run es (stat_threads_new now) = Some s" "race_free k es (stat_threads_new now)"
    "sm_collect s = NoCollect"
  shows "cval k (getTotal (sm_stat s)) + cval k (getCurrent (sm_stat s)) = sm_counted s k \<and>
    (\<Sum>r \<leftarrow> sm_reports s. cval k (getCurrent r)) + cval k (getCurrent (sm_stat s)) = sm_counted s k"
proof -
  have "reports_inv k (stat_threads_new now)"
    by (simp add: reports_inv_def stat_threads_new_def PacketStatistic_new_def)
  from reports_inv_run [OF assms(1) this] stat_inv_run [OF assms(1) stat_inv_new assms(2)] assms(3)
  show ?thesis by (simp add: reports_inv_def stat_inv_def lifetime_def getTotal_def getCurrent_def)
qed

theorem statistic_exact_witness:
  "\<exists>s. stat_run ([Load PushOk 1, Begin 5, Store] @ map Copy enum_class.enum @ [Load PopOk 1] @
      map Clear (rev enum_class.enum) @ [Store] @ map Add enum_class.enum) (stat_threads_new 0) = Some s \<and>
    cval PushOk (getTotal (sm_stat s)) + cval PushOk (getCurrent (sm_stat s)) = 1"
proof -
  let ?es = "[Load PushOk 1, Begin 5, Store] @ map Copy enum_class.enum @ [Load PopOk 1] @
      map Clear (rev enum_class.enum) @ [Store] @ map Add enum_class.enum"
  have e: "race_free PushOk ?es (stat_threads_new 0) \<and>
    (case stat_run ?es (stat_threads_new 0) of None \<Rightarrow> False
     | Some s \<Rightarrow> sm_counted s PushOk = 1 \<and> (case sm_collect s of NoCollect \<Rightarrow> True | _ \<Rightarrow> False))"
    by code_simp
  then obtain s where s: "stat_run ?es (stat_threads_new 0) = Some s" "sm_counted s PushOk = 1"
    "sm_collect s = NoCollect"
    by (auto split: option.splits collector.splits)
  from statistic_exact [OF s(1) conjunct1 [OF e] s(3)] s(1,2) show ?thesis by auto
qed

text \<open>C29: and it is not when they do. If a counting method has loaded a counter before \<open>collect\<close>
  copies it and stores it after \<open>collect\<close> has overwritten it, everything counted in the
  current window is counted twice; if it counts between the copy and the overwriting, the
  count is lost.\<close>
theorem statistic_races:
  fixes s :: stat_threads and k :: counter and n :: size_t and now :: time_point
  assumes "member_order ks" "member_order ks'" "member_order ks''"
    "sm_count s = None" "sm_collect s = NoCollect"
  defines "twice \<equiv> Load k n # Begin now # map Copy ks @ map Clear ks' @ Store # map Add ks''"
    and "lost \<equiv> Begin now # map Copy ks @ Load k n # Store # map Clear ks' @ map Add ks''"
  shows "\<exists>s1 s2. stat_run twice s = Some s1 \<and> stat_run lost s = Some s2 \<and>
    sm_counted s1 k = sm_counted s k + n \<and>
    lifetime (sm_stat s1) k = lifetime (sm_stat s) k + n + cval k (getCurrent (sm_stat s)) \<and>
    sm_counted s2 k = sm_counted s k + n \<and> lifetime (sm_stat s2) k = lifetime (sm_stat s) k"
proof -
  note u = assms(1-3) [unfolded member_order_def]
  let ?v = "cval k (st_current (sm_stat s))"
  let ?t1 = "s\<lparr>sm_count := Some (k, n, ?v)\<rparr>"
  let ?ret = "\<lparr>st_started = st_started (sm_stat s), st_current = st_current (sm_stat s), st_total = Data_new\<rparr>"
  let ?t2 = "s\<lparr>sm_stat := (sm_stat s)\<lparr>st_current := cset k (?v + n) Data_new, st_started := now\<rparr>,
    sm_count := None, sm_collect := Adding ?ret enum_class.enum,
    sm_counted := (sm_counted s)(k := sm_counted s k + n)\<rparr>"
  have t: "twice = Load k n # (Begin now # map Copy ks @ map Clear ks') @ (Store # map Add ks'')"
    by (simp add: twice_def)
  have "stat_run (Load k n # (Begin now # map Copy ks @ map Clear ks') @ (Store # map Add ks'')) s =
      stat_run (map Add ks'') ?t2"
  proof -
    have load: "stat_run (Load k n # es) s = stat_run es ?t1" for es using assms(4) by simp
    have "sm_collect ?t1 = NoCollect" using assms(5) by simp
    note run = stat_run_then [OF run_swap [OF assms(1,2) this]]
    show ?thesis
      unfolding load run
      by (simp, rule arg_cong [where f = "stat_run (map Add ks'')"])
        (auto intro!: stat_threads.equality PacketStatistic.equality)
  qed
  moreover have "sm_collect ?t2 = Adding ?ret enum_class.enum" by simp
  note run_totals [OF assms(3) this]
  ultimately obtain s1 where s1: "stat_run twice s = Some s1" "sm_counted s1 k = sm_counted s k + n"
    "st_total (sm_stat s1) = Data_add (st_total (sm_stat s)) (st_current (sm_stat s))"
    "st_current (sm_stat s1) = cset k (?v + n) Data_new"
    unfolding t by (simp add: Let_def)
  let ?r = "(PacketStatistic_new now)\<lparr>st_current := st_current (sm_stat s)\<rparr>"
  let ?p1 = "s\<lparr>sm_collect := Copying (PacketStatistic_new now) enum_class.enum\<rparr>"
  let ?p2 = "s\<lparr>sm_collect := Clearing ?r enum_class.enum\<rparr>"
  let ?p3 = "s\<lparr>sm_stat := (sm_stat s)\<lparr>st_current := cset k (?v + n) (st_current (sm_stat s))\<rparr>,
    sm_count := None, sm_collect := Clearing ?r enum_class.enum,
    sm_counted := (sm_counted s)(k := sm_counted s k + n)\<rparr>"
  let ?p4 = "s\<lparr>sm_stat := (sm_stat s)\<lparr>st_current := Data_new, st_started := now\<rparr>,
    sm_count := None, sm_collect := Adding (?r\<lparr>st_started := st_started (sm_stat s)\<rparr>) enum_class.enum,
    sm_counted := (sm_counted s)(k := sm_counted s k + n)\<rparr>"
  have p: "stat_run (map Copy ks) ?p1 = Some ?p2"
    using run_copying [OF member_order_mset [OF assms(1)] counters_some, of ?p1] u(1)
    by (simp add: merge_all)
  have q: "stat_run (map Clear ks') ?p3 = Some ?p4"
    using run_clearing [OF member_order_mset [OF assms(2)] counters_some, of ?p3] u(2)
    by (simp add: merge_all PacketStatistic_new_def)
  have start: "stat_run (Begin now # es) s = stat_run es ?p1" for es using assms(5) by simp
  have count: "stat_run (Load k n # Store # es) ?p2 = stat_run es ?p3" for es
    using assms(4)
    by (simp, intro arg_cong [where f = "stat_run es"])
      (auto intro!: stat_threads.equality PacketStatistic.equality)
  have "stat_run lost s = stat_run (map Add ks'') ?p4"
    unfolding lost_def start stat_run_then [OF p] append_Cons count stat_run_then [OF q] ..
  moreover have "sm_collect ?p4 = Adding (?r\<lparr>st_started := st_started (sm_stat s)\<rparr>) enum_class.enum" by simp
  note run_totals [OF assms(3) this]
  ultimately obtain s2 where s2: "stat_run lost s = Some s2" "sm_counted s2 k = sm_counted s k + n"
    "st_total (sm_stat s2) = Data_add (st_total (sm_stat s)) (st_current (sm_stat s))"
    "st_current (sm_stat s2) = Data_new"
    by (simp add: Let_def)
  show ?thesis
    by (rule exI [of _ s1], rule exI [of _ s2])
      (use s1 s2 in \<open>simp add: lifetime_def getCurrent_def\<close>)
qed

theorem statistic_races_witness:
  "\<exists>s1 s2. stat_run (Load PushOk 1 # Begin 7 # map Copy enum_class.enum @ map Clear enum_class.enum @
      Store # map Add enum_class.enum) five_pushed = Some s1 \<and>
    stat_run (Begin 7 # map Copy enum_class.enum @ Load PushOk 1 # Store # map Clear enum_class.enum @
      map Add enum_class.enum) five_pushed = Some s2 \<and>
    sm_counted s1 PushOk = 6 \<and> lifetime (sm_stat s1) PushOk = 11 \<and>
    sm_counted s2 PushOk = 6 \<and> lifetime (sm_stat s2) PushOk = 5"
proof -
  have i: "sm_count five_pushed = None" "sm_collect five_pushed = NoCollect" "sm_counted five_pushed PushOk = 5"
    "lifetime (sm_stat five_pushed) PushOk = 5" "cval PushOk (getCurrent (sm_stat five_pushed)) = 5"
    by (simp_all add: five_pushed_def lifetime_def getCurrent_def PacketStatistic_new_def Data_new_def)
  have n: "(5 :: size_t) + 1 = 6" "(6 :: size_t) + 5 = 11" by simp_all
  from statistic_races [OF member_order_enum member_order_enum member_order_enum i(1,2),
      of PushOk 1 7, unfolded i(3-5) n]
  show ?thesis .
qed

end
