(* ===== verification/Ip_Route.thy ===== *)
theory Ip_Route
  imports Ext_Text System_Cmd
begin

text \<open>
  \<open>iproute.hpp\<close>, \<open>linux_ip_route.hpp\<close> and \<open>apple_ip_route.hpp\<close>: routes, their text
  form, the commands that add and delete them, and the parser of a routing table. The
  parser has three outcomes: \<open>Ok\<close> (\<open>Inr (Inr rs)\<close>), \<open>Err\<close> (\<open>Inr (Inl msg)\<close>), and an
  exception of \<open>stoi\<close> that leaves it (\<open>Inl (Throws e)\<close>).
\<close>

section \<open>Routes\<close>

record 'ip IPRoute =
  ipr_dest :: 'ip
  ipr_via :: "'ip option"
  ipr_dev :: "string option"
  ipr_proto :: "string option"
  ipr_scope :: "string option"
  ipr_src :: "'ip option"
  ipr_metric :: "size_t option"

definition IPRoute_new :: "'ip ip_api \<Rightarrow> 'ip IPRoute" where
  "IPRoute_new P = \<lparr>ipr_dest = ip_none P, ipr_via = None, ipr_dev = None, ipr_proto = None,
     ipr_scope = None, ipr_src = None, ipr_metric = None\<rparr>"

text \<open>\<open>if (x.isSome()) s2 << " name " << x.unwrap()\<close>\<close>

definition opt_field :: "string \<Rightarrow> string option \<Rightarrow> string" where
  "opt_field name x =
     (case x of None \<Rightarrow> [] | Some s \<Rightarrow> '' '' @ name @ '' '' @ s)"

text \<open>Output of \<open>std::endl\<close>.\<close>

definition endl :: string where
  "endl = [CHR 0x0A]"

section \<open>LinuxIpRoute: output\<close>

definition linux_serialize :: "'ip ip_api \<Rightarrow> 'ip IPRoute \<Rightarrow> string" where
  "linux_serialize P ipr =
     (let dest = ip_to_string P (ipr_dest ipr) in
      (if dest = ''0.0.0.0/0'' then ''default'' else dest) @
      opt_field ''via'' (map_option (ip_to_s P) (ipr_via ipr)) @
      opt_field ''dev'' (ipr_dev ipr) @
      opt_field ''proto'' (ipr_proto ipr) @
      opt_field ''scope'' (ipr_scope ipr) @
      opt_field ''src'' (map_option (ip_to_s P) (ipr_src ipr)) @
      opt_field ''metric'' (map_option to_string (ipr_metric ipr)))"

definition linux_command :: "'ip ip_api \<Rightarrow> 'ip IPRoute \<Rightarrow> string \<Rightarrow> string" where
  "linux_command P ipr modifier =
     ''/sbin/ip route '' @ modifier @ '' '' @ linux_serialize P ipr"

definition linux_commands :: "'ip ip_api \<Rightarrow> 'ip IPRoute list \<Rightarrow> string \<Rightarrow> string list" where
  "linux_commands P iprs modifier = map (\<lambda>ipr. linux_command P ipr modifier) iprs"

text \<open>\<open>add\<close> and \<open>del\<close> for one route and, overloaded in the code, for a vector of routes.\<close>

definition linux_add1 :: "'ip ip_api \<Rightarrow> 'ip IPRoute \<Rightarrow> string" where
  "linux_add1 P ipr = linux_command P ipr ''add''"

definition linux_del1 :: "'ip ip_api \<Rightarrow> 'ip IPRoute \<Rightarrow> string" where
  "linux_del1 P ipr = linux_command P ipr ''del''"

definition linux_add :: "'ip ip_api \<Rightarrow> 'ip IPRoute list \<Rightarrow> string list" where
  "linux_add P iprs = linux_commands P iprs ''add''"

definition linux_del :: "'ip ip_api \<Rightarrow> 'ip IPRoute list \<Rightarrow> string list" where
  "linux_del P iprs = linux_commands P iprs ''del''"

definition linux_serialize_all :: "'ip ip_api \<Rightarrow> 'ip IPRoute list \<Rightarrow> string" where
  "linux_serialize_all P iprs = concat (map (\<lambda>ipr. linux_serialize P ipr @ endl) iprs)"

section \<open>AppleIpRoute: output\<close>

definition apple_serialize :: "'ip ip_api \<Rightarrow> 'ip IPRoute \<Rightarrow> string" where
  "apple_serialize P ipr =
     (let dest = ip_to_string P (ipr_dest ipr) in
      (if dest = ''0.0.0.0/0'' then ''default'' else dest) @
      opt_field ''via'' (map_option (ip_to_s P) (ipr_via ipr)) @
      opt_field ''dev'' (ipr_dev ipr) @
      opt_field ''proto'' (ipr_proto ipr) @
      opt_field ''scope'' (ipr_scope ipr) @
      opt_field ''src'' (map_option (ip_to_s P) (ipr_src ipr)) @
      opt_field ''metric'' (map_option to_string (ipr_metric ipr)))"

definition apple_command :: "'ip ip_api \<Rightarrow> 'ip IPRoute \<Rightarrow> string \<Rightarrow> string" where
  "apple_command P ipr modifier =
     ''/sbin/route '' @ modifier @ '' '' @ apple_serialize P ipr"

definition apple_commands :: "'ip ip_api \<Rightarrow> 'ip IPRoute list \<Rightarrow> string \<Rightarrow> string list" where
  "apple_commands P iprs modifier = map (\<lambda>ipr. apple_command P ipr modifier) iprs"

text \<open>\<open>add\<close> and \<open>del\<close> for one route and, overloaded in the code, for a vector of routes.\<close>

definition apple_add1 :: "'ip ip_api \<Rightarrow> 'ip IPRoute \<Rightarrow> string" where
  "apple_add1 P ipr = apple_command P ipr ''add''"

definition apple_del1 :: "'ip ip_api \<Rightarrow> 'ip IPRoute \<Rightarrow> string" where
  "apple_del1 P ipr = apple_command P ipr ''del''"

definition apple_add :: "'ip ip_api \<Rightarrow> 'ip IPRoute list \<Rightarrow> string list" where
  "apple_add P iprs = apple_commands P iprs ''add''"

definition apple_del :: "'ip ip_api \<Rightarrow> 'ip IPRoute list \<Rightarrow> string list" where
  "apple_del P iprs = apple_commands P iprs ''del''"

definition apple_serialize_all :: "'ip ip_api \<Rightarrow> 'ip IPRoute list \<Rightarrow> string" where
  "apple_serialize_all P iprs = concat (map (\<lambda>ipr. apple_serialize P ipr @ endl) iprs)"

section \<open>LinuxIpRoute: input\<close>

text \<open>
  The loop over the tokens of a line. The arguments are \<open>ipr\<close> and the loop's variables
  \<open>first\<close>, \<open>name\<close> and \<open>lst\<close> (the code's \<open>last\<close>); the result is \<open>isErr\<close> and \<open>ipr\<close>.
\<close>

fun linux_tokens ::
  "'ip ip_api \<Rightarrow> string list \<Rightarrow> 'ip IPRoute \<Rightarrow> bool \<Rightarrow> bool \<Rightarrow> string \<Rightarrow>
   (bool \<times> 'ip IPRoute) exec" where
  "linux_tokens P [] ipr first name lst = Inr (False, ipr)"
| "linux_tokens P (t # ts) ipr first name lst =
      (if first then
         (case ip_parse P (if t = ''default'' then ''0.0.0.0/0'' else t) of
            Inl e \<Rightarrow> Inr (True, ipr)
          | Inr ipa \<Rightarrow> linux_tokens P ts (ipr\<lparr>ipr_dest := ipa\<rparr>) False name lst)
       else if name then linux_tokens P ts ipr first False t
       else if lst = ''via'' then
         (case ip_parse P t of
            Inl e \<Rightarrow> Inr (True, ipr)
          | Inr via \<Rightarrow> linux_tokens P ts (ipr\<lparr>ipr_via := Some via\<rparr>) first True lst)
       else if lst = ''dev'' then linux_tokens P ts (ipr\<lparr>ipr_dev := Some t\<rparr>) first True lst
       else if lst = ''proto'' then linux_tokens P ts (ipr\<lparr>ipr_proto := Some t\<rparr>) first True lst
       else if lst = ''scope'' then linux_tokens P ts (ipr\<lparr>ipr_scope := Some t\<rparr>) first True lst
       else if lst = ''src'' then
         (case ip_parse P t of
            Inl e \<Rightarrow> Inr (True, ipr)
          | Inr src \<Rightarrow> linux_tokens P ts (ipr\<lparr>ipr_src := Some src\<rparr>) first True lst)
       else if lst = ''metric'' then
         ebind (stoi t) (\<lambda>m.
           linux_tokens P ts (ipr\<lparr>ipr_metric := Some (word_of_int m)\<rparr>) first True lst)
       else linux_tokens P ts ipr first True lst)"

fun linux_lines ::
  "(string \<Rightarrow> string \<Rightarrow> string list) \<Rightarrow> 'ip ip_api \<Rightarrow> string list \<Rightarrow> 'ip IPRoute list \<Rightarrow>
   (string + 'ip IPRoute list) exec" where
  "linux_lines tok P [] ret = Inr (Inr ret)"
| "linux_lines tok P (line # lines) ret =
     ebind (linux_tokens P (tok [CHR 0x09, CHR '' ''] line) (IPRoute_new P) True True [])
       (\<lambda>(isErr, ipr).
         if isErr then Inr (Inl ''can't parse'') else linux_lines tok P lines (ret @ [ipr]))"

definition linux_parse ::
  "(string \<Rightarrow> string \<Rightarrow> string list) \<Rightarrow> 'ip ip_api \<Rightarrow> string \<Rightarrow>
   (string + 'ip IPRoute list) exec" where
  "linux_parse tok P txt = linux_lines tok P (tok [CHR 0x0A, CHR 0x0D] txt) []"

text \<open>
  \<open>read\<close> runs both commands before it looks at either result; the arguments \<open>os4\<close> and
  \<open>os6\<close> are what the system answers to them.
\<close>

definition linux_read ::
  "(string \<Rightarrow> string \<Rightarrow> string list) \<Rightarrow> 'ip ip_api \<Rightarrow> SystemResult \<Rightarrow> os_script \<Rightarrow> os_script \<Rightarrow>
   (string + 'ip IPRoute list) exec" where
  "linux_read tok P junk os4 os6 =
     ebind (run junk os4 (args [''-4'', ''route'', ''list''] (SystemCmd_new ''/sbin/ip''))) (\<lambda>srv4.
     ebind (run junk os6 (args [''-6'', ''route'', ''list''] (SystemCmd_new ''/sbin/ip''))) (\<lambda>srv6.
       if \<not> sr_ok srv4 \<or> \<not> sr_ok srv6 \<or> sr_exitCode srv4 \<noteq> 0 \<or> sr_exitCode srv6 \<noteq> 0
       then Inr (Inl ''failure while running ip command'')
       else linux_parse tok P (sr_sout srv4 @ sr_sout srv6)))"

section \<open>AppleIpRoute: input\<close>

text \<open>
  The same loop with the header skipped: \<open>skipHeader\<close> outlives the line, so it is the
  third component of the result. While it is set, a line ends at its first token.
\<close>

fun apple_tokens ::
  "'ip ip_api \<Rightarrow> string list \<Rightarrow> bool \<Rightarrow> 'ip IPRoute \<Rightarrow> bool \<Rightarrow> bool \<Rightarrow> string \<Rightarrow>
   (bool \<times> 'ip IPRoute \<times> bool) exec" where
  "apple_tokens P [] skipHeader ipr first name lst = Inr (False, ipr, skipHeader)"
| "apple_tokens P (t # ts) skipHeader ipr first name lst =
      (if skipHeader then Inr (False, ipr, t \<noteq> ''Destination'')
       else if first then
         (case ip_parse P (if t = ''default'' then ''0.0.0.0/0'' else t) of
            Inl e \<Rightarrow> Inr (True, ipr, skipHeader)
          | Inr ipa \<Rightarrow> apple_tokens P ts skipHeader (ipr\<lparr>ipr_dest := ipa\<rparr>) False name lst)
       else if name then apple_tokens P ts skipHeader ipr first False t
       else if lst = ''via'' then
         (case ip_parse P t of
            Inl e \<Rightarrow> Inr (True, ipr, skipHeader)
          | Inr via \<Rightarrow> apple_tokens P ts skipHeader (ipr\<lparr>ipr_via := Some via\<rparr>) first True lst)
       else if lst = ''dev'' then apple_tokens P ts skipHeader (ipr\<lparr>ipr_dev := Some t\<rparr>) first True lst
       else if lst = ''proto'' then apple_tokens P ts skipHeader (ipr\<lparr>ipr_proto := Some t\<rparr>) first True lst
       else if lst = ''scope'' then apple_tokens P ts skipHeader (ipr\<lparr>ipr_scope := Some t\<rparr>) first True lst
       else if lst = ''src'' then
         (case ip_parse P t of
            Inl e \<Rightarrow> Inr (True, ipr, skipHeader)
          | Inr src \<Rightarrow> apple_tokens P ts skipHeader (ipr\<lparr>ipr_src := Some src\<rparr>) first True lst)
       else if lst = ''metric'' then
         ebind (stoi t) (\<lambda>m.
           apple_tokens P ts skipHeader (ipr\<lparr>ipr_metric := Some (word_of_int m)\<rparr>) first True lst)
       else apple_tokens P ts skipHeader ipr first True lst)"

fun apple_lines ::
  "(string \<Rightarrow> string \<Rightarrow> string list) \<Rightarrow> 'ip ip_api \<Rightarrow> string list \<Rightarrow> bool \<Rightarrow> 'ip IPRoute list \<Rightarrow>
   (string + 'ip IPRoute list) exec" where
  "apple_lines tok P [] skipHeader ret = Inr (Inr ret)"
| "apple_lines tok P (line # lines) skipHeader ret =
     ebind (apple_tokens P (tok [CHR 0x09, CHR '' ''] line) skipHeader (IPRoute_new P) True True [])
       (\<lambda>(isErr, ipr, skip').
         if isErr then Inr (Inl ''can't parse'')
         else apple_lines tok P lines skip' (ret @ [ipr]))"

definition apple_parse ::
  "(string \<Rightarrow> string \<Rightarrow> string list) \<Rightarrow> 'ip ip_api \<Rightarrow> string \<Rightarrow>
   (string + 'ip IPRoute list) exec" where
  "apple_parse tok P txt = apple_lines tok P (tok [CHR 0x0A, CHR 0x0D] txt) True []"

section \<open>The contract of a route format\<close>

text \<open>
  Both formats print a route as words joined by single blanks, one route per line, and
  both token loops read these words back. The rest, how the lines of a text are found
  again and how blanks split a line, is proved once.
\<close>

locale route_line =
  fixes ser :: "'p \<Rightarrow> 'r \<Rightarrow> string"
    and words :: "'p \<Rightarrow> 'r \<Rightarrow> string list"
    and parse_words :: "'p \<Rightarrow> string list \<Rightarrow> (bool \<times> 'r) exec"
    and wf :: "'p \<Rightarrow> 'r \<Rightarrow> bool"
    and laws :: "'p \<Rightarrow> bool"
  assumes ser_words: "ser P r = sep_by '' '' (words P r)"
    and words_ok: "laws P \<Longrightarrow> wf P r \<Longrightarrow> words P r \<noteq> [] \<and> (\<forall>w \<in> set (words P r). is_word w)"
    and parse_words: "laws P \<Longrightarrow> wf P r \<Longrightarrow> parse_words P (words P r) = Inr (False, r)"
begin

lemma line_tokens:
  assumes "char_separator_laws tok" "laws P" "wf P r"
  shows "tok [CHR 0x09, CHR '' ''] (ser P r) = words P r"
  unfolding ser_words
  by (rule tok_sep_by [OF assms(1)]) (use words_ok [OF assms(2,3)] in \<open>auto simp: is_word_def\<close>)

lemma line_round_trip:
  assumes "char_separator_laws tok" "laws P" "wf P r"
  shows "parse_words P (tok [CHR 0x09, CHR '' ''] (ser P r)) = Inr (False, r)"
  by (simp add: line_tokens [OF assms] parse_words [OF assms(2,3)])

lemma sep_by_chars: "c \<in> set (sep_by '' '' ws) \<Longrightarrow> c = CHR '' '' \<or> (\<exists>w \<in> set ws. c \<in> set w)"
  by (induction "'' ''" ws rule: sep_by.induct) auto

lemma sep_by_nonempty: "ws \<noteq> [] \<Longrightarrow> \<forall>w \<in> set ws. w \<noteq> [] \<Longrightarrow> sep_by '' '' ws \<noteq> []"
  by (induction "'' ''" ws rule: sep_by.induct) auto

lemma ser_line:
  assumes "laws P" "wf P r"
  shows "ser P r \<noteq> [] \<and> set (ser P r) \<inter> {CHR 0x0A, CHR 0x0D} = {}"
  using words_ok [OF assms] sep_by_nonempty [of "words P r"]
  by (auto simp: ser_words is_word_def dest!: sep_by_chars)

lemma text_lines:
  assumes "char_separator_laws tok" "laws P" "\<forall>r \<in> set rs. wf P r"
  shows "tok [CHR 0x0A, CHR 0x0D] (concat (map (\<lambda>r. ser P r @ [CHR 0x0A]) rs)) = map (ser P) rs"
proof -
  have "\<forall>w \<in> set (map (ser P) rs). w \<noteq> [] \<and> set w \<inter> set [CHR 0x0A, CHR 0x0D] = {}"
    using ser_line [OF assms(2)] assms(3) by fastforce
  from tok_lines [OF assms(1) _ this, of "CHR 0x0A"] show ?thesis by (simp add: comp_def)
qed

end

definition opt_words :: "string \<Rightarrow> string option \<Rightarrow> string list" where
  "opt_words name x = (case x of None \<Rightarrow> [] | Some s \<Rightarrow> [name, s])"

definition route_words :: "'ip ip_api \<Rightarrow> 'ip IPRoute \<Rightarrow> string list" where
  "route_words P r =
     (if ip_to_string P (ipr_dest r) = ''0.0.0.0/0'' then ''default''
      else ip_to_string P (ipr_dest r)) #
     opt_words ''via'' (map_option (ip_to_s P) (ipr_via r)) @
     opt_words ''dev'' (ipr_dev r) @ opt_words ''proto'' (ipr_proto r) @
     opt_words ''scope'' (ipr_scope r) @
     opt_words ''src'' (map_option (ip_to_s P) (ipr_src r)) @
     opt_words ''metric'' (map_option to_string (ipr_metric r))"

text \<open>
  The routes that the text form can carry: parsed addresses, host addresses where the
  prefix is not printed, names without blanks, and a metric that fits an \<open>int\<close>.
\<close>

definition route_wf :: "'ip ip_api \<Rightarrow> 'ip IPRoute \<Rightarrow> bool" where
  "route_wf P r \<longleftrightarrow>
     ip_valid P (ipr_dest r) \<and>
     (\<forall>a \<in> set_option (ipr_via r). ip_valid P a \<and> ip_host P a) \<and>
     (\<forall>a \<in> set_option (ipr_src r). ip_valid P a \<and> ip_host P a) \<and>
     (\<forall>w \<in> set_option (ipr_dev r). is_word w) \<and>
     (\<forall>w \<in> set_option (ipr_proto r). is_word w) \<and>
     (\<forall>w \<in> set_option (ipr_scope r). is_word w) \<and>
     (\<forall>m \<in> set_option (ipr_metric r). unat m < 2 ^ 31)"

lemma sep_by_Cons: "sep_by sp (w # ws) = w @ concat (map (\<lambda>v. sp @ v) ws)"
  by (induction ws arbitrary: w) auto

lemma opt_field_words: "concat (map (\<lambda>v. '' '' @ v) (opt_words name x)) = opt_field name x"
  by (cases x) (auto simp: opt_words_def opt_field_def)

lemma linux_serialize_words: "linux_serialize P r = sep_by '' '' (route_words P r)"
  unfolding route_words_def sep_by_Cons map_append concat_append opt_field_words
  by (simp add: linux_serialize_def Let_def)

lemma apple_serialize_words: "apple_serialize P r = sep_by '' '' (route_words P r)"
  unfolding route_words_def sep_by_Cons map_append concat_append opt_field_words
  by (simp add: apple_serialize_def Let_def)

lemma is_word_to_string: "is_word (to_string n)"
  using to_string_digits by (fastforce simp: is_word_def is_digit_def)

lemma opt_words_ok: "is_word name \<Longrightarrow> \<forall>w \<in> set_option x. is_word w \<Longrightarrow> w \<in> set (opt_words name x) \<Longrightarrow> is_word w"
  by (auto simp: opt_words_def split: option.splits)

lemma route_words_ok:
  assumes "ip_laws P" "route_wf P r"
  shows "route_words P r \<noteq> [] \<and> (\<forall>w \<in> set (route_words P r). is_word w)"
proof -
  have "is_word ''default''" "is_word ''via''" "is_word ''dev''" "is_word ''proto''"
    "is_word ''scope''" "is_word ''src''" "is_word ''metric''"
    by (simp_all add: is_word_def)
  then show ?thesis
    using assms(2) ip_lawsD(4,5) [OF assms(1)]
    by (auto simp: route_words_def route_wf_def is_word_to_string
        option.set_map dest!: opt_words_ok [rotated 2])
qed

lemma stoi_to_string:
  "stoi (to_string n) = (if unat n < 2 ^ 31 then Inr (int (unat n)) else Inl (Throws ''out_of_range''))"
  by (simp add: to_string_def stoi_show_nat)

lemma linux_tokens_lst:
  "linux_tokens P ts ipr False True l = linux_tokens P ts ipr False True []"
  by (cases ts) simp_all

text \<open>One lemma per field: the loop reads the printed field back.\<close>

lemma linux_read_via:
  "\<forall>a \<in> set_option x. ip_parse P (ip_to_s P a) = Inr a \<Longrightarrow>
    linux_tokens P (opt_words ''via'' (map_option (ip_to_s P) x) @ ts) ipr False True l =
     linux_tokens P ts (ipr\<lparr>ipr_via := case x of None \<Rightarrow> ipr_via ipr | Some y \<Rightarrow> Some y\<rparr>)
       False True []"
  using linux_tokens_lst [of P ts]
  by (cases x) (auto simp: opt_words_def stoi_to_string)

lemma linux_read_dev:
  "linux_tokens P (opt_words ''dev'' (x) @ ts) ipr False True l =
     linux_tokens P ts (ipr\<lparr>ipr_dev := case x of None \<Rightarrow> ipr_dev ipr | Some y \<Rightarrow> Some y\<rparr>)
       False True []"
  using linux_tokens_lst [of P ts]
  by (cases x) (auto simp: opt_words_def stoi_to_string)

lemma linux_read_proto:
  "linux_tokens P (opt_words ''proto'' (x) @ ts) ipr False True l =
     linux_tokens P ts (ipr\<lparr>ipr_proto := case x of None \<Rightarrow> ipr_proto ipr | Some y \<Rightarrow> Some y\<rparr>)
       False True []"
  using linux_tokens_lst [of P ts]
  by (cases x) (auto simp: opt_words_def stoi_to_string)

lemma linux_read_scope:
  "linux_tokens P (opt_words ''scope'' (x) @ ts) ipr False True l =
     linux_tokens P ts (ipr\<lparr>ipr_scope := case x of None \<Rightarrow> ipr_scope ipr | Some y \<Rightarrow> Some y\<rparr>)
       False True []"
  using linux_tokens_lst [of P ts]
  by (cases x) (auto simp: opt_words_def stoi_to_string)

lemma linux_read_src:
  "\<forall>a \<in> set_option x. ip_parse P (ip_to_s P a) = Inr a \<Longrightarrow>
    linux_tokens P (opt_words ''src'' (map_option (ip_to_s P) x) @ ts) ipr False True l =
     linux_tokens P ts (ipr\<lparr>ipr_src := case x of None \<Rightarrow> ipr_src ipr | Some y \<Rightarrow> Some y\<rparr>)
       False True []"
  using linux_tokens_lst [of P ts]
  by (cases x) (auto simp: opt_words_def stoi_to_string)

lemma linux_read_metric:
  "\<forall>m \<in> set_option x. unat m < 2 ^ 31 \<Longrightarrow>
    linux_tokens P (opt_words ''metric'' (map_option to_string x) @ ts) ipr False True l =
     linux_tokens P ts (ipr\<lparr>ipr_metric := case x of None \<Rightarrow> ipr_metric ipr | Some y \<Rightarrow> Some y\<rparr>)
       False True []"
  using linux_tokens_lst [of P ts]
  by (cases x) (auto simp: opt_words_def stoi_to_string)

lemmas linux_reads = linux_read_via linux_read_dev linux_read_proto
  linux_read_scope linux_read_src linux_read_metric

lemma linux_tokens_words:
  assumes P: "ip_laws P" and r: "route_wf P r"
  shows "linux_tokens P (route_words P r) (IPRoute_new P) True True [] = Inr (False, r)"
proof -
  let ?d = "ip_to_string P (ipr_dest r)"
  have d: "ip_parse P (if (if ?d = ''0.0.0.0/0'' then ''default'' else ?d) = ''default''
      then ''0.0.0.0/0'' else if ?d = ''0.0.0.0/0'' then ''default'' else ?d) = Inr (ipr_dest r)"
    using r ip_lawsD(2,6) [OF P, of "ipr_dest r"] by (auto simp: route_wf_def)
  have v: "\<forall>a \<in> set_option (ipr_via r). ip_parse P (ip_to_s P a) = Inr a"
    and s: "\<forall>a \<in> set_option (ipr_src r). ip_parse P (ip_to_s P a) = Inr a"
    and m: "\<forall>m \<in> set_option (ipr_metric r). unat m < 2 ^ 31"
    using r ip_lawsD(3) [OF P] by (auto simp: route_wf_def)
  show ?thesis
    unfolding route_words_def linux_tokens.simps(2) d
    using linux_read_metric [OF m, where ts = "[]" and P = P] linux_tokens_lst
    by (simp add: linux_reads v s IPRoute_new_def option.case_eq_if split: option.split)
qed

lemma apple_tokens_lst:
  "apple_tokens P ts False ipr False True l = apple_tokens P ts False ipr False True []"
  by (cases ts) simp_all

text \<open>One lemma per field: the loop reads the printed field back.\<close>

lemma apple_read_via:
  "\<forall>a \<in> set_option x. ip_parse P (ip_to_s P a) = Inr a \<Longrightarrow>
    apple_tokens P (opt_words ''via'' (map_option (ip_to_s P) x) @ ts) False ipr False True l =
     apple_tokens P ts False (ipr\<lparr>ipr_via := case x of None \<Rightarrow> ipr_via ipr | Some y \<Rightarrow> Some y\<rparr>)
       False True []"
  using apple_tokens_lst [of P ts]
  by (cases x) (auto simp: opt_words_def stoi_to_string)

lemma apple_read_dev:
  "apple_tokens P (opt_words ''dev'' (x) @ ts) False ipr False True l =
     apple_tokens P ts False (ipr\<lparr>ipr_dev := case x of None \<Rightarrow> ipr_dev ipr | Some y \<Rightarrow> Some y\<rparr>)
       False True []"
  using apple_tokens_lst [of P ts]
  by (cases x) (auto simp: opt_words_def stoi_to_string)

lemma apple_read_proto:
  "apple_tokens P (opt_words ''proto'' (x) @ ts) False ipr False True l =
     apple_tokens P ts False (ipr\<lparr>ipr_proto := case x of None \<Rightarrow> ipr_proto ipr | Some y \<Rightarrow> Some y\<rparr>)
       False True []"
  using apple_tokens_lst [of P ts]
  by (cases x) (auto simp: opt_words_def stoi_to_string)

lemma apple_read_scope:
  "apple_tokens P (opt_words ''scope'' (x) @ ts) False ipr False True l =
     apple_tokens P ts False (ipr\<lparr>ipr_scope := case x of None \<Rightarrow> ipr_scope ipr | Some y \<Rightarrow> Some y\<rparr>)
       False True []"
  using apple_tokens_lst [of P ts]
  by (cases x) (auto simp: opt_words_def stoi_to_string)

lemma apple_read_src:
  "\<forall>a \<in> set_option x. ip_parse P (ip_to_s P a) = Inr a \<Longrightarrow>
    apple_tokens P (opt_words ''src'' (map_option (ip_to_s P) x) @ ts) False ipr False True l =
     apple_tokens P ts False (ipr\<lparr>ipr_src := case x of None \<Rightarrow> ipr_src ipr | Some y \<Rightarrow> Some y\<rparr>)
       False True []"
  using apple_tokens_lst [of P ts]
  by (cases x) (auto simp: opt_words_def stoi_to_string)

lemma apple_read_metric:
  "\<forall>m \<in> set_option x. unat m < 2 ^ 31 \<Longrightarrow>
    apple_tokens P (opt_words ''metric'' (map_option to_string x) @ ts) False ipr False True l =
     apple_tokens P ts False (ipr\<lparr>ipr_metric := case x of None \<Rightarrow> ipr_metric ipr | Some y \<Rightarrow> Some y\<rparr>)
       False True []"
  using apple_tokens_lst [of P ts]
  by (cases x) (auto simp: opt_words_def stoi_to_string)

lemmas apple_reads = apple_read_via apple_read_dev apple_read_proto
  apple_read_scope apple_read_src apple_read_metric

lemma apple_tokens_words:
  assumes P: "ip_laws P" and r: "route_wf P r"
  shows "apple_tokens P (route_words P r) False (IPRoute_new P) True True [] = Inr (False, r, False)"
proof -
  let ?d = "ip_to_string P (ipr_dest r)"
  have d: "ip_parse P (if (if ?d = ''0.0.0.0/0'' then ''default'' else ?d) = ''default''
      then ''0.0.0.0/0'' else if ?d = ''0.0.0.0/0'' then ''default'' else ?d) = Inr (ipr_dest r)"
    using r ip_lawsD(2,6) [OF P, of "ipr_dest r"] by (auto simp: route_wf_def)
  have v: "\<forall>a \<in> set_option (ipr_via r). ip_parse P (ip_to_s P a) = Inr a"
    and s: "\<forall>a \<in> set_option (ipr_src r). ip_parse P (ip_to_s P a) = Inr a"
    and m: "\<forall>m \<in> set_option (ipr_metric r). unat m < 2 ^ 31"
    using r ip_lawsD(3) [OF P] by (auto simp: route_wf_def)
  show ?thesis
    unfolding route_words_def apple_tokens.simps(2) d
    using apple_read_metric [OF m, where ts = "[]" and P = P] apple_tokens_lst
    by (simp add: apple_reads v s IPRoute_new_def option.case_eq_if split: option.split)
qed

interpretation linux_line: route_line linux_serialize route_words
  "\<lambda>P ws. linux_tokens P ws (IPRoute_new P) True True []" route_wf ip_laws
  by unfold_locales (simp_all add: linux_serialize_words route_words_ok linux_tokens_words)

text \<open>A line of the table proper, read by the Apple loop after the header.\<close>

definition apple_line_words :: "'ip ip_api \<Rightarrow> string list \<Rightarrow> (bool \<times> 'ip IPRoute) exec" where
  "apple_line_words P ws =
     ebind (apple_tokens P ws False (IPRoute_new P) True True [])
       (\<lambda>(isErr, ipr, skip'). Inr (isErr, ipr))"

interpretation apple_line: route_line apple_serialize route_words apple_line_words route_wf ip_laws
  by unfold_locales
    (simp_all add: apple_serialize_words route_words_ok apple_tokens_words apple_line_words_def)

section \<open>Whole tables\<close>

lemma linux_lines_serialized:
  assumes "char_separator_laws tok" "ip_laws P"
  shows "\<forall>r \<in> set rs. route_wf P r \<Longrightarrow>
    linux_lines tok P (map (linux_serialize P) rs) ret = Inr (Inr (ret @ rs))"
  by (induction rs arbitrary: ret) (simp_all add: linux_line.line_round_trip [OF assms])

lemma apple_lines_serialized:
  assumes "char_separator_laws tok" "ip_laws P"
  shows "\<forall>r \<in> set rs. route_wf P r \<Longrightarrow>
    apple_lines tok P (map (apple_serialize P) rs) False ret = Inr (Inr (ret @ rs))"
  by (induction rs arbitrary: ret)
    (simp_all add: apple_line.line_tokens [OF assms] apple_tokens_words [OF assms(2)])

lemma apple_lines_header:
  assumes "\<forall>l \<in> set hdr. \<exists>t ts. tok [CHR 0x09, CHR '' ''] l = t # ts \<and> t \<noteq> ''Destination''"
    and "tok [CHR 0x09, CHR '' ''] dline = ''Destination'' # rest"
  shows "apple_lines tok P (hdr @ dline # lines) True ret =
    apple_lines tok P lines False (ret @ replicate (Suc (length hdr)) (IPRoute_new P))"
  using assms(1)
proof (induction hdr arbitrary: ret)
  case Nil
  then show ?case by (simp add: assms(2))
next
  case (Cons l hdr)
  then obtain t ts where "tok [CHR 0x09, CHR '' ''] l = t # ts" "t \<noteq> ''Destination''" by auto
  with Cons show ?case by (simp add: replicate_app_Cons_same)
qed

section \<open>Properties\<close>

text \<open>C23: a Linux routing table survives printing and parsing. For any tokenizer and address
  library that behave as documented, parsing the text that \<open>serialize\<close> prints for a list
  of routes gives back exactly that list, with all optional fields, for routes whose
  addresses come from the parser, whose gateway and source are host addresses, whose names
  contain no blanks and whose metric fits an \<open>int\<close>.\<close>
theorem linux_table_roundtrip:
  assumes "char_separator_laws tok" "ip_laws P" "\<forall>r \<in> set rs. route_wf P r"
  shows "linux_parse tok P (linux_serialize_all P rs) = Inr (Inr rs)"
  using linux_line.text_lines [OF assms] linux_lines_serialized [OF assms, of "[]"]
  by (simp add: linux_parse_def linux_serialize_all_def endl_def)

theorem linux_table_roundtrip_witness:
  "linux_parse tokens v4_api (linux_serialize_all v4_api
     [\<lparr>ipr_dest = V4 0 0 0 0 0, ipr_via = Some (V4 10 24 1 1 32), ipr_dev = Some ''eth0'',
       ipr_proto = None, ipr_scope = None, ipr_src = None, ipr_metric = Some 100\<rparr>]) =
   Inr (Inr [\<lparr>ipr_dest = V4 0 0 0 0 0, ipr_via = Some (V4 10 24 1 1 32), ipr_dev = Some ''eth0'',
       ipr_proto = None, ipr_scope = None, ipr_src = None, ipr_metric = Some 100\<rparr>])"
  by (rule linux_table_roundtrip [OF tokens_laws v4_laws])
    (simp add: route_wf_def v4_api_def ip_host_def is_word_def)

text \<open>A metric of \<open>2 ^ 31\<close> or more, which \<open>serialize\<close> prints, makes \<open>parse\<close> throw: the
  number is read with \<open>stoi\<close>, and nothing catches its \<open>out_of_range\<close>.\<close>
theorem linux_metric_overflow_throws:
  assumes T: "char_separator_laws tok" and P: "ip_laws P"
    and r: "route_wf P (r\<lparr>ipr_metric := None\<rparr>)" and m: "ipr_metric r = Some m" "2 ^ 31 \<le> unat m"
  shows "linux_parse tok P (linux_serialize_all P [r]) = Inl (Throws ''out_of_range'')"
proof -
  let ?r = "r\<lparr>ipr_metric := None\<rparr>"
  have w: "route_words P r = route_words P ?r @ [''metric'', to_string m]"
    by (simp add: route_words_def opt_words_def m(1))
  have ok: "\<forall>w \<in> set (route_words P r). is_word w"
    using route_words_ok [OF P r] by (auto simp: w is_word_to_string) (simp add: is_word_def)
  have tk: "tok [CHR 0x09, CHR '' ''] (linux_serialize P r) = route_words P r"
    unfolding linux_serialize_words by (rule tok_sep_by [OF T]) (use ok in \<open>auto simp: is_word_def\<close>)
  have "linux_serialize P r \<noteq> []" "set (linux_serialize P r) \<inter> {CHR 0x0A, CHR 0x0D} = {}"
    using ok linux_line.sep_by_nonempty [of "route_words P r"]
    by (auto simp: linux_serialize_words is_word_def w dest!: linux_line.sep_by_chars)
  then have ln: "tok [CHR 0x0A, CHR 0x0D] (linux_serialize P r @ endl) = [linux_serialize P r]"
    using tok_lines [OF T, of "CHR 0x0A" "[CHR 0x0A, CHR 0x0D]" "[linux_serialize P r]"]
    by (simp add: endl_def)
  have ext: "linux_tokens P (ws @ [''metric'', to_string m]) ipr False True l = Inl (Throws ''out_of_range'')"
    if "linux_tokens P ws ipr False True l = Inr (False, s)" "even (length ws)" for ws ipr l s
    using that
  proof (induction ws arbitrary: ipr l rule: induct_list012)
    case 1
    then show ?case using m(2) by (simp add: stoi_to_string)
  next
    case (3 x y zs)
    then show ?case by (auto simp: ebind_eq_Inr split: sum.splits if_splits)
  qed simp
  have "linux_tokens P (route_words P r) (IPRoute_new P) True True [] = Inl (Throws ''out_of_range'')"
  proof -
    obtain d ws where dw: "route_words P ?r = d # ws" "even (length ws)"
      by (simp add: route_words_def opt_words_def split: option.splits)
    let ?p = "ip_parse P (if d = ''default'' then ''0.0.0.0/0'' else d)"
    have ws: "linux_tokens P (d # ws) (IPRoute_new P) True True [] = Inr (False, ?r)"
      using linux_tokens_words [OF P r] by (simp only: dw(1))
    then obtain a where a: "?p = Inr a" by (cases ?p) simp_all
    with ws have "linux_tokens P ws ((IPRoute_new P)\<lparr>ipr_dest := a\<rparr>) False True [] = Inr (False, ?r)"
      by simp
    from ext [OF this dw(2)] a show ?thesis unfolding w dw(1) by simp
  qed
  then show ?thesis by (simp add: linux_parse_def linux_serialize_all_def ln tk)
qed

theorem linux_metric_overflow_throws_witness:
  "linux_parse tokens v4_api (linux_serialize_all v4_api
     [\<lparr>ipr_dest = V4 10 0 0 0 8, ipr_via = None, ipr_dev = Some ''eth0'',
       ipr_proto = None, ipr_scope = None, ipr_src = None, ipr_metric = Some 3000000000\<rparr>]) =
   Inl (Throws ''out_of_range'')"
  by (rule linux_metric_overflow_throws [OF tokens_laws v4_laws, where m = 3000000000])
    (simp_all add: route_wf_def v4_api_def is_word_def)



text \<open>The macOS parser reads destinations only. In a line of \<open>netstat\<close> columns, none of
  which is one of the six keywords, the gateway and all further columns are skipped as
  unknown name-value pairs; only the destination reaches the route.\<close>
theorem apple_columns_ignored:
  assumes "ip_parse P (if d = ''default'' then ''0.0.0.0/0'' else d) = Inr a"
    "set columns \<inter> {''via'', ''dev'', ''proto'', ''scope'', ''src'', ''metric''} = {}"
  shows "apple_tokens P (d # columns) False (IPRoute_new P) True True [] =
    Inr (False, (IPRoute_new P)\<lparr>ipr_dest := a\<rparr>, False)"
proof -
  have "apple_tokens P cs False ipr False name l = Inr (False, ipr, False)"
    if "set cs \<inter> {''via'', ''dev'', ''proto'', ''scope'', ''src'', ''metric''} = {}"
      "name \<or> l \<notin> {''via'', ''dev'', ''proto'', ''scope'', ''src'', ''metric''}" for cs ipr name l
    using that
  proof (induction cs arbitrary: name l)
    case (Cons c cs)
    then show ?case
      using Cons.IH [of False c] Cons.IH [of True l] by (cases name) (simp_all add: eq_commute)
  qed simp
  from this [OF assms(2), of True "[]"] assms(1) show ?thesis by simp
qed

theorem apple_columns_ignored_witness:
  "apple_tokens v4_api (''default'' # [''10.24.1.254'', ''UGSc'', ''2'', ''0'', ''bridge0'']) False
     (IPRoute_new v4_api) True True [] =
   Inr (False, (IPRoute_new v4_api)\<lparr>ipr_dest := V4 0 0 0 0 0\<rparr>, False)"
proof (rule apple_columns_ignored)
  show "ip_parse v4_api (if ''default'' = ''default'' then ''0.0.0.0/0'' else ''default'') = Inr (V4 0 0 0 0 0)"
    by code_simp
qed simp

end
