(* ===== verification/Spec2Isabelle.thy ===== *)
theory Spec2Isabelle
  imports Thread_Loops Status_Reports Server_Typing Queue_Wakeup Queue_Report Statistic_Threads Ip_Route
begin

text \<open>
  tunator is a gateway between websocket clients and the tun interface of its host. A client
  opens a websocket, asks with an \<open>init\<close> message for a network interface, and from then on
  each binary message is one IP packet: what the client sends is written to the tun
  descriptor, what the kernel routes to the interface is sent to the client. An interface
  without addresses is an echo device, which returns what it is sent.

  \<^bold>\<open>The parts, from the bottom.\<close>
  \<^item> \<open>packet.hpp\<close>, \<open>packet_buffer.hpp\<close> -- theory \<open>Packet_Buffer\<close>: a pool of packet
    descriptors over one byte array (record \<open>PacketBuffer\<close>; \<open>alloc\<close>, \<open>pb_free\<close>,
    \<open>pb_setSize\<close>). A pointer to a packet is its index, its \<open>buf\<close> an offset. The
    invariant \<open>wf_pb\<close> places the slots apart and inside the array; the locale
    \<open>packet_pool\<close> states what a client of the pool may rely on and is interpreted on these
    operations as \<open>pb_pool\<close>.
  \<^item> \<open>packet_statistic.hpp\<close> -- \<open>Packet_Statistic\<close>: twelve counters of the current window and of
    the closed ones, \<open>collect\<close>, and the two reports. \<open>lifetime\<close> is what was counted
    altogether; the type \<open>counter\<close> names the counters and is an instance of \<open>enum\<close>.
    \<open>Statistic_Threads\<close> has counting and \<open>collect\<close> as interleaved single accesses to the
    members (\<open>count_micro\<close>, \<open>collect_micro\<close>; \<open>overlap\<close> names the two accesses that race).
  \<^item> \<open>packet_queue.hpp\<close> -- \<open>Packet_Queue\<close>: \<open>push\<close> and \<open>pop\<close> with the closure they call, as
    whole calls. What happens while a call sleeps or waits is an argument (\<open>sleeps\<close>,
    \<open>waits\<close>): one function per sleep. \<open>pq_inv\<close> is the invariant, \<open>pq_queue\<close> the abstraction
    to a list of byte strings, \<open>push_result\<close> and \<open>pop_result\<close> the effect of a call.
    \<open>Queue_Spec_Fifo\<close> states the contract as a bounded first-in first-out queue: the locale
    \<open>bounded_fifo\<close>, in which the simulation of every call sequence is proved once, and its
    interpretation on the packet queue. \<open>Queue_Report\<close> extends both with the statistic
    (locale \<open>reporting_fifo\<close>, specification \<open>report_run\<close>), and runs the scenario of
    \<open>packet_queue_test.cpp\<close>.
    \<open>Queue_Threads\<close> has the same two operations as interleaved single accesses of two
    threads (\<open>producer_step\<close>, \<open>consumer_step\<close>, reachability \<open>threads_reach\<close>).
    \<open>Queue_Wakeup\<close> adds the condition variable (\<open>wakeup_step\<close>): when the waiting \<open>pop\<close> is woken
    and when a notification goes nowhere.
  \<^item> \<open>system_cmd.hpp\<close> -- \<open>System_Cmd\<close>: a command line, and \<open>run\<close>, which starts it, collects its
    output and waits for it; the system answers through an \<open>os_script\<close>. The calls the child
    makes, and the descriptors the parent closes, are lists of system calls.
  \<^item> \<open>if_addrs.hpp\<close>, \<open>if_addrs_linux.cpp\<close>, \<open>if_addrs_macos.cpp\<close> -- \<open>If_Addrs\<close>: the addresses and
    routes of an interface, their JSON form, and the commands that configure it; the locale
    \<open>if_config\<close> is what the device relies on, interpreted for both platforms.
  \<^item> \<open>iproute.hpp\<close>, \<open>linux_ip_route.hpp\<close>, \<open>apple_ip_route.hpp\<close> -- \<open>Ip_Route\<close>: printing and parsing
    of routing tables; the locale \<open>route_line\<close>, interpreted for both formats.
  \<^item> \<open>tun_device.cpp\<close> and the closures of \<open>startOnTun\<close> -- \<open>Tun_Io\<close>: frames with the four header
    bytes of the tun descriptor, \<open>tun_read\<close>, \<open>tun_write\<close>, the read loop with \<open>select\<close>.
  \<^item> \<open>tun_device.hpp\<close> -- \<open>Tun_Device\<close>: two queues, four threads, a descriptor and a running
    flag; \<open>start\<close>, \<open>stop\<close>, \<open>tun_alloc\<close> of both platforms, JSON, and one turn of each
    thread's loop (\<open>echo_step\<close>, \<open>from_tun_step\<close>, \<open>to_tun_step\<close>).
  \<^item> \<open>ws_packet.hpp\<close>, \<open>message.hpp\<close> -- \<open>Ws_Packet\<close>: messages with a header of four bytes, and the
    JSON envelope with an action.
  \<^item> \<open>tunator.hpp\<close>, \<open>tunator.cpp\<close>, \<open>main.cpp\<close> -- \<open>Tunator\<close>: the options, the string hash of the two
    dispatches, the choice of the server, the graceful stop.
  \<^item> \<open>tuna_server.hpp\<close> -- \<open>Tuna_Server\<close>: the map from connections to devices and the handlers.
    A \<open>shared_ptr<TunDevice>\<close> is an index into a heap, as the threads of a device share it
    with the map. \<open>srv_step\<close> is one handler or one turn of a thread, \<open>server_reach\<close> what such
    steps lead to, \<open>srv_ok\<close> the invariant.
  \<^item> The thread functions of \<open>tun_device.hpp\<close> and \<open>tuna_server.hpp\<close> -- \<open>Thread_Loops\<close>: the turns
    of \<open>Tun_Device\<close> and \<open>Tuna_Server\<close> under their loop heads (\<open>echo_loop\<close>, \<open>from_tun_loop\<close>,
    \<open>to_tun_loop\<close>, \<open>recv_loop\<close>, \<open>stat_loop\<close>). The locale \<open>looping_thread\<close> says when such a loop
    ends and is interpreted for each of the five; so the joins of \<open>stop\<close>, which \<open>Tun_Device\<close>
    models as steps that return, do return.
  \<^item> \<open>Echo_Pipeline\<close>: echo mode as a whole, packet messages, echo turns and recv turns in any
    order, as a refinement of two queues of \<open>Queue_Spec_Fifo\<close> in series.
  \<^item> \<open>Gateway\<close>: the whole gateway, any number of clients in either mode, with the turns of all
    threads of their devices and the kernel's side of each descriptor (record \<open>gateway\<close>,
    \<open>gateway_do\<close>). Its specification is one machine on lists of packets per connection
    (\<open>conn_step\<close>, \<open>gw_step\<close>), and \<open>gw_simulation\<close> relates the two event by event. Its events are
    the turns of devices in the map; those of a leaked or a disconnected device are in the
    step relation of \<open>Tuna_Server\<close> only.
  \<^item> \<open>Status_Reports\<close>: the reports that the same runs send to each client (\<open>report_list\<close>), which
    are numbered by the device.
  \<^item> \<open>Server_Typing\<close>: what descriptions and queues the messages of clients can make the server
    hold, as an invariant of \<open>server_reach\<close>.
  \<^item> \<open>Prelude\<close> (machine types, results, byte arrays), \<open>Cpp_Std\<close> (\<open>to_string\<close>, \<open>stoi\<close>, C
    strings), \<open>Ext_Api\<close> and \<open>Ext_Text\<close> (the libraries) are shared.

  \<^bold>\<open>How the code is modelled.\<close> Operations are functions on explicit state; an operation that
  can fail to return has the result type \<open>'a exec\<close>: \<open>Throws\<close> is an exception that leaves it,
  \<open>Blocked\<close> a call still waiting when its script ends, \<open>Undefined\<close> an access C++ leaves
  undefined. \<open>size_t\<close> and \<open>ssize_t\<close> are 64 bit words, \<open>unsigned short\<close> a 16 bit word. A
  closure given to \<open>push\<close> or \<open>pop\<close> is a function of the packet, the byte array and the state
  it captures. jsoncpp, the ipaddress library, Boost's ring buffer and tokenizer are records
  of functions; theorems that need them to behave take their documented laws
  (\<open>json_laws\<close>, \<open>ip_laws\<close>, \<open>ring_laws\<close>, \<open>char_separator_laws\<close>) as hypotheses, and each has a
  small instance that satisfies its laws, on which the closed examples compute. What the
  kernel, the clock and the scheduler do is an argument of the operation.

  \<^bold>\<open>What is shown.\<close> The pool never overlaps slots; the queue is a bounded first-in first-out
  channel of byte strings, for whole calls with arbitrary interference and, access by access,
  for every interleaving of its two threads, without leaks and with every access in bounds;
  a \<open>pop\<close> that gives up has missed nothing except by one race, which costs it one timeout;
  its counters agree with what happened, and for undisturbed calls every window is predicted
  exactly. Reports, interface descriptions and Linux routing
  tables survive printing and reading. A device starts and stops as its callers expect, or
  leaves a stated state behind. The server keeps its invariant under every sequence of
  messages, disconnects and turns of threads; connections do not affect each other;
  \<open>disconnect\<close> always returns, and every thread it joins ends; an echo device is two bounded
  queues in series. The gateway as a whole refines one pair of packet lists per connection,
  for any number of clients and every order of events: so clients do not disturb each other,
  and in tun mode packets go in order and, within the bound, without loss in both directions,
  and each client gets its reports numbered from one without a gap.
  Whatever a client sends, the server holds only addresses that were parsed, MTUs within its
  own and packets within their slots. Several theorems state behaviour that is probably not
  meant: a second \<open>init\<close> leaks a device, a device's report counts a window twice and its
  counters race with \<open>collect\<close>, a notification can be lost, \<open>run\<close> hangs when its child is killed, the parent closes
  descriptors twice, a frame without payload stops the device.

  \<^bold>\<open>Bounds and scripts.\<close> No definition of code uses fuel: the loops of \<open>alloc\<close> and \<open>tun_alloc\<close> end by a
  measure; \<open>stat_run\<close> and \<open>gateway_run\<close> follow a list of steps; the loops of \<open>push\<close> and \<open>pop\<close> consume one script entry per sleep or wait, and
  \<open>push_returns_right\<close> shows that a script of \<open>blockWait div 10 + 2\<close> entries is always
  enough for \<open>push\<close>, which is also the bound under which \<open>push_tries\<close> counts its turns; the wait of
  \<open>pop\<close> ends with the first entry that is a timeout. The pool theorems
  hold for all mtu and queue sizes that fit the server's 16 bit options.

  \<^bold>\<open>Not modelled.\<close> Logging; the text of the local time in a report; the websocket library
  (a sent frame is an entry of \<open>ts_sent\<close>, the completion callbacks only log); which library
  thread runs a handler (handlers are single steps; the map has no lock in the code);
  weak memory; a second thread that collects while the first one does; destructors that only
  free memory;
  \<open>AppleIpRoute::read\<close>, which names a member that does not exist; the test programs, but for the
  scenario in \<open>Queue_Report\<close>. \<open>operator[]\<close> of
  jsoncpp adds a missing member to the value it reads; as no code looks at such a value
  again, reading is modelled without this effect. Which thread wins when \<open>stop\<close> runs while a
  turn is in progress is left to the inputs of the loops: a turn sees the flag as it was when
  the turn began.
\<close>

section \<open>The client's init message\<close>

text \<open>
  What a client sends to ask for a device: the interface description wrapped with the action
  \<open>init\<close> by \<open>MessageRef\<close>, and written by the JSON library.
\<close>

definition init_value :: "('j, 'ip, 'q) platform \<Rightarrow> 'ip IfAddrs \<Rightarrow> ('j \<times> 'ip IfAddrs MessageRef) exec" where
  "init_value L ia = MessageRef_asJson (pf_json L)
     (\<lambda>v ia. ebind (IfAddrs_asJson (pf_json L) (pf_ip L) ia v) (\<lambda>j. Inr (j, ia)))
     (j_null (pf_json L)) \<lparr>mr_action = ''init'', mr_data = ia\<rparr>"

lemma init_value_message:
  assumes J: "json_laws (pf_json L)" and P: "ip_laws (pf_ip L)" and ok: "if_ok (pf_ip L) ia"
    and m: "unat (ia_mtu ia) < 2 ^ 31" and v: "init_value L ia = Inr (v, m')"
    and p: "j_parse (pf_json L) (j_write (pf_json L) v) = Some v"
      "length (j_write (pf_json L) v) + 4 < 2 ^ 64" "ev_freed ev ''init'' = ''init''"
  shows "\<exists>data. action_message L ev (j_write (pf_json L) v) ''init'' data \<and>
    IfAddrs_fromJson (pf_json L) (pf_ip L) data IfAddrs_new = Inr (True, ia)"
proof -
  let ?J = "pf_json L"
  obtain v1 where v1: "j_put ?J (j_null ?J) ''action'' (j_str ?J ''init'') = Inr v1" "j_obj ?J v1"
    "\<And>k. j_at ?J v1 k = (if k = ''action'' then Inr (j_str ?J ''init'') else j_at ?J (j_null ?J) k)"
    using j_put_obj [OF J j_null_obj(1) [OF J]] by blast
  obtain data where d: "IfAddrs_asJson ?J (pf_ip L) ia (j_null ?J) = Inr data"
    "IfAddrs_fromJson ?J (pf_ip L) data IfAddrs_new = Inr (True, ia)"
    using IfAddrs_json_onto [OF J P ok m, of IfAddrs_new] by (auto simp: IfAddrs_new_def)
  obtain v2 where v2: "j_put ?J v1 ''data'' data = Inr v2"
    "\<And>k. j_at ?J v2 k = (if k = ''data'' then Inr data else j_at ?J v1 k)"
    using j_put_obj [OF J v1(2)] by blast
  have "v2 = v" using v by (simp add: init_value_def MessageRef_asJson_def v1(1) d(1) v2(1))
  then have "j_at ?J v ''action'' = Inr (j_str ?J ''init'')" "j_at ?J v ''data'' = Inr data"
    using v1(3) v2(2) by auto
  moreover have "c_string ''init'' = ''init''" by (simp add: c_string_def)
  ultimately have "action_message L ev (j_write ?J v) ''init'' data"
    using p j_value_laws(7) [OF J] unfolding action_message_def by auto
  then show ?thesis using d(2) by blast
qed

section \<open>Properties across components\<close>

text \<open>A connected echo device returns a packet through its three threads.\<close>

lemma echo_turns:
  assumes R: "ring_laws (pf_ring L)" and e: "new_device (pf_ring L) mtu qSize ia (ts_heap srv ! i)"
    and i: "ts_tunDevices srv c = Some i" "i < length (ts_heap srv)"
    and q: "0 < unat qSize" and bs: "bs \<noteq> []" "length bs \<le> unat mtu"
  shows "\<exists>srv2 srv3 srv4.
    onmessage L ev script c \<lparr>ms_data = ''PAKT'' @ bs, ms_pos = 0\<rparr> srv = Inr srv2 \<and>
    device_turn i (echo_step (pf_ring L) script' waits) srv2 = Inr srv3 \<and>
    recv_turn (pf_ring L) waits' i c srv3 = Inr srv4 \<and>
    ts_sent srv4 = ts_sent srv @ [(c, ''PAKT'' @ bs, Some 130)]"
proof -
  let ?R = "pf_ring L"
  let ?tun = "ts_heap srv ! i"
  have d: "dev_ok ?R ?tun" using e by (simp add: new_device_def)
  have mtu: "unat (pb_mtu (pq_pb (td_toTun ?tun))) = unat mtu" "unat (pb_mtu (pq_pb (td_fromTun ?tun))) = unat mtu"
    using e by (simp_all add: new_device_def)
  have len: "length bs < 2 ^ 63" using bs(2) unat16_less [of mtu] by simp
  have "0 < unat mtu" using bs by (cases bs) auto
  with onmessage_packet [OF R d i bs(1) len, of ev script] e q mtu obtain to' where m:
    "onmessage L ev script c \<lparr>ms_data = ''PAKT'' @ bs, ms_pos = 0\<rparr> srv =
      Inr (srv\<lparr>ts_heap := (ts_heap srv)[i := ?tun\<lparr>td_toTun := to'\<rparr>]\<rparr>)"
    "pq_inv ?R to'" "pb_mtu (pq_pb to') = pb_mtu (pq_pb (td_toTun ?tun))"
    "pq_queue ?R to' = [take (unat mtu) bs]"
    by (auto simp: new_device_def)
  let ?t2 = "?tun\<lparr>td_toTun := to'\<rparr>"
  have d2: "dev_ok ?R ?t2" using d m(2,3) by (simp add: dev_ok_def)
  have "\<exists>tun'. echo_step ?R script' waits ?t2 = Inr tun' \<and> dev_ok ?R tun' \<and>
      pq_queue ?R (td_toTun tun') = [] \<and>
      pq_queue ?R (td_fromTun tun') = pq_queue ?R (td_fromTun ?t2) @ [bs]"
    by (rule echo_turn_step [OF R d2]) (use e m bs q len mtu in \<open>simp_all add: new_device_def\<close>)
  then obtain tun' where s: "echo_step ?R script' waits ?t2 = Inr tun'" "dev_ok ?R tun'"
    "pq_queue ?R (td_fromTun tun') = [bs]"
    using e by (auto simp: new_device_def)
  let ?s2 = "srv\<lparr>ts_heap := (ts_heap srv)[i := ?t2]\<rparr>"
  let ?s3 = "?s2\<lparr>ts_heap := (ts_heap ?s2)[i := tun']\<rparr>"
  have t: "device_turn i (echo_step ?R script' waits) ?s2 = Inr ?s3"
    using s(1) i(2) by (simp add: device_turn_def)
  have h: "ts_heap ?s3 ! i = tun'" "i < length (ts_heap ?s3)" using i(2) by simp_all
  obtain from' where "recv_turn ?R waits' i c ?s3 = Inr (?s3\<lparr>
      ts_heap := (ts_heap ?s3)[i := (ts_heap ?s3 ! i)\<lparr>td_fromTun := from'\<rparr>],
      ts_sent := ts_sent ?s3 @ [(c, ''PAKT'' @ bs, Some 130)]\<rparr>)"
    using recv_turn_head [OF R, of ?s3 i bs "[]" waits' c] h s(2,3) by auto
  with m(1) t show ?thesis by (auto simp del: list_update_overwrite)
qed


text \<open>The example: the platform whose reader knows the text of this message.\<close>

definition demo_value :: jval where
  "demo_value = JObj [(''action'', JStr ''init''), (''data'', JObj [(''mtu'', JUInt 1360),
     (''dests'', JArr []), (''addrs'', JArr []), (''routes'', JArr [])])]"

lemma demo_value: "\<exists>m. init_value (demo (\<lambda>_. Some demo_value)) IfAddrs_new = Inr (demo_value, m)"
  by (simp add: init_value_def MessageRef_asJson_def demo_def jv_api_def jv_put_def demo_value_def
      IfAddrs_asJson_def IfAddrs_new_def j_list_def)


end
